theory Spec2Isabelle
  imports Main "HOL-Library.Word"
begin

unbundle bit_operations_syntax

section \<open>Data model\<close>

text \<open>
  A shard byte and a GF(256) element are both \<open>uint8_t\<close>; the counts of the parameter
  record are C \<open>int\<close>, modelled as 32-bit words read through \<open>sint\<close>. Loop counters
  and the decoder's two counts start at zero and are incremented at most \<open>OriginalCount\<close>
  times, so they are natural numbers.
\<close>

type_synonym byte = "8 word"
type_synonym cint = "32 word"

record cm256_encoder_params =
  BlockBytes :: cint
  OriginalCount :: cint
  RecoveryCount :: cint

text \<open>
  A block descriptor: the caller's buffer (its bytes) and the one-byte index. An array of
  descriptors is a list; a pointer to a descriptor is its position in that list.
\<close>

record cm256_block =
  Block :: "byte list"
  Index :: byte

section \<open>GF(256) collaborator\<close>

text \<open>
  Modelled from the spec: the GF(256) backend (\<open>gf256_add\<close>, \<open>gf256_mul\<close>,
  \<open>gf256_div\<close> and the bulk operations over memory) is not among the sources. The
  spec fixes addition as XOR and multiplication and division as those of the field defined
  by one fixed irreducible polynomial of degree 8 that the collaborator provides. The
  polynomial here is \<open>x^8 + x^6 + x^3 + x^2 + 1\<close> (\<open>0x14D\<close>);
  \<open>gf256_xtime\<close> multiplies by \<open>x\<close> and reduces, \<open>gf256_mul\<close> is the
  shift-and-add product, and \<open>gf256_div a b\<close> is \<open>a\<close> times the inverse
  \<open>b^254\<close> of \<open>b\<close>.
\<close>

definition gf256_add :: "byte \<Rightarrow> byte \<Rightarrow> byte" where
  "gf256_add a b = a XOR b"

definition gf256_xtime :: "byte \<Rightarrow> byte" where
  "gf256_xtime a = (if bit a 7 then push_bit 1 a XOR 0x4D else push_bit 1 a)"

fun gf256_mul_loop :: "nat \<Rightarrow> byte \<Rightarrow> byte \<Rightarrow> byte" where
  "gf256_mul_loop 0 a b = 0"
| "gf256_mul_loop (Suc n) a b =
     (if bit b 0 then a else 0) XOR gf256_mul_loop n (gf256_xtime a) (drop_bit 1 b)"

definition gf256_mul :: "byte \<Rightarrow> byte \<Rightarrow> byte" where
  "gf256_mul a b = gf256_mul_loop 8 a b"

fun gf256_inv_loop :: "nat \<Rightarrow> byte \<Rightarrow> byte \<Rightarrow> byte" where
  "gf256_inv_loop 0 acc s = acc"
| "gf256_inv_loop (Suc n) acc s = gf256_inv_loop n (gf256_mul acc s) (gf256_mul s s)"

definition gf256_inv :: "byte \<Rightarrow> byte" where
  "gf256_inv a = gf256_inv_loop 7 1 (gf256_mul a a)"

definition gf256_div :: "byte \<Rightarrow> byte \<Rightarrow> byte" where
  "gf256_div a b = gf256_mul a (gf256_inv b)"

text \<open>
  Modelled from the spec: the bulk operations of the collaborator contract, each over the
  first \<open>n\<close> bytes of the destination. A pointer into a buffer is the suffix of the
  buffer that starts there. Where a buffer ends before \<open>n\<close> bytes the C code reads or
  writes out of bounds; the model stops at the end of the shorter buffer.

  \<^item> \<open>memcpy(dst, src, n)\<close>: \<open>dst[i] = src[i]\<close>
  \<^item> \<open>add_mem(dst, src, n)\<close>: \<open>dst[i] ^= src[i]\<close>
  \<^item> \<open>add2_mem(dst, a, b, n)\<close>: \<open>dst[i] ^= a[i] ^ b[i]\<close>
  \<^item> \<open>addset_mem(dst, a, b, n)\<close>: \<open>dst[i] = a[i] ^ b[i]\<close>
  \<^item> \<open>mul_mem(dst, src, c, n)\<close>: \<open>dst[i] = c * src[i]\<close>
  \<^item> \<open>muladd_mem(dst, c, src, n)\<close>: \<open>dst[i] ^= c * src[i]\<close>
  \<^item> \<open>div_mem(dst, src, c, n)\<close>: \<open>dst[i] = src[i] / c\<close>
\<close>

fun memcpy :: "byte list \<Rightarrow> byte list \<Rightarrow> nat \<Rightarrow> byte list" where
  "memcpy (d # dst) (s # src) (Suc n) = s # memcpy dst src n"
| "memcpy dst src n = dst"

fun gf256_add_mem :: "byte list \<Rightarrow> byte list \<Rightarrow> nat \<Rightarrow> byte list" where
  "gf256_add_mem (d # dst) (s # src) (Suc n) = (d XOR s) # gf256_add_mem dst src n"
| "gf256_add_mem dst src n = dst"

fun gf256_add2_mem :: "byte list \<Rightarrow> byte list \<Rightarrow> byte list \<Rightarrow> nat \<Rightarrow> byte list" where
  "gf256_add2_mem (d # dst) (a # as) (b # bs) (Suc n) =
     (d XOR (a XOR b)) # gf256_add2_mem dst as bs n"
| "gf256_add2_mem dst as bs n = dst"

fun gf256_addset_mem :: "byte list \<Rightarrow> byte list \<Rightarrow> byte list \<Rightarrow> nat \<Rightarrow> byte list" where
  "gf256_addset_mem (d # dst) (a # as) (b # bs) (Suc n) =
     (a XOR b) # gf256_addset_mem dst as bs n"
| "gf256_addset_mem dst as bs n = dst"

fun gf256_mul_mem :: "byte list \<Rightarrow> byte list \<Rightarrow> byte \<Rightarrow> nat \<Rightarrow> byte list" where
  "gf256_mul_mem (d # dst) (s # src) c (Suc n) = gf256_mul c s # gf256_mul_mem dst src c n"
| "gf256_mul_mem dst src c n = dst"

fun gf256_muladd_mem :: "byte list \<Rightarrow> byte \<Rightarrow> byte list \<Rightarrow> nat \<Rightarrow> byte list" where
  "gf256_muladd_mem (d # dst) c (s # src) (Suc n) =
     (d XOR gf256_mul c s) # gf256_muladd_mem dst c src n"
| "gf256_muladd_mem dst c src n = dst"

fun gf256_div_mem :: "byte list \<Rightarrow> byte list \<Rightarrow> byte \<Rightarrow> nat \<Rightarrow> byte list" where
  "gf256_div_mem (d # dst) (s # src) c (Suc n) = gf256_div s c # gf256_div_mem dst src c n"
| "gf256_div_mem dst src c n = dst"

section \<open>Matrix element generator\<close>

definition GetMatrixElement :: "byte \<Rightarrow> byte \<Rightarrow> byte \<Rightarrow> byte" where
  "GetMatrixElement x_i x_0 y_j = gf256_div (gf256_add y_j x_0) (gf256_add x_i y_j)"

section \<open>Encoder\<close>

text \<open>
  The two loops of \<open>cm256_encode_block\<close>: one step of the parity row
  (\<open>gf256_add_mem\<close> of original \<open>j\<close>) and one step of a general row
  (\<open>gf256_muladd_mem\<close> of original \<open>j\<close> scaled by the matrix element; \<open>y_j\<close> is
  the cast of \<open>j\<close> to a byte).
\<close>

definition encode_parity_step :: "cm256_block list \<Rightarrow> nat \<Rightarrow> byte list \<Rightarrow> nat \<Rightarrow> byte list" where
  "encode_parity_step originals n recoveryBlock j =
     gf256_add_mem recoveryBlock (Block (originals ! j)) n"

definition encode_row_step ::
  "cm256_block list \<Rightarrow> nat \<Rightarrow> byte \<Rightarrow> byte \<Rightarrow> byte list \<Rightarrow> nat \<Rightarrow> byte list" where
  "encode_row_step originals n x_i x_0 recoveryBlock j =
     gf256_muladd_mem recoveryBlock (GetMatrixElement x_i x_0 (of_nat j))
       (Block (originals ! j)) n"

definition cm256_encode_block ::
  "cm256_encoder_params \<Rightarrow> cm256_block list \<Rightarrow> cint \<Rightarrow> byte list \<Rightarrow> byte list" where
  "cm256_encode_block params originals recoveryBlockIndex recoveryBlock =
     (if OriginalCount params = 1 then
        memcpy recoveryBlock (Block (originals ! 0)) (nat (sint (BlockBytes params)))
      else if recoveryBlockIndex = OriginalCount params then
        foldl (encode_parity_step originals (nat (sint (BlockBytes params))))
          (gf256_addset_mem recoveryBlock (Block (originals ! 0)) (Block (originals ! 1))
             (nat (sint (BlockBytes params))))
          [2..<nat (sint (OriginalCount params))]
      else
        foldl (encode_row_step originals (nat (sint (BlockBytes params)))
                 (ucast recoveryBlockIndex) (ucast (OriginalCount params)))
          (gf256_mul_mem recoveryBlock (Block (originals ! 0))
             (GetMatrixElement (ucast recoveryBlockIndex) (ucast (OriginalCount params)) 0)
             (nat (sint (BlockBytes params))))
          [1..<nat (sint (OriginalCount params))])"

text \<open>
  One iteration of the loop of \<open>cm256_encode\<close>: \<open>recoveryBlock\<close> has been advanced
  \<open>block\<close> times by \<open>BlockBytes\<close>, so it points \<open>block * BlockBytes\<close> bytes into
  the output region.
\<close>

definition cm256_encode_step ::
  "cm256_encoder_params \<Rightarrow> cm256_block list \<Rightarrow> byte list \<Rightarrow> nat \<Rightarrow> byte list" where
  "cm256_encode_step params originals recoveryBlocks block =
     take (block * nat (sint (BlockBytes params))) recoveryBlocks @
     cm256_encode_block params originals (OriginalCount params + of_nat block)
       (drop (block * nat (sint (BlockBytes params))) recoveryBlocks)"

text \<open>
  \<open>cm256_encode\<close> returns its code and the output region. A null pointer is \<open>None\<close>.
  The sum \<open>OriginalCount + RecoveryCount\<close> is the 32-bit sum of the C expression.
\<close>

definition cm256_encode ::
  "cm256_encoder_params \<Rightarrow> cm256_block list option \<Rightarrow> byte list option \<Rightarrow> int \<times> byte list option" where
  "cm256_encode params originals recoveryBlocks =
     (if sint (OriginalCount params) \<le> 0 \<or> sint (RecoveryCount params) \<le> 0
          \<or> sint (BlockBytes params) \<le> 0 then (- 1, recoveryBlocks)
      else if 256 < sint (OriginalCount params + RecoveryCount params) then (- 2, recoveryBlocks)
      else case originals of
        None \<Rightarrow> (- 3, recoveryBlocks)
      | Some os \<Rightarrow>
          (case recoveryBlocks of
             None \<Rightarrow> (- 3, recoveryBlocks)
           | Some rb \<Rightarrow>
               (0, Some (foldl (cm256_encode_step params os) rb
                           [0..<nat (sint (RecoveryCount params))]))))"

section \<open>Decoder state\<close>

text \<open>
  The working state of one decode call. \<open>Recovery\<close> and \<open>Original\<close> are the two arrays
  of 256 descriptor pointers (positions in the caller's array), \<open>ErasuresIndices\<close> the
  array of 256 bytes. The two counts carry a prime, since the parameter record has fields
  of the same names. The state is allocated uninitialised: its first contents are an
  argument of \<open>cm256_decode\<close>.
\<close>

record CM256Decoder =
  Params :: cm256_encoder_params
  Recovery :: "nat list"
  RecoveryCount' :: nat
  Original :: "nat list"
  OriginalCount' :: nat
  ErasuresIndices :: "byte list"

text \<open>Writing through a descriptor pointer: the buffer it refers to, and its index.\<close>

definition set_Block :: "cm256_block list \<Rightarrow> nat \<Rightarrow> byte list \<Rightarrow> cm256_block list" where
  "set_Block blocks p buf = blocks[p := (blocks ! p)\<lparr>Block := buf\<rparr>]"

definition set_Index :: "cm256_block list \<Rightarrow> nat \<Rightarrow> byte \<Rightarrow> cm256_block list" where
  "set_Index blocks p v = blocks[p := (blocks ! p)\<lparr>Index := v\<rparr>]"

section \<open>Decoder bookkeeping\<close>

text \<open>The first loop of \<open>Initialize\<close>: the presence vector is cleared up to \<open>OriginalCount\<close>.\<close>

definition Initialize_zero_step :: "CM256Decoder \<Rightarrow> nat \<Rightarrow> CM256Decoder" where
  "Initialize_zero_step decoder ii =
     decoder\<lparr>ErasuresIndices := (ErasuresIndices decoder)[ii := 0]\<rparr>"

text \<open>
  The third loop, over \<open>ii = 0 .. 255\<close> with its \<open>break\<close>: the indices whose presence
  byte is zero are written to the front of the same array.
\<close>

fun Initialize_erasures :: "nat list \<Rightarrow> nat \<Rightarrow> CM256Decoder \<Rightarrow> CM256Decoder" where
  "Initialize_erasures [] indexCount decoder = decoder"
| "Initialize_erasures (ii # rest) indexCount decoder =
     (if ErasuresIndices decoder ! ii = 0 then
        (if RecoveryCount' decoder \<le> indexCount + 1 then
           decoder\<lparr>ErasuresIndices := (ErasuresIndices decoder)[indexCount := of_nat ii]\<rparr>
         else
           Initialize_erasures rest (indexCount + 1)
             (decoder\<lparr>ErasuresIndices := (ErasuresIndices decoder)[indexCount := of_nat ii]\<rparr>))
      else Initialize_erasures rest indexCount decoder)"

text \<open>
  The second loop, over the first \<open>OriginalCount\<close> descriptors, with its early
  \<open>return -1\<close>; when the loop ends the function goes on to the third loop and returns 0.
\<close>

fun Initialize_blocks ::
  "cm256_encoder_params \<Rightarrow> cm256_block list \<Rightarrow> nat list \<Rightarrow> CM256Decoder \<Rightarrow> int \<times> CM256Decoder" where
  "Initialize_blocks params blocks [] decoder =
     (0, Initialize_erasures [0..<256] 0 decoder)"
| "Initialize_blocks params blocks (ii # rest) decoder =
     (if uint (Index (blocks ! ii)) < sint (OriginalCount params) then
        (if ErasuresIndices decoder ! unat (Index (blocks ! ii)) \<noteq> 0 then
           (- 1, decoder\<lparr>Original := (Original decoder)[OriginalCount' decoder := ii],
                        OriginalCount' := OriginalCount' decoder + 1\<rparr>)
         else
           Initialize_blocks params blocks rest
             (decoder\<lparr>Original := (Original decoder)[OriginalCount' decoder := ii],
                      OriginalCount' := OriginalCount' decoder + 1,
                      ErasuresIndices := (ErasuresIndices decoder)[unat (Index (blocks ! ii)) := 1]\<rparr>))
      else
        Initialize_blocks params blocks rest
          (decoder\<lparr>Recovery := (Recovery decoder)[RecoveryCount' decoder := ii],
                   RecoveryCount' := RecoveryCount' decoder + 1\<rparr>))"

definition Initialize ::
  "CM256Decoder \<Rightarrow> cm256_encoder_params \<Rightarrow> cm256_block list \<Rightarrow> int \<times> CM256Decoder" where
  "Initialize decoder params blocks =
     Initialize_blocks params blocks [0..<nat (sint (OriginalCount params))]
       (foldl Initialize_zero_step
          (decoder\<lparr>Params := params, OriginalCount' := 0, RecoveryCount' := 0\<rparr>)
          [0..<nat (sint (OriginalCount params))])"

section \<open>Decoding with the parity row\<close>

text \<open>
  The loop of \<open>DecodeM1\<close> carries \<open>inBlock\<close>, null or the buffer of a descriptor, and
  the caller's blocks; \<open>outBlock\<close> is the buffer of \<open>Recovery[0]\<close>.
\<close>

fun DecodeM1_step ::
  "CM256Decoder \<Rightarrow> nat option \<times> cm256_block list \<Rightarrow> nat \<Rightarrow> nat option \<times> cm256_block list" where
  "DecodeM1_step decoder (None, blocks) ii = (Some (Original decoder ! ii), blocks)"
| "DecodeM1_step decoder (Some inBlock, blocks) ii =
     (None, set_Block blocks (Recovery decoder ! 0)
        (gf256_add2_mem (Block (blocks ! (Recovery decoder ! 0)))
           (Block (blocks ! inBlock)) (Block (blocks ! (Original decoder ! ii)))
           (nat (sint (BlockBytes (Params decoder))))))"

fun DecodeM1_complete :: "CM256Decoder \<Rightarrow> nat option \<times> cm256_block list \<Rightarrow> cm256_block list" where
  "DecodeM1_complete decoder (None, blocks) = blocks"
| "DecodeM1_complete decoder (Some inBlock, blocks) =
     set_Block blocks (Recovery decoder ! 0)
       (gf256_add_mem (Block (blocks ! (Recovery decoder ! 0))) (Block (blocks ! inBlock))
          (nat (sint (BlockBytes (Params decoder)))))"

definition DecodeM1 :: "CM256Decoder \<Rightarrow> cm256_block list \<Rightarrow> cm256_block list" where
  "DecodeM1 decoder blocks =
     set_Index
       (DecodeM1_complete decoder
          (foldl (DecodeM1_step decoder) (None, blocks) [0..<OriginalCount' decoder]))
       (Recovery decoder ! 0) (ErasuresIndices decoder ! 0)"

section \<open>LDU factorisation\<close>

text \<open>
  The matrix memory is one array; \<open>matrix_L\<close>, \<open>diag_D\<close> and \<open>matrix_U\<close> are offsets
  into it. The local arrays \<open>g\<close>, \<open>b\<close> (here \<open>gen_g\<close>, \<open>gen_b\<close>) and \<open>rotated_row_U\<close>
  of 256 bytes are uninitialised; their first contents are arguments. \<open>output_U\<close> walks backwards and is
  an integer offset.
\<close>

record ldu_state =
  matrix_mem :: "byte list"
  gen_g :: "byte list"
  gen_b :: "byte list"
  rotated_row_U :: "byte list"
  matrix_L :: nat
  row_U :: nat
  output_U :: int
  firstOffset_U :: int

definition ldu_init_step :: "ldu_state \<Rightarrow> nat \<Rightarrow> ldu_state" where
  "ldu_init_step s i = s\<lparr>gen_g := (gen_g s)[i := 1], gen_b := (gen_b s)[i := 1]\<rparr>"

text \<open>One iteration of the loop that computes column \<open>k\<close> of L and row \<open>k\<close> of U.\<close>

definition ldu_row_step ::
  "CM256Decoder \<Rightarrow> cm256_block list \<Rightarrow> nat \<Rightarrow> ldu_state \<Rightarrow> nat \<Rightarrow> ldu_state" where
  "ldu_row_step decoder blocks k s j =
     (let x_k = Index (blocks ! (Recovery decoder ! k));
          y_k = ErasuresIndices decoder ! k;
          x_j = Index (blocks ! (Recovery decoder ! j));
          y_j = ErasuresIndices decoder ! j;
          L_jk = gf256_div (gen_g s ! j) (gf256_add x_j y_k);
          U_kj = gf256_div (gen_b s ! j) (gf256_add x_k y_j)
      in s\<lparr>matrix_mem := (matrix_mem s)[matrix_L s := L_jk],
            matrix_L := matrix_L s + 1,
            rotated_row_U := (rotated_row_U s)[row_U s := U_kj],
            row_U := row_U s + 1,
            gen_g := (gen_g s)[j := gf256_mul (gen_g s ! j)
                    (gf256_div (gf256_add x_j x_k) (gf256_add x_j y_k))],
            gen_b := (gen_b s)[j := gf256_mul (gen_b s ! j)
                    (gf256_div (gf256_add y_j y_k) (gf256_add y_j x_k))]\<rparr>)"

text \<open>One iteration of the loop that copies the rotated row of U into place.\<close>

definition ldu_copy_step :: "ldu_state \<Rightarrow> nat \<Rightarrow> ldu_state" where
  "ldu_copy_step s j =
     s\<lparr>matrix_mem := (matrix_mem s)[nat (output_U s) := rotated_row_U s ! row_U s],
       row_U := row_U s + 1,
       output_U := output_U s - int j\<rparr>"

text \<open>
  The bulk division of the \<open>count\<close> bytes at an offset of an array, in place.
\<close>

definition div_mem_at :: "byte list \<Rightarrow> nat \<Rightarrow> byte \<Rightarrow> nat \<Rightarrow> byte list" where
  "div_mem_at buf off c count =
     take off buf @ gf256_div_mem (drop off buf) (drop off buf) c count"

definition mul_mem_at :: "byte list \<Rightarrow> nat \<Rightarrow> byte \<Rightarrow> nat \<Rightarrow> byte list" where
  "mul_mem_at buf off c count =
     take off buf @ gf256_mul_mem (drop off buf) (drop off buf) c count"

text \<open>One pivot step \<open>k\<close> of the main loop; \<open>last_U\<close> is an integer offset.\<close>

definition ldu_pivot_step ::
  "CM256Decoder \<Rightarrow> cm256_block list \<Rightarrow> nat \<Rightarrow> nat \<Rightarrow> int \<Rightarrow> ldu_state \<Rightarrow> nat \<Rightarrow> ldu_state" where
  "ldu_pivot_step decoder blocks N diag_D last_U s k =
     (let x_0 = ucast (OriginalCount (Params decoder)) :: byte;
          x_k = Index (blocks ! (Recovery decoder ! k));
          y_k = ErasuresIndices decoder ! k;
          D_kk = gf256_add x_k y_k;
          L_kk = gf256_div (gen_g s ! k) D_kk;
          U_kk = gf256_mul (gf256_div (gen_b s ! k) D_kk) (gf256_add x_0 y_k);
          row_L = matrix_L s;
          s1 = foldl (ldu_row_step decoder blocks k)
                 (s\<lparr>matrix_mem := (matrix_mem s)[diag_D + k := gf256_mul D_kk (gf256_mul L_kk U_kk)],
                    row_U := 0\<rparr>)
                 [k + 1..<N];
          count = N - (k + 1);
          s2 = s1\<lparr>matrix_mem := div_mem_at (matrix_mem s1) row_L L_kk count,
                  rotated_row_U := div_mem_at (rotated_row_U s1) 0 U_kk count\<rparr>;
          s3 = foldl ldu_copy_step
                 (s2\<lparr>output_U := last_U + firstOffset_U s2, row_U := 0\<rparr>)
                 [k + 1..<N]
      in s3\<lparr>firstOffset_U := firstOffset_U s3 - (int k + 2)\<rparr>)"

text \<open>
  One iteration of the loop that multiplies the diagonal into U (\<open>j\<close> runs downwards);
  \<open>row_U\<close> is here an offset into the matrix memory.
\<close>

definition ldu_scale_step :: "CM256Decoder \<Rightarrow> ldu_state \<Rightarrow> nat \<Rightarrow> ldu_state" where
  "ldu_scale_step decoder s j =
     s\<lparr>matrix_mem := mul_mem_at (matrix_mem s) (row_U s)
               (gf256_add (ucast (OriginalCount (Params decoder))) (ErasuresIndices decoder ! j)) j,
       row_U := row_U s + j\<rparr>"

definition ldu_last :: "CM256Decoder \<Rightarrow> cm256_block list \<Rightarrow> nat \<Rightarrow> nat \<Rightarrow> ldu_state \<Rightarrow> byte list" where
  "ldu_last decoder blocks N diag_D s =
     (let x_0 = ucast (OriginalCount (Params decoder)) :: byte;
          x_n = Index (blocks ! (Recovery decoder ! (N - 1)));
          y_n = ErasuresIndices decoder ! (N - 1);
          L_nn = gen_g s ! (N - 1);
          U_nn = gf256_mul (gen_b s ! (N - 1)) (gf256_add x_0 y_n)
      in (matrix_mem s)[diag_D + (N - 1) := gf256_div (gf256_mul L_nn U_nn) (gf256_add x_n y_n)])"

text \<open>
  \<open>GenerateLDUDecomposition\<close> takes the decoder, the caller's blocks (for the indices of
  the recovery rows), the three uninitialised local arrays, the matrix memory and the three
  pointers into it, and returns the matrix memory.
\<close>

definition GenerateLDUDecomposition ::
  "CM256Decoder \<Rightarrow> cm256_block list \<Rightarrow> byte list \<Rightarrow> byte list \<Rightarrow> byte list \<Rightarrow>
   byte list \<Rightarrow> nat \<Rightarrow> nat \<Rightarrow> nat \<Rightarrow> byte list" where
  "GenerateLDUDecomposition decoder blocks g0 b0 rot0 matrix matrix_L0 diag_D matrix_U =
     (let N = RecoveryCount' decoder;
          s0 = foldl ldu_init_step
                 \<lparr>matrix_mem = matrix, gen_g = g0, gen_b = b0, rotated_row_U = rot0, matrix_L = matrix_L0,
                  row_U = 0, output_U = 0, firstOffset_U = 0\<rparr> [0..<N];
          last_U = int matrix_U + int (((N - 1) * N) div 2) - 1;
          s1 = foldl (ldu_pivot_step decoder blocks N diag_D last_U) s0 [0..<N - 1];
          s2 = foldl (ldu_scale_step decoder) (s1\<lparr>row_U := matrix_U\<rparr>) (rev [1..<N])
      in ldu_last decoder blocks N diag_D s2)"

section \<open>Decode solver\<close>

text \<open>
  The working memory of \<open>Decode\<close> that is read before the function wrote it nowhere, but
  is uninitialised when the function starts: the stack matrix of 2048 bytes, the matrix
  that the allocator returns when \<open>N * N\<close> exceeds 2048, and the three local arrays of
  \<open>GenerateLDUDecomposition\<close>.
\<close>

record decode_scratch =
  stackMatrix :: "byte list"
  dynamicMatrix :: "byte list"
  g_local :: "byte list"
  b_local :: "byte list"
  rotated_local :: "byte list"

text \<open>Cancelling one surviving original from one recovery row.\<close>

definition Decode_cancel_step ::
  "CM256Decoder \<Rightarrow> nat \<Rightarrow> byte \<Rightarrow> cm256_block list \<Rightarrow> nat \<Rightarrow> cm256_block list" where
  "Decode_cancel_step decoder inBlock inRow blocks recoveryIndex =
     set_Block blocks (Recovery decoder ! recoveryIndex)
       (gf256_muladd_mem (Block (blocks ! (Recovery decoder ! recoveryIndex)))
          (GetMatrixElement (Index (blocks ! (Recovery decoder ! recoveryIndex)))
             (ucast (OriginalCount (Params decoder))) inRow)
          (Block (blocks ! inBlock))
          (nat (sint (BlockBytes (Params decoder)))))"

definition Decode_cancel :: "CM256Decoder \<Rightarrow> cm256_block list \<Rightarrow> nat \<Rightarrow> cm256_block list" where
  "Decode_cancel decoder blocks originalIndex =
     foldl (Decode_cancel_step decoder (Original decoder ! originalIndex)
              (Index (blocks ! (Original decoder ! originalIndex))))
       blocks [0..<RecoveryCount' decoder]"

text \<open>
  The elimination passes carry the caller's blocks and the pointer that walks through the
  matrix memory (\<open>matrix_L\<close>, then \<open>matrix_U\<close>).
\<close>

definition Decode_elim_step ::
  "CM256Decoder \<Rightarrow> byte list \<Rightarrow> nat \<Rightarrow> cm256_block list \<times> nat \<Rightarrow> nat \<Rightarrow> cm256_block list \<times> nat" where
  "Decode_elim_step decoder matrix j st i =
     (set_Block (fst st) (Recovery decoder ! i)
        (gf256_muladd_mem (Block (fst st ! (Recovery decoder ! i))) (matrix ! snd st)
           (Block (fst st ! (Recovery decoder ! j)))
           (nat (sint (BlockBytes (Params decoder))))),
      snd st + 1)"

definition Decode_lower ::
  "CM256Decoder \<Rightarrow> byte list \<Rightarrow> cm256_block list \<times> nat \<Rightarrow> nat \<Rightarrow> cm256_block list \<times> nat" where
  "Decode_lower decoder matrix st j =
     foldl (Decode_elim_step decoder matrix j) st [j + 1..<RecoveryCount' decoder]"

definition Decode_diag ::
  "CM256Decoder \<Rightarrow> byte list \<Rightarrow> nat \<Rightarrow> cm256_block list \<Rightarrow> nat \<Rightarrow> cm256_block list" where
  "Decode_diag decoder matrix diag_D blocks i =
     set_Block (set_Index blocks (Recovery decoder ! i) (ErasuresIndices decoder ! i))
       (Recovery decoder ! i)
       (gf256_div_mem (Block (blocks ! (Recovery decoder ! i)))
          (Block (blocks ! (Recovery decoder ! i))) (matrix ! (diag_D + i))
          (nat (sint (BlockBytes (Params decoder)))))"

definition Decode_upper ::
  "CM256Decoder \<Rightarrow> byte list \<Rightarrow> cm256_block list \<times> nat \<Rightarrow> nat \<Rightarrow> cm256_block list \<times> nat" where
  "Decode_upper decoder matrix st j =
     foldl (Decode_elim_step decoder matrix j) st (rev [0..<j])"

definition Decode :: "CM256Decoder \<Rightarrow> decode_scratch \<Rightarrow> cm256_block list \<Rightarrow> cm256_block list" where
  "Decode decoder scratch blocks =
     (let N = RecoveryCount' decoder;
          blocks1 = foldl (Decode_cancel decoder) blocks [0..<OriginalCount' decoder];
          matrix0 = (if 2048 < N * N then dynamicMatrix scratch else stackMatrix scratch);
          matrix_U = 0;
          diag_D = matrix_U + ((N - 1) * N) div 2;
          matrix_L = diag_D + N;
          matrix = GenerateLDUDecomposition decoder blocks1 (g_local scratch) (b_local scratch)
                     (rotated_local scratch) matrix0 matrix_L diag_D matrix_U;
          blocks2 = fst (foldl (Decode_lower decoder matrix) (blocks1, matrix_L) [0..<N - 1]);
          blocks3 = foldl (Decode_diag decoder matrix diag_D) blocks2 [0..<N]
      in fst (foldl (Decode_upper decoder matrix) (blocks3, matrix_U) (rev [1..<N])))"

section \<open>Top-level decode\<close>

text \<open>
  \<open>cm256_decode\<close> returns its code and the caller's array of descriptors. A null \<open>blocks\<close>
  pointer is \<open>None\<close>. The allocation of the state is taken to succeed; the state and the
  working memory of \<open>Decode\<close> come uninitialised, as arguments.
\<close>

definition cm256_decode ::
  "cm256_encoder_params \<Rightarrow> CM256Decoder \<Rightarrow> decode_scratch \<Rightarrow> cm256_block list option \<Rightarrow>
   int \<times> cm256_block list option" where
  "cm256_decode params state scratch blocks =
     (if sint (OriginalCount params) \<le> 0 \<or> sint (RecoveryCount params) \<le> 0
          \<or> sint (BlockBytes params) \<le> 0 then (- 1, blocks)
      else if 256 < sint (OriginalCount params + RecoveryCount params) then (- 2, blocks)
      else case blocks of
        None \<Rightarrow> (- 3, blocks)
      | Some bl \<Rightarrow>
          (if OriginalCount params = 1 then (0, Some (set_Index bl 0 0))
           else if fst (Initialize state params bl) \<noteq> 0 then (- 5, Some bl)
           else if RecoveryCount' (snd (Initialize state params bl)) \<le> 0 then (0, Some bl)
           else if RecoveryCount params = 1 then
             (0, Some (DecodeM1 (snd (Initialize state params bl)) bl))
           else (0, Some (Decode (snd (Initialize state params bl)) scratch bl))))"

section \<open>Calls of the matrix element generator, with the division guarded\<close>

text \<open>
  \<open>GetMatrixElement\<close> divides by \<open>x_i XOR y_j\<close>. To speak of the denominators of the
  calls that the encoder and the decoder make, the functions that reach a call are given
  once more with the division made partial: a call whose denominator is zero yields \<open>None\<close>,
  and \<open>None\<close> is passed on to the caller. Everything else is as in the functions above, which
  the guarded ones are compared with.
\<close>

definition GetMatrixElement_guarded :: "byte \<Rightarrow> byte \<Rightarrow> byte \<Rightarrow> byte option" where
  "GetMatrixElement_guarded x_i x_0 y_j =
     (if gf256_add x_i y_j = 0 then None else Some (GetMatrixElement x_i x_0 y_j))"

definition encode_row_step_guarded ::
  "cm256_block list \<Rightarrow> nat \<Rightarrow> byte \<Rightarrow> byte \<Rightarrow> byte list option \<Rightarrow> nat \<Rightarrow> byte list option" where
  "encode_row_step_guarded originals n x_i x_0 recoveryBlock j =
     (case recoveryBlock of
        None \<Rightarrow> None
      | Some rb \<Rightarrow>
          (case GetMatrixElement_guarded x_i x_0 (of_nat j) of
             None \<Rightarrow> None
           | Some e \<Rightarrow> Some (gf256_muladd_mem rb e (Block (originals ! j)) n)))"

definition cm256_encode_block_guarded ::
  "cm256_encoder_params \<Rightarrow> cm256_block list \<Rightarrow> cint \<Rightarrow> byte list \<Rightarrow> byte list option" where
  "cm256_encode_block_guarded params originals recoveryBlockIndex recoveryBlock =
     (if OriginalCount params = 1 then
        Some (memcpy recoveryBlock (Block (originals ! 0)) (nat (sint (BlockBytes params))))
      else if recoveryBlockIndex = OriginalCount params then
        Some (foldl (encode_parity_step originals (nat (sint (BlockBytes params))))
                (gf256_addset_mem recoveryBlock (Block (originals ! 0)) (Block (originals ! 1))
                   (nat (sint (BlockBytes params))))
                [2..<nat (sint (OriginalCount params))])
      else
        foldl (encode_row_step_guarded originals (nat (sint (BlockBytes params)))
                 (ucast recoveryBlockIndex) (ucast (OriginalCount params)))
          (case GetMatrixElement_guarded (ucast recoveryBlockIndex)
                  (ucast (OriginalCount params)) 0 of
             None \<Rightarrow> None
           | Some e \<Rightarrow>
               Some (gf256_mul_mem recoveryBlock (Block (originals ! 0)) e
                       (nat (sint (BlockBytes params)))))
          [1..<nat (sint (OriginalCount params))])"

definition cm256_encode_step_guarded ::
  "cm256_encoder_params \<Rightarrow> cm256_block list \<Rightarrow> byte list option \<Rightarrow> nat \<Rightarrow> byte list option" where
  "cm256_encode_step_guarded params originals recoveryBlocks block =
     (case recoveryBlocks of
        None \<Rightarrow> None
      | Some rbs \<Rightarrow>
          (case cm256_encode_block_guarded params originals (OriginalCount params + of_nat block)
                  (drop (block * nat (sint (BlockBytes params))) rbs) of
             None \<Rightarrow> None
           | Some out \<Rightarrow> Some (take (block * nat (sint (BlockBytes params))) rbs @ out)))"

definition cm256_encode_guarded ::
  "cm256_encoder_params \<Rightarrow> cm256_block list option \<Rightarrow> byte list option \<Rightarrow>
   (int \<times> byte list option) option" where
  "cm256_encode_guarded params originals recoveryBlocks =
     (if sint (OriginalCount params) \<le> 0 \<or> sint (RecoveryCount params) \<le> 0
          \<or> sint (BlockBytes params) \<le> 0 then Some (- 1, recoveryBlocks)
      else if 256 < sint (OriginalCount params + RecoveryCount params) then
        Some (- 2, recoveryBlocks)
      else case originals of
        None \<Rightarrow> Some (- 3, recoveryBlocks)
      | Some os \<Rightarrow>
          (case recoveryBlocks of
             None \<Rightarrow> Some (- 3, recoveryBlocks)
           | Some rb \<Rightarrow>
               (case foldl (cm256_encode_step_guarded params os) (Some rb)
                       [0..<nat (sint (RecoveryCount params))] of
                  None \<Rightarrow> None
                | Some out \<Rightarrow> Some (0, Some out))))"

definition Decode_cancel_step_guarded ::
  "CM256Decoder \<Rightarrow> nat \<Rightarrow> byte \<Rightarrow> cm256_block list option \<Rightarrow> nat \<Rightarrow> cm256_block list option" where
  "Decode_cancel_step_guarded decoder inBlock inRow blocks recoveryIndex =
     (case blocks of
        None \<Rightarrow> None
      | Some bl \<Rightarrow>
          (case GetMatrixElement_guarded (Index (bl ! (Recovery decoder ! recoveryIndex)))
                  (ucast (OriginalCount (Params decoder))) inRow of
             None \<Rightarrow> None
           | Some e \<Rightarrow>
               Some (set_Block bl (Recovery decoder ! recoveryIndex)
                       (gf256_muladd_mem (Block (bl ! (Recovery decoder ! recoveryIndex))) e
                          (Block (bl ! inBlock))
                          (nat (sint (BlockBytes (Params decoder))))))))"

definition Decode_cancel_guarded ::
  "CM256Decoder \<Rightarrow> cm256_block list option \<Rightarrow> nat \<Rightarrow> cm256_block list option" where
  "Decode_cancel_guarded decoder blocks originalIndex =
     (case blocks of
        None \<Rightarrow> None
      | Some bl \<Rightarrow>
          foldl (Decode_cancel_step_guarded decoder (Original decoder ! originalIndex)
                   (Index (bl ! (Original decoder ! originalIndex))))
            (Some bl) [0..<RecoveryCount' decoder])"

definition Decode_guarded ::
  "CM256Decoder \<Rightarrow> decode_scratch \<Rightarrow> cm256_block list \<Rightarrow> cm256_block list option" where
  "Decode_guarded decoder scratch blocks =
     (case foldl (Decode_cancel_guarded decoder) (Some blocks) [0..<OriginalCount' decoder] of
        None \<Rightarrow> None
      | Some blocks1 \<Rightarrow>
          Some
            (let N = RecoveryCount' decoder;
                 matrix0 = (if 2048 < N * N then dynamicMatrix scratch else stackMatrix scratch);
                 matrix_U = 0;
                 diag_D = matrix_U + ((N - 1) * N) div 2;
                 matrix_L = diag_D + N;
                 matrix = GenerateLDUDecomposition decoder blocks1 (g_local scratch)
                            (b_local scratch) (rotated_local scratch) matrix0 matrix_L diag_D
                            matrix_U;
                 blocks2 = fst (foldl (Decode_lower decoder matrix) (blocks1, matrix_L)
                                  [0..<N - 1]);
                 blocks3 = foldl (Decode_diag decoder matrix diag_D) blocks2 [0..<N]
             in fst (foldl (Decode_upper decoder matrix) (blocks3, matrix_U) (rev [1..<N]))))"

definition cm256_decode_guarded ::
  "cm256_encoder_params \<Rightarrow> CM256Decoder \<Rightarrow> decode_scratch \<Rightarrow> cm256_block list option \<Rightarrow>
   (int \<times> cm256_block list option) option" where
  "cm256_decode_guarded params state scratch blocks =
     (if sint (OriginalCount params) \<le> 0 \<or> sint (RecoveryCount params) \<le> 0
          \<or> sint (BlockBytes params) \<le> 0 then Some (- 1, blocks)
      else if 256 < sint (OriginalCount params + RecoveryCount params) then Some (- 2, blocks)
      else case blocks of
        None \<Rightarrow> Some (- 3, blocks)
      | Some bl \<Rightarrow>
          (if OriginalCount params = 1 then Some (0, Some (set_Index bl 0 0))
           else if fst (Initialize state params bl) \<noteq> 0 then Some (- 5, Some bl)
           else if RecoveryCount' (snd (Initialize state params bl)) \<le> 0 then Some (0, Some bl)
           else if RecoveryCount params = 1 then
             Some (0, Some (DecodeM1 (snd (Initialize state params bl)) bl))
           else
             (case Decode_guarded (snd (Initialize state params bl)) scratch bl of
                None \<Rightarrow> None
              | Some out \<Rightarrow> Some (0, Some out))))"

section \<open>Notions used in the statements\<close>

text \<open>
  The XOR of a list of bytes, and the \<open>r\<close>-th slice of \<open>n\<close> bytes of a region.
\<close>

definition xor_bytes :: "byte list \<Rightarrow> byte" where
  "xor_bytes xs = foldr (XOR) xs 0"

definition slice :: "nat \<Rightarrow> nat \<Rightarrow> byte list \<Rightarrow> byte list" where
  "slice n r buf = take n (drop (r * n) buf)"

text \<open>
  For the bookkeeping: whether the descriptor at a position is an original (the test of
  \<open>Initialize\<close>), and the second loop without its early return.
\<close>

definition is_original :: "cm256_encoder_params \<Rightarrow> cm256_block list \<Rightarrow> nat \<Rightarrow> bool" where
  "is_original params blocks p \<longleftrightarrow> uint (Index (blocks ! p)) < sint (OriginalCount params)"

definition classify_step ::
  "cm256_encoder_params \<Rightarrow> cm256_block list \<Rightarrow> CM256Decoder \<Rightarrow> nat \<Rightarrow> CM256Decoder" where
  "classify_step params blocks decoder ii =
     (if is_original params blocks ii then
        decoder\<lparr>Original := (Original decoder)[OriginalCount' decoder := ii],
                OriginalCount' := OriginalCount' decoder + 1,
                ErasuresIndices := (ErasuresIndices decoder)[unat (Index (blocks ! ii)) := 1]\<rparr>
      else
        decoder\<lparr>Recovery := (Recovery decoder)[RecoveryCount' decoder := ii],
                RecoveryCount' := RecoveryCount' decoder + 1\<rparr>)"

text \<open>
  Concrete uninitialised memory for the evaluated scenarios: a decoder state and a working
  memory whose bytes all hold \<open>v\<close>.
\<close>

definition uninit_decoder :: "byte \<Rightarrow> CM256Decoder" where
  "uninit_decoder v =
     \<lparr>Params = \<lparr>BlockBytes = 0, OriginalCount = 0, RecoveryCount = 0\<rparr>,
      Recovery = replicate 256 0, RecoveryCount' = 0,
      Original = replicate 256 0, OriginalCount' = 0,
      ErasuresIndices = replicate 256 v\<rparr>"

definition uninit_scratch :: "byte \<Rightarrow> decode_scratch" where
  "uninit_scratch v =
     \<lparr>stackMatrix = replicate 2048 v, dynamicMatrix = [],
      g_local = replicate 256 v, b_local = replicate 256 v, rotated_local = replicate 256 v\<rparr>"

text \<open>
  For the field laws of the collaborator's arithmetic: maps that respect XOR, the powers of
  \<open>x\<close>, and the walk along the cycle of \<open>gf256_xtime\<close> that starts at 1.
\<close>

definition xor_linear :: "(byte \<Rightarrow> byte) \<Rightarrow> bool" where
  "xor_linear f \<longleftrightarrow> (\<forall>a b. f (a XOR b) = f a XOR f b)"

definition gf256_pow2 :: "nat \<Rightarrow> byte" where
  "gf256_pow2 n = (gf256_xtime ^^ n) 1"

fun xtime_iter :: "nat \<Rightarrow> byte \<Rightarrow> byte" where
  "xtime_iter 0 a = a"
| "xtime_iter (Suc n) a = xtime_iter n (gf256_xtime a)"

fun xtime_no_return :: "nat \<Rightarrow> byte \<Rightarrow> bool" where
  "xtime_no_return 0 a = True"
| "xtime_no_return (Suc n) a = (a \<noteq> 1 \<and> xtime_no_return n (gf256_xtime a))"

text \<open>
  For the factorisation: the coordinates \<open>x_i\<close> of the recovery rows, \<open>y_j\<close> of the
  erased columns and the normaliser \<open>x_0\<close> as the code reads them; the values that the
  generators \<open>g[j]\<close> and \<open>b[j]\<close> hold after \<open>k\<close> updates; the entries that the code
  stores, written with the collaborator's operations in the order of the code; and the
  places of the entries in the packed triangles.
\<close>

definition rec_x :: "CM256Decoder \<Rightarrow> cm256_block list \<Rightarrow> nat \<Rightarrow> byte" where
  "rec_x decoder blocks i = Index (blocks ! (Recovery decoder ! i))"

definition era_y :: "CM256Decoder \<Rightarrow> nat \<Rightarrow> byte" where
  "era_y decoder j = ErasuresIndices decoder ! j"

definition norm_x0 :: "CM256Decoder \<Rightarrow> byte" where
  "norm_x0 decoder = ucast (OriginalCount (Params decoder))"

fun gen_g_val :: "(nat \<Rightarrow> byte) \<Rightarrow> (nat \<Rightarrow> byte) \<Rightarrow> nat \<Rightarrow> nat \<Rightarrow> byte" where
  "gen_g_val xs ys 0 j = 1"
| "gen_g_val xs ys (Suc k) j =
     gf256_mul (gen_g_val xs ys k j)
       (gf256_div (gf256_add (xs j) (xs k)) (gf256_add (xs j) (ys k)))"

fun gen_b_val :: "(nat \<Rightarrow> byte) \<Rightarrow> (nat \<Rightarrow> byte) \<Rightarrow> nat \<Rightarrow> nat \<Rightarrow> byte" where
  "gen_b_val xs ys 0 j = 1"
| "gen_b_val xs ys (Suc k) j =
     gf256_mul (gen_b_val xs ys k j)
       (gf256_div (gf256_add (ys j) (ys k)) (gf256_add (ys j) (xs k)))"

definition raw_L :: "(nat \<Rightarrow> byte) \<Rightarrow> (nat \<Rightarrow> byte) \<Rightarrow> nat \<Rightarrow> nat \<Rightarrow> byte" where
  "raw_L xs ys k j = gf256_div (gen_g_val xs ys k j) (gf256_add (xs j) (ys k))"

definition raw_U :: "(nat \<Rightarrow> byte) \<Rightarrow> (nat \<Rightarrow> byte) \<Rightarrow> nat \<Rightarrow> nat \<Rightarrow> byte" where
  "raw_U xs ys k j = gf256_div (gen_b_val xs ys k j) (gf256_add (xs k) (ys j))"

definition piv_L :: "(nat \<Rightarrow> byte) \<Rightarrow> (nat \<Rightarrow> byte) \<Rightarrow> nat \<Rightarrow> byte" where
  "piv_L xs ys k = gf256_div (gen_g_val xs ys k k) (gf256_add (xs k) (ys k))"

definition piv_U :: "(nat \<Rightarrow> byte) \<Rightarrow> (nat \<Rightarrow> byte) \<Rightarrow> byte \<Rightarrow> nat \<Rightarrow> byte" where
  "piv_U xs ys x0 k =
     gf256_mul (gf256_div (gen_b_val xs ys k k) (gf256_add (xs k) (ys k))) (gf256_add x0 (ys k))"

definition val_L :: "(nat \<Rightarrow> byte) \<Rightarrow> (nat \<Rightarrow> byte) \<Rightarrow> nat \<Rightarrow> nat \<Rightarrow> byte" where
  "val_L xs ys j k = gf256_div (raw_L xs ys k j) (piv_L xs ys k)"

definition val_U0 :: "(nat \<Rightarrow> byte) \<Rightarrow> (nat \<Rightarrow> byte) \<Rightarrow> byte \<Rightarrow> nat \<Rightarrow> nat \<Rightarrow> byte" where
  "val_U0 xs ys x0 k j = gf256_div (raw_U xs ys k j) (piv_U xs ys x0 k)"

definition val_U :: "(nat \<Rightarrow> byte) \<Rightarrow> (nat \<Rightarrow> byte) \<Rightarrow> byte \<Rightarrow> nat \<Rightarrow> nat \<Rightarrow> byte" where
  "val_U xs ys x0 k j = gf256_mul (gf256_add x0 (ys j)) (val_U0 xs ys x0 k j)"

definition val_D :: "(nat \<Rightarrow> byte) \<Rightarrow> (nat \<Rightarrow> byte) \<Rightarrow> byte \<Rightarrow> nat \<Rightarrow> nat \<Rightarrow> byte" where
  "val_D xs ys x0 N k =
     (if k + 1 < N then
        gf256_mul (gf256_add (xs k) (ys k)) (gf256_mul (piv_L xs ys k) (piv_U xs ys x0 k))
      else
        gf256_div
          (gf256_mul (gen_g_val xs ys k k) (gf256_mul (gen_b_val xs ys k k) (gf256_add x0 (ys k))))
          (gf256_add (xs k) (ys k)))"

text \<open>
  The triangular numbers; the start of column \<open>k\<close> of L in \<open>matrix_L\<close> (columns one after
  the other, each from the top); the place of \<open>L[j][k]\<close>; and the place of \<open>U[k][j]\<close> in
  \<open>matrix_U\<close> (columns from the last to the second, each from the bottom).
\<close>

fun tri :: "nat \<Rightarrow> nat" where
  "tri 0 = 0"
| "tri (Suc n) = tri n + Suc n"

fun L_col :: "nat \<Rightarrow> nat \<Rightarrow> nat" where
  "L_col N 0 = 0"
| "L_col N (Suc k) = L_col N k + (N - 1 - k)"

definition L_index :: "nat \<Rightarrow> nat \<Rightarrow> nat \<Rightarrow> nat" where
  "L_index N j k = L_col N k + (j - k - 1)"

definition U_index :: "nat \<Rightarrow> nat \<Rightarrow> nat \<Rightarrow> nat" where
  "U_index N k j = tri (N - 1) - tri j + (j - 1 - k)"

text \<open>The factors as \<open>Decode\<close> reads them off the matrix memory it laid out.\<close>

definition ldu_L :: "byte list \<Rightarrow> nat \<Rightarrow> nat \<Rightarrow> nat \<Rightarrow> byte" where
  "ldu_L matrix N i c =
     (if c < i then matrix ! (((N - 1) * N) div 2 + N + L_index N i c)
      else if c = i then 1 else 0)"

definition ldu_D :: "byte list \<Rightarrow> nat \<Rightarrow> nat \<Rightarrow> byte" where
  "ldu_D matrix N c = matrix ! (((N - 1) * N) div 2 + c)"

definition ldu_U :: "byte list \<Rightarrow> nat \<Rightarrow> nat \<Rightarrow> nat \<Rightarrow> byte" where
  "ldu_U matrix N c j =
     (if c < j then matrix ! (U_index N c j) else if c = j then 1 else 0)"

text \<open>
  The state of the factorisation after \<open>K\<close> pivot steps: the generators are updated up to
  \<open>K\<close>, the pointers stand at the start of column \<open>K\<close>, and the columns of L, the rows of
  U (not yet multiplied by the diagonal) and the diagonal entries before \<open>K\<close> are in place.
\<close>

definition ldu_inv ::
  "CM256Decoder \<Rightarrow> cm256_block list \<Rightarrow> nat \<Rightarrow> nat \<Rightarrow> nat \<Rightarrow> ldu_state \<Rightarrow> bool" where
  "ldu_inv d bl N Lm K s \<longleftrightarrow>
     length (matrix_mem s) = Lm \<and> N \<le> length (gen_g s) \<and> N \<le> length (gen_b s) \<and>
     N \<le> length (rotated_row_U s) \<and>
     matrix_L s = tri (N - 1) + N + L_col N K \<and>
     firstOffset_U s = - int (tri K + K) \<and>
     (\<forall>j<N. gen_g s ! j = gen_g_val (rec_x d bl) (era_y d) (min j K) j) \<and>
     (\<forall>j<N. gen_b s ! j = gen_b_val (rec_x d bl) (era_y d) (min j K) j) \<and>
     (\<forall>k j. k < K \<and> k < j \<and> j < N \<longrightarrow>
        matrix_mem s ! (tri (N - 1) + N + L_index N j k) = val_L (rec_x d bl) (era_y d) j k) \<and>
     (\<forall>k j. k < K \<and> k < j \<and> j < N \<longrightarrow>
        matrix_mem s ! (U_index N k j) = val_U0 (rec_x d bl) (era_y d) (norm_x0 d) k j) \<and>
     (\<forall>k<K. matrix_mem s ! (tri (N - 1) + k) = val_D (rec_x d bl) (era_y d) (norm_x0 d) N k)"

text \<open>
  The entry \<open>(i, j)\<close> of the product \<open>L \<cdot> D \<cdot> U\<close> of the stored factors, as a sum in
  GF(256) over the inner index.
\<close>

definition ldu_term :: "byte list \<Rightarrow> nat \<Rightarrow> nat \<Rightarrow> nat \<Rightarrow> nat \<Rightarrow> byte" where
  "ldu_term matrix N i j c =
     gf256_mul (gf256_mul (ldu_L matrix N i c) (ldu_D matrix N c)) (ldu_U matrix N c j)"

definition ldu_product :: "byte list \<Rightarrow> nat \<Rightarrow> nat \<Rightarrow> nat \<Rightarrow> byte" where
  "ldu_product matrix N i j = xor_bytes (map (ldu_term matrix N i j) [0..<N])"

text \<open>
  For the round trip. The buffer of the \<open>i\<close>-th recovery row of the decoder; the places
  of the recovery rows are in range and pairwise distinct; a later state of the blocks
  differs from the blocks supplied only in the descriptors of recovery rows, whose buffers
  keep \<open>n\<close> bytes; and the places of the surviving originals are in range, are no
  recovery row, and hold \<open>n\<close> bytes.
\<close>

definition rec_row :: "CM256Decoder \<Rightarrow> cm256_block list \<Rightarrow> nat \<Rightarrow> byte list" where
  "rec_row d bl i = Block (bl ! (Recovery d ! i))"

definition rec_places_ok :: "CM256Decoder \<Rightarrow> nat \<Rightarrow> bool" where
  "rec_places_ok d len \<longleftrightarrow>
     (\<forall>i<RecoveryCount' d. Recovery d ! i < len) \<and>
     (\<forall>i<RecoveryCount' d. \<forall>j<RecoveryCount' d. i \<noteq> j \<longrightarrow> Recovery d ! i \<noteq> Recovery d ! j)"

definition rows_frame :: "CM256Decoder \<Rightarrow> nat \<Rightarrow> cm256_block list \<Rightarrow> cm256_block list \<Rightarrow> bool" where
  "rows_frame d n bl0 bl \<longleftrightarrow>
     length bl = length bl0 \<and>
     (\<forall>p<length bl0. (\<forall>i<RecoveryCount' d. p \<noteq> Recovery d ! i) \<longrightarrow> bl ! p = bl0 ! p) \<and>
     (\<forall>i<RecoveryCount' d. length (rec_row d bl i) = n)"

definition orig_places_ok :: "CM256Decoder \<Rightarrow> cm256_block list \<Rightarrow> nat \<Rightarrow> bool" where
  "orig_places_ok d bl0 n \<longleftrightarrow>
     (\<forall>oi<OriginalCount' d. Original d ! oi < length bl0 \<and>
        (\<forall>i<RecoveryCount' d. Original d ! oi \<noteq> Recovery d ! i) \<and>
        length (Block (bl0 ! (Original d ! oi))) = n)"

text \<open>
  The shard of an index: the original of that index when it is below \<open>OriginalCount\<close>,
  else the slice of the encoder's output region for the recovery row
  \<open>index - OriginalCount\<close>.
\<close>

definition shard_of ::
  "cm256_encoder_params \<Rightarrow> cm256_block list \<Rightarrow> byte list \<Rightarrow> byte \<Rightarrow> byte list" where
  "shard_of params originals out idx =
     (if unat idx < nat (sint (OriginalCount params)) then Block (originals ! unat idx)
      else slice (nat (sint (BlockBytes params)))
             (unat idx - nat (sint (OriginalCount params))) out)"

section \<open>The bulk operations, byte by byte\<close>

lemma length_memcpy [simp]: "length (memcpy dst src n) = length dst"
  by (induction dst src n rule: memcpy.induct) auto
lemma length_gf256_add_mem [simp]: "length (gf256_add_mem dst src n) = length dst"
  by (induction dst src n rule: gf256_add_mem.induct) auto
lemma length_gf256_add2_mem [simp]: "length (gf256_add2_mem dst a b n) = length dst"
  by (induction dst a b n rule: gf256_add2_mem.induct) auto
lemma length_gf256_addset_mem [simp]: "length (gf256_addset_mem dst a b n) = length dst"
  by (induction dst a b n rule: gf256_addset_mem.induct) auto
lemma length_gf256_mul_mem [simp]: "length (gf256_mul_mem dst src c n) = length dst"
  by (induction dst src c n rule: gf256_mul_mem.induct) auto
lemma length_gf256_muladd_mem [simp]: "length (gf256_muladd_mem dst c src n) = length dst"
  by (induction dst c src n rule: gf256_muladd_mem.induct) auto
lemma length_gf256_div_mem [simp]: "length (gf256_div_mem dst src c n) = length dst"
  by (induction dst src c n rule: gf256_div_mem.induct) auto

lemma nth_memcpy:
  "n \<le> length dst \<Longrightarrow> n \<le> length src \<Longrightarrow> i < length dst \<Longrightarrow>
   memcpy dst src n ! i = (if i < n then src ! i else dst ! i)"
  by (induction dst src n arbitrary: i rule: memcpy.induct) (auto simp: nth_Cons')

lemma nth_gf256_add_mem:
  "n \<le> length dst \<Longrightarrow> n \<le> length src \<Longrightarrow> i < length dst \<Longrightarrow>
   gf256_add_mem dst src n ! i = (if i < n then dst ! i XOR src ! i else dst ! i)"
  by (induction dst src n arbitrary: i rule: gf256_add_mem.induct) (auto simp: nth_Cons')

lemma nth_gf256_add2_mem:
  "n \<le> length dst \<Longrightarrow> n \<le> length a \<Longrightarrow> n \<le> length b \<Longrightarrow> i < length dst \<Longrightarrow>
   gf256_add2_mem dst a b n ! i = (if i < n then dst ! i XOR (a ! i XOR b ! i) else dst ! i)"
  by (induction dst a b n arbitrary: i rule: gf256_add2_mem.induct) (auto simp: nth_Cons')

lemma nth_gf256_addset_mem:
  "n \<le> length dst \<Longrightarrow> n \<le> length a \<Longrightarrow> n \<le> length b \<Longrightarrow> i < length dst \<Longrightarrow>
   gf256_addset_mem dst a b n ! i = (if i < n then a ! i XOR b ! i else dst ! i)"
  by (induction dst a b n arbitrary: i rule: gf256_addset_mem.induct) (auto simp: nth_Cons')

lemma nth_gf256_mul_mem:
  "n \<le> length dst \<Longrightarrow> n \<le> length src \<Longrightarrow> i < length dst \<Longrightarrow>
   gf256_mul_mem dst src c n ! i = (if i < n then gf256_mul c (src ! i) else dst ! i)"
  by (induction dst src c n arbitrary: i rule: gf256_mul_mem.induct) (auto simp: nth_Cons')

lemma nth_gf256_muladd_mem:
  "n \<le> length dst \<Longrightarrow> n \<le> length src \<Longrightarrow> i < length dst \<Longrightarrow>
   gf256_muladd_mem dst c src n ! i = (if i < n then dst ! i XOR gf256_mul c (src ! i) else dst ! i)"
  by (induction dst c src n arbitrary: i rule: gf256_muladd_mem.induct) (auto simp: nth_Cons')

lemma nth_gf256_div_mem:
  "n \<le> length dst \<Longrightarrow> n \<le> length src \<Longrightarrow> i < length dst \<Longrightarrow>
   gf256_div_mem dst src c n ! i = (if i < n then gf256_div (src ! i) c else dst ! i)"
  by (induction dst src c n arbitrary: i rule: gf256_div_mem.induct) (auto simp: nth_Cons')

section \<open>Encoder\<close>

lemma xor_bytes_simps [simp]: "xor_bytes [] = 0" "xor_bytes (x # xs) = x XOR xor_bytes xs"
  by (simp_all add: xor_bytes_def)

lemma xor_bytes_append: "xor_bytes (xs @ ys) = xor_bytes xs XOR xor_bytes ys"
  by (induction xs) (simp_all add: ac_simps)

lemma drop_memcpy [simp]: "drop n (memcpy dst src n) = drop n dst"
  by (induction dst src n rule: memcpy.induct) auto
lemma drop_gf256_add_mem [simp]: "drop n (gf256_add_mem dst src n) = drop n dst"
  by (induction dst src n rule: gf256_add_mem.induct) auto
lemma drop_gf256_add2_mem [simp]: "drop n (gf256_add2_mem dst a b n) = drop n dst"
  by (induction dst a b n rule: gf256_add2_mem.induct) auto
lemma drop_gf256_addset_mem [simp]: "drop n (gf256_addset_mem dst a b n) = drop n dst"
  by (induction dst a b n rule: gf256_addset_mem.induct) auto
lemma drop_gf256_mul_mem [simp]: "drop n (gf256_mul_mem dst src c n) = drop n dst"
  by (induction dst src c n rule: gf256_mul_mem.induct) auto
lemma drop_gf256_muladd_mem [simp]: "drop n (gf256_muladd_mem dst c src n) = drop n dst"
  by (induction dst c src n rule: gf256_muladd_mem.induct) auto
lemma drop_gf256_div_mem [simp]: "drop n (gf256_div_mem dst src c n) = drop n dst"
  by (induction dst src c n rule: gf256_div_mem.induct) auto

lemma length_parity_loop [simp]:
  "length (foldl (encode_parity_step os n) d js) = length d"
  by (induction js arbitrary: d) (simp_all add: encode_parity_step_def)

lemma length_row_loop [simp]:
  "length (foldl (encode_row_step os n x_i x_0) d js) = length d"
  by (induction js arbitrary: d) (simp_all add: encode_row_step_def)

lemma drop_parity_loop [simp]:
  "drop n (foldl (encode_parity_step os n) d js) = drop n d"
  by (induction js arbitrary: d) (simp_all add: encode_parity_step_def)

lemma drop_row_loop [simp]:
  "drop n (foldl (encode_row_step os n x_i x_0) d js) = drop n d"
  by (induction js arbitrary: d) (simp_all add: encode_row_step_def)

lemma length_cm256_encode_block [simp]:
  "length (cm256_encode_block params os idx rb) = length rb"
  by (simp add: cm256_encode_block_def)

lemma drop_cm256_encode_block [simp]:
  "drop (nat (sint (BlockBytes params))) (cm256_encode_block params os idx rb) =
   drop (nat (sint (BlockBytes params))) rb"
  by (simp add: cm256_encode_block_def)

lemma length_cm256_encode_step [simp]:
  "length (cm256_encode_step params os rb block) = length rb"
  by (simp add: cm256_encode_step_def)

lemma length_cm256_encode_loop [simp]:
  "length (foldl (cm256_encode_step params os) rb js) = length rb"
  by (induction js arbitrary: rb) simp_all

lemma encode_loop_invariant:
  assumes "n = nat (sint (BlockBytes params))"
  shows "length (foldl (cm256_encode_step params os) rb [0..<j]) = length rb \<and>
         drop (j * n) (foldl (cm256_encode_step params os) rb [0..<j]) = drop (j * n) rb \<and>
         (\<forall>r<j. slice n r (foldl (cm256_encode_step params os) rb [0..<j]) =
                take n (cm256_encode_block params os (OriginalCount params + of_nat r)
                          (drop (r * n) rb)))"
proof (induction j)
  case 0
  show ?case by simp
next
  case (Suc j)
  let ?buf = "foldl (cm256_encode_step params os) rb [0..<j]"
  let ?E = "cm256_encode_block params os (OriginalCount params + of_nat j) (drop (j * n) rb)"
  have len: "length ?buf = length rb" and dr: "drop (j * n) ?buf = drop (j * n) rb"
    and sl: "\<forall>r<j. slice n r ?buf =
                take n (cm256_encode_block params os (OriginalCount params + of_nat r)
                          (drop (r * n) rb))"
    using Suc.IH by auto
  have step: "foldl (cm256_encode_step params os) rb [0..<Suc j] = take (j * n) ?buf @ ?E"
    by (simp add: cm256_encode_step_def assms dr[unfolded assms])
  have lenE: "length ?E = length rb - j * n" by simp
  have dropE: "drop n ?E = drop n (drop (j * n) rb)"
    unfolding assms by (rule drop_cm256_encode_block)
  show ?case
  proof (intro conjI allI impI)
    show "length (foldl (cm256_encode_step params os) rb [0..<Suc j]) = length rb"
      by (simp add: len)
    show "drop (Suc j * n) (foldl (cm256_encode_step params os) rb [0..<Suc j]) = drop (Suc j * n) rb"
    proof (cases "j * n \<le> length rb")
      case True
      then have "length (take (j * n) ?buf) = j * n" by (simp add: len)
      then have "drop (Suc j * n) (take (j * n) ?buf @ ?E) = drop n ?E"
        by (simp add: add.commute)
      then show ?thesis by (simp only: step dropE) (simp add: add.commute)
    next
      case False
      then show ?thesis by simp
    qed
  next
    fix r assume r: "r < Suc j"
    show "slice n r (foldl (cm256_encode_step params os) rb [0..<Suc j]) =
          take n (cm256_encode_block params os (OriginalCount params + of_nat r) (drop (r * n) rb))"
    proof (cases "r = j")
      case True
      show ?thesis
      proof (cases "j * n \<le> length rb")
        case T2: True
        then have "length (take (j * n) ?buf) = j * n" by (simp add: len)
        then have "drop (j * n) (take (j * n) ?buf @ ?E) = ?E" by simp
        then show ?thesis by (simp only: step slice_def True)
      next
        case F2: False
        then have "length ?E = 0" by simp
        then have "?E = []" by (simp only: length_0_conv)
        then show ?thesis using F2 by (simp add: step slice_def True)
      qed
    next
      case False
      with r have rj: "r < j" by simp
      then have "r * n + n \<le> j * n"
        by (metis Suc_leI mult_Suc mult_le_mono1 add.commute)
      then have "slice n r (take (j * n) ?buf @ ?E) = slice n r ?buf"
        by (auto simp: slice_def len min_def take_drop intro!: nth_equalityI) 
      then show ?thesis using sl rj by (simp only: step)
    qed
  qed
qed

lemma sint_add_small:
  fixes a b :: cint
  assumes "0 \<le> sint a" "sint a \<le> 65536" "0 \<le> sint b" "sint b \<le> 65536"
  shows "sint (a + b) = sint a + sint b"
proof -
  have "signed_take_bit 31 (sint a + sint b) = sint a + sint b"
    using assms by (intro signed_take_bit_int_eq_self) auto
  then show ?thesis by (simp add: sint_word_add)
qed

lemma cm256_encode_valid:
  assumes "1 \<le> sint (OriginalCount params)" "1 \<le> sint (RecoveryCount params)"
    "1 \<le> sint (BlockBytes params)"
    "sint (OriginalCount params) + sint (RecoveryCount params) \<le> 256"
  shows "cm256_encode params (Some os) (Some rb) =
         (0, Some (foldl (cm256_encode_step params os) rb [0..<nat (sint (RecoveryCount params))]))"
proof -
  have "sint (OriginalCount params + RecoveryCount params) =
        sint (OriginalCount params) + sint (RecoveryCount params)"
    using assms by (intro sint_add_small) auto
  then show ?thesis using assms by (simp add: cm256_encode_def)
qed

lemma parity_loop_nth:
  assumes "j \<le> length os" "\<forall>i<j. n \<le> length (Block (os ! i))" "n \<le> length d" "t < n"
  shows "foldl (encode_parity_step os n) d [2..<j] ! t =
         d ! t XOR xor_bytes (map (\<lambda>i. Block (os ! i) ! t) [2..<j])"
  using assms
proof (induction j)
  case 0
  then show ?case by simp
next
  case (Suc j)
  show ?case
  proof (cases "2 \<le> j")
    case True
    have IH: "foldl (encode_parity_step os n) d [2..<j] ! t =
              d ! t XOR xor_bytes (map (\<lambda>i. Block (os ! i) ! t) [2..<j])"
      using Suc by simp
    let ?d = "foldl (encode_parity_step os n) d [2..<j]"
    have lj: "n \<le> length (Block (os ! j))" using Suc.prems by simp
    have "foldl (encode_parity_step os n) d [2..<Suc j] = encode_parity_step os n ?d j"
      using True by simp
    also have "\<dots> = gf256_add_mem ?d (Block (os ! j)) n"
      by (simp only: encode_parity_step_def)
    finally have "foldl (encode_parity_step os n) d [2..<Suc j] ! t = ?d ! t XOR Block (os ! j) ! t"
      using lj Suc.prems by (simp add: nth_gf256_add_mem)
    then show ?thesis using True
      by (simp only: IH) (simp add: xor_bytes_append ac_simps)
  next
    case False
    then show ?thesis by simp
  qed
qed

lemma encode_block_parity_nth:
  assumes k: "2 \<le> sint (OriginalCount params)" "length os = nat (sint (OriginalCount params))"
    and len: "\<forall>i<length os. length (Block (os ! i)) = nat (sint (BlockBytes params))"
    and d: "nat (sint (BlockBytes params)) \<le> length d" and t: "t < nat (sint (BlockBytes params))"
  shows "cm256_encode_block params os (OriginalCount params) d ! t =
         xor_bytes (map (\<lambda>blk. Block blk ! t) os)"
proof -
  let ?k = "nat (sint (OriginalCount params))" and ?n = "nat (sint (BlockBytes params))"
  have k2: "2 \<le> ?k" using k by simp
  have ne1: "OriginalCount params \<noteq> 1" using k by auto
  have upt: "[0..<?k] = 0 # 1 # [2..<?k]"
    using k2 by (metis One_nat_def Suc_1 Suc_le_lessD less_eq_Suc_le upt_conv_Cons zero_less_Suc order_less_le_trans)
  have "map (\<lambda>blk. Block blk ! t) os = map (\<lambda>i. Block (os ! i) ! t) [0..<?k]"
    using k(2) by (intro nth_equalityI) auto
  then have rhs: "xor_bytes (map (\<lambda>blk. Block blk ! t) os) =
      Block (os ! 0) ! t XOR (Block (os ! 1) ! t XOR xor_bytes (map (\<lambda>i. Block (os ! i) ! t) [2..<?k]))"
    by (simp add: upt)
  have l0: "?n \<le> length (Block (os ! 0))" and l1: "?n \<le> length (Block (os ! 1))"
    using len k2 k(2) by auto
  have "foldl (encode_parity_step os ?n)
          (gf256_addset_mem d (Block (os ! 0)) (Block (os ! 1)) ?n) [2..<?k] ! t =
        gf256_addset_mem d (Block (os ! 0)) (Block (os ! 1)) ?n ! t XOR
        xor_bytes (map (\<lambda>i. Block (os ! i) ! t) [2..<?k])"
    using k(2) len d t by (intro parity_loop_nth) auto
  then show ?thesis using ne1 l0 l1 d t
    by (simp add: cm256_encode_block_def nth_gf256_addset_mem rhs ac_simps)
qed

subsection \<open>The parity row and the degenerate code\<close>

text \<open>
  Claim C3. For valid parameters with at least two originals, \<open>cm256_encode\<close> succeeds
  and the first \<open>BlockBytes\<close> bytes of the output region (the recovery shard of wire
  index \<open>OriginalCount\<close>) are, byte by byte, the XOR of all the original shards. The
  witness is scenario S1 of the spec: four originals of eight bytes \<open>0x01\<close>,
  \<open>0x02\<close>, \<open>0x04\<close>, \<open>0x08\<close> give eight bytes \<open>0x0F\<close>.
\<close>

theorem first_recovery_is_parity:
  assumes "2 \<le> sint (OriginalCount params)" "1 \<le> sint (RecoveryCount params)"
    and "1 \<le> sint (BlockBytes params)"
    and "sint (OriginalCount params) + sint (RecoveryCount params) \<le> 256"
    and "length originals = nat (sint (OriginalCount params))"
    and "\<forall>i<length originals. length (Block (originals ! i)) = nat (sint (BlockBytes params))"
    and "length recoveryBlocks = nat (sint (RecoveryCount params)) * nat (sint (BlockBytes params))"
  shows "\<exists>out. cm256_encode params (Some originals) (Some recoveryBlocks) = (0, Some out) \<and>
           length out = length recoveryBlocks \<and>
           (\<forall>t<nat (sint (BlockBytes params)).
              out ! t = xor_bytes (map (\<lambda>blk. Block blk ! t) originals))"
proof -
  let ?n = "nat (sint (BlockBytes params))" and ?m = "nat (sint (RecoveryCount params))"
  let ?out = "foldl (cm256_encode_step params originals) recoveryBlocks [0..<?m]"
  have enc: "cm256_encode params (Some originals) (Some recoveryBlocks) = (0, Some ?out)"
    using assms by (intro cm256_encode_valid) auto
  have m0: "0 < ?m" using assms(2) by simp
  have "1 * ?n \<le> ?m * ?n" using m0 by (intro mult_le_mono1) simp
  then have nle: "?n \<le> length recoveryBlocks"
    using assms(7) by simp
  have sl: "slice ?n 0 ?out =
      take ?n (cm256_encode_block params originals (OriginalCount params + of_nat 0)
                 (drop (0 * ?n) recoveryBlocks))"
    using encode_loop_invariant[of ?n params originals recoveryBlocks ?m] m0 by blast
  have "\<forall>t<?n. ?out ! t = xor_bytes (map (\<lambda>blk. Block blk ! t) originals)"
  proof (intro allI impI)
    fix t assume t: "t < ?n"
    have "?out ! t = slice ?n 0 ?out ! t" using t by (simp add: slice_def)
    also have "\<dots> = cm256_encode_block params originals (OriginalCount params) recoveryBlocks ! t"
      using t by (simp add: sl)
    also have "\<dots> = xor_bytes (map (\<lambda>blk. Block blk ! t) originals)"
      using assms nle t by (intro encode_block_parity_nth) auto
    finally show "?out ! t = xor_bytes (map (\<lambda>blk. Block blk ! t) originals)" .
  qed
  then show ?thesis using enc by simp
qed

theorem first_recovery_is_parity_witness:
  "cm256_encode \<lparr>BlockBytes = 8, OriginalCount = 4, RecoveryCount = 1\<rparr>
     (Some [\<lparr>Block = replicate 8 0x01, Index = 0\<rparr>, \<lparr>Block = replicate 8 0x02, Index = 1\<rparr>,
            \<lparr>Block = replicate 8 0x04, Index = 2\<rparr>, \<lparr>Block = replicate 8 0x08, Index = 3\<rparr>])
     (Some (replicate 8 0)) = (0, Some (replicate 8 0x0F))"
proof -
  let ?p = "\<lparr>BlockBytes = 8, OriginalCount = 4, RecoveryCount = 1\<rparr> :: cm256_encoder_params"
  let ?os = "[\<lparr>Block = replicate 8 0x01, Index = 0\<rparr>, \<lparr>Block = replicate 8 0x02, Index = 1\<rparr>,
            \<lparr>Block = replicate 8 0x04, Index = 2\<rparr>, \<lparr>Block = replicate 8 0x08, Index = 3\<rparr>] :: cm256_block list"
  have len: "\<forall>i<length ?os. length (Block (?os ! i)) = nat (sint (BlockBytes ?p))"
    by (simp add: nth_Cons' )
  obtain out where enc: "cm256_encode ?p (Some ?os) (Some (replicate 8 0)) = (0, Some out)"
    and lo: "length out = 8"
    and nth: "\<forall>t<nat (sint (BlockBytes ?p)). out ! t = xor_bytes (map (\<lambda>blk. Block blk ! t) ?os)"
    using first_recovery_is_parity[of ?p ?os "replicate 8 0", OF _ _ _ _ _ len] by auto
  have "out = replicate 8 0x0F"
  proof (rule nth_equalityI)
    show "length out = length (replicate 8 (0x0F::byte))" using lo by simp
  next
    fix i assume "i < length out"
    then have i: "i < 8" using lo by simp
    then have "out ! i = xor_bytes (map (\<lambda>blk. Block blk ! i) ?os)" using nth by simp
    also have "\<dots> = 0x0F" using i by simp
    finally show "out ! i = replicate 8 (0x0F::byte) ! i" using i by simp
  qed
  then show ?thesis using enc by simp
qed

text \<open>
  Claim C4. With a single original, \<open>cm256_encode\<close> copies that shard into every one
  of the \<open>RecoveryCount\<close> slices of the output region. The witness is scenario S2 of
  the spec.
\<close>

theorem single_original_is_copied:
  assumes "OriginalCount params = 1" "1 \<le> sint (RecoveryCount params)"
    and "1 \<le> sint (BlockBytes params)" "sint (RecoveryCount params) \<le> 255"
    and "length originals = 1"
    and "length (Block (originals ! 0)) = nat (sint (BlockBytes params))"
    and "length recoveryBlocks = nat (sint (RecoveryCount params)) * nat (sint (BlockBytes params))"
  shows "\<exists>out. cm256_encode params (Some originals) (Some recoveryBlocks) = (0, Some out) \<and>
           length out = length recoveryBlocks \<and>
           (\<forall>r<nat (sint (RecoveryCount params)).
              slice (nat (sint (BlockBytes params))) r out = Block (originals ! 0))"
proof -
  let ?n = "nat (sint (BlockBytes params))" and ?m = "nat (sint (RecoveryCount params))"
  let ?out = "foldl (cm256_encode_step params originals) recoveryBlocks [0..<?m]"
  have enc: "cm256_encode params (Some originals) (Some recoveryBlocks) = (0, Some ?out)"
    using assms by (intro cm256_encode_valid) auto
  have "\<forall>r<?m. slice ?n r ?out = Block (originals ! 0)"
  proof (intro allI impI)
    fix r assume r: "r < ?m"
    have "Suc r * ?n \<le> ?m * ?n" using r by (intro mult_le_mono1) simp
    then have "r * ?n + ?n \<le> length recoveryBlocks" using assms(7) by simp
    then have ln: "?n \<le> length (drop (r * ?n) recoveryBlocks)"
      by simp
    have "slice ?n r ?out =
      take ?n (cm256_encode_block params originals (OriginalCount params + of_nat r)
                 (drop (r * ?n) recoveryBlocks))"
      using encode_loop_invariant[of ?n params originals recoveryBlocks ?m] r by blast
    also have "\<dots> = take ?n (memcpy (drop (r * ?n) recoveryBlocks) (Block (originals ! 0)) ?n)"
      using assms(1) by (simp add: cm256_encode_block_def)
    also have "\<dots> = Block (originals ! 0)"
      using ln assms(6) by (intro nth_equalityI) (simp_all add: nth_memcpy)
    finally show "slice ?n r ?out = Block (originals ! 0)" .
  qed
  then show ?thesis using enc by simp
qed

theorem single_original_is_copied_witness:
  "\<exists>out. cm256_encode \<lparr>BlockBytes = 16, OriginalCount = 1, RecoveryCount = 3\<rparr>
     (Some [\<lparr>Block = replicate 16 0xAA, Index = 0\<rparr>]) (Some (replicate 48 0)) = (0, Some out) \<and>
     slice 16 0 out = replicate 16 0xAA \<and> slice 16 1 out = replicate 16 0xAA \<and>
     slice 16 2 out = replicate 16 0xAA"
proof -
  let ?p = "\<lparr>BlockBytes = 16, OriginalCount = 1, RecoveryCount = 3\<rparr> :: cm256_encoder_params"
  let ?os = "[\<lparr>Block = replicate 16 0xAA, Index = 0\<rparr>] :: cm256_block list"
  obtain out where enc: "cm256_encode ?p (Some ?os) (Some (replicate 48 0)) = (0, Some out)"
    and sl: "\<forall>r<nat (sint (RecoveryCount ?p)). slice (nat (sint (BlockBytes ?p))) r out = Block (?os ! 0)"
    using single_original_is_copied[of ?p ?os "replicate 48 0"] by auto
  have "slice 16 0 out = replicate 16 0xAA" "slice 16 1 out = replicate 16 0xAA"
    "slice 16 2 out = replicate 16 0xAA"
    using sl[rule_format, of 0] sl[rule_format, of 1] sl[rule_format, of 2] by simp_all
  then show ?thesis using enc by blast
qed

section \<open>Decoder bookkeeping\<close>

lemma zero_loop_fields [simp]:
  "Params (foldl Initialize_zero_step d is) = Params d"
  "Recovery (foldl Initialize_zero_step d is) = Recovery d"
  "Original (foldl Initialize_zero_step d is) = Original d"
  "RecoveryCount' (foldl Initialize_zero_step d is) = RecoveryCount' d"
  "OriginalCount' (foldl Initialize_zero_step d is) = OriginalCount' d"
  "length (ErasuresIndices (foldl Initialize_zero_step d is)) = length (ErasuresIndices d)"
  by (induction "is" arbitrary: d; simp add: Initialize_zero_step_def)+

lemma zero_loop_nth:
  "i < length (ErasuresIndices d) \<Longrightarrow>
   ErasuresIndices (foldl Initialize_zero_step d is) ! i =
     (if i \<in> set is then 0 else ErasuresIndices d ! i)"
  by (induction "is" arbitrary: d) (auto simp: Initialize_zero_step_def nth_list_update)

lemma classify_fields [simp]:
  "Params (foldl (classify_step params blocks) d ps) = Params d"
  "length (Recovery (foldl (classify_step params blocks) d ps)) = length (Recovery d)"
  "length (Original (foldl (classify_step params blocks) d ps)) = length (Original d)"
  "length (ErasuresIndices (foldl (classify_step params blocks) d ps)) = length (ErasuresIndices d)"
  "OriginalCount' (foldl (classify_step params blocks) d ps) =
     OriginalCount' d + length (filter (is_original params blocks) ps)"
  "RecoveryCount' (foldl (classify_step params blocks) d ps) =
     RecoveryCount' d + length (filter (\<lambda>p. \<not> is_original params blocks p) ps)"
  by (induction ps arbitrary: d; simp add: classify_step_def)+

lemma classify_Original:
  "OriginalCount' d + length (filter (is_original params blocks) ps) \<le> length (Original d) \<Longrightarrow>
   take (OriginalCount' d + length (filter (is_original params blocks) ps))
     (Original (foldl (classify_step params blocks) d ps)) =
   take (OriginalCount' d) (Original d) @ filter (is_original params blocks) ps"
proof (induction ps arbitrary: d)
  case Nil
  then show ?case by simp
next
  case (Cons h t)
  show ?case
  proof (cases "is_original params blocks h")
    case True
    let ?d1 = "classify_step params blocks d h"
    have oc: "OriginalCount' ?d1 = OriginalCount' d + 1"
      and orig: "Original ?d1 = (Original d)[OriginalCount' d := h]"
      using True by (simp_all add: classify_step_def)
    have lt: "OriginalCount' d < length (Original d)" using Cons.prems True by simp
    have "take (OriginalCount' ?d1 + length (filter (is_original params blocks) t))
            (Original (foldl (classify_step params blocks) ?d1 t)) =
          take (OriginalCount' ?d1) (Original ?d1) @ filter (is_original params blocks) t"
      using Cons.prems True by (intro Cons.IH) (simp add: oc orig)
    moreover have "take (OriginalCount' ?d1) (Original ?d1) = take (OriginalCount' d) (Original d) @ [h]"
      using lt by (simp add: oc orig take_Suc_conv_app_nth)
    ultimately show ?thesis using True by (simp add: oc)
  next
    case False
    let ?d1 = "classify_step params blocks d h"
    have oc: "OriginalCount' ?d1 = OriginalCount' d" and orig: "Original ?d1 = Original d"
      using False by (simp_all add: classify_step_def)
    have "take (OriginalCount' ?d1 + length (filter (is_original params blocks) t))
            (Original (foldl (classify_step params blocks) ?d1 t)) =
          take (OriginalCount' ?d1) (Original ?d1) @ filter (is_original params blocks) t"
      using Cons.prems False by (intro Cons.IH) (simp add: oc orig)
    then show ?thesis using False by (simp add: oc orig)
  qed
qed

lemma classify_Recovery:
  "RecoveryCount' d + length (filter (\<lambda>p. \<not> is_original params blocks p) ps) \<le> length (Recovery d) \<Longrightarrow>
   take (RecoveryCount' d + length (filter (\<lambda>p. \<not> is_original params blocks p) ps))
     (Recovery (foldl (classify_step params blocks) d ps)) =
   take (RecoveryCount' d) (Recovery d) @ filter (\<lambda>p. \<not> is_original params blocks p) ps"
proof (induction ps arbitrary: d)
  case Nil
  then show ?case by simp
next
  case (Cons h t)
  show ?case
  proof (cases "is_original params blocks h")
    case False
    let ?d1 = "classify_step params blocks d h"
    have rc: "RecoveryCount' ?d1 = RecoveryCount' d + 1"
      and rec: "Recovery ?d1 = (Recovery d)[RecoveryCount' d := h]"
      using False by (simp_all add: classify_step_def)
    have lt: "RecoveryCount' d < length (Recovery d)" using Cons.prems False by simp
    have "take (RecoveryCount' ?d1 + length (filter (\<lambda>p. \<not> is_original params blocks p) t))
            (Recovery (foldl (classify_step params blocks) ?d1 t)) =
          take (RecoveryCount' ?d1) (Recovery ?d1) @ filter (\<lambda>p. \<not> is_original params blocks p) t"
      using Cons.prems False by (intro Cons.IH) (simp add: rc rec)
    moreover have "take (RecoveryCount' ?d1) (Recovery ?d1) = take (RecoveryCount' d) (Recovery d) @ [h]"
      using lt by (simp add: rc rec take_Suc_conv_app_nth)
    ultimately show ?thesis using False by (simp add: rc)
  next
    case True
    let ?d1 = "classify_step params blocks d h"
    have rc: "RecoveryCount' ?d1 = RecoveryCount' d" and rec: "Recovery ?d1 = Recovery d"
      using True by (simp_all add: classify_step_def)
    have "take (RecoveryCount' ?d1 + length (filter (\<lambda>p. \<not> is_original params blocks p) t))
            (Recovery (foldl (classify_step params blocks) ?d1 t)) =
          take (RecoveryCount' ?d1) (Recovery ?d1) @ filter (\<lambda>p. \<not> is_original params blocks p) t"
      using Cons.prems True by (intro Cons.IH) (simp add: rc rec)
    then show ?thesis using True by (simp add: rc rec)
  qed
qed

lemma classify_Erasures:
  "r < length (ErasuresIndices d) \<Longrightarrow>
   ErasuresIndices (foldl (classify_step params blocks) d ps) ! r =
     (if r \<in> (\<lambda>p. unat (Index (blocks ! p))) ` set (filter (is_original params blocks) ps)
      then 1 else ErasuresIndices d ! r)"
  by (induction ps arbitrary: d) (auto simp: classify_step_def nth_list_update)

lemma Initialize_blocks_ok:
  assumes "\<forall>p\<in>set ps. is_original params blocks p \<longrightarrow>
             ErasuresIndices d ! unat (Index (blocks ! p)) = 0"
    and "distinct (map (\<lambda>p. Index (blocks ! p)) (filter (is_original params blocks) ps))"
    and "256 \<le> length (ErasuresIndices d)"
  shows "Initialize_blocks params blocks ps d =
         (0, Initialize_erasures [0..<256] 0 (foldl (classify_step params blocks) d ps))"
  using assms
proof (induction ps arbitrary: d)
  case Nil
  then show ?case by simp
next
  case (Cons h t)
  show ?case
  proof (cases "is_original params blocks h")
    case True
    let ?d1 = "classify_step params blocks d h"
    have E1: "ErasuresIndices ?d1 = (ErasuresIndices d)[unat (Index (blocks ! h)) := 1]"
      using True by (simp add: classify_step_def)
    have z: "ErasuresIndices d ! unat (Index (blocks ! h)) = 0" using Cons.prems True by simp
    have "\<forall>p\<in>set t. is_original params blocks p \<longrightarrow>
             ErasuresIndices ?d1 ! unat (Index (blocks ! p)) = 0"
    proof (intro ballI impI)
      fix p assume p: "p \<in> set t" "is_original params blocks p"
      then have "Index (blocks ! p) \<in> (\<lambda>x. Index (blocks ! x)) ` {x \<in> set t. is_original params blocks x}"
        by blast
      moreover have "Index (blocks ! h) \<notin> (\<lambda>x. Index (blocks ! x)) ` {x \<in> set t. is_original params blocks x}"
        using Cons.prems(2) True by simp
      ultimately have "Index (blocks ! p) \<noteq> Index (blocks ! h)" by metis
      then have "unat (Index (blocks ! p)) \<noteq> unat (Index (blocks ! h))" by (simp add: word_unat_eq_iff)
      then show "ErasuresIndices ?d1 ! unat (Index (blocks ! p)) = 0"
        using Cons.prems(1) p by (simp add: E1)
    qed
    moreover have "distinct (map (\<lambda>p. Index (blocks ! p)) (filter (is_original params blocks) t))"
      using Cons.prems(2) True by simp
    moreover have "256 \<le> length (ErasuresIndices ?d1)" using Cons.prems(3) by (simp add: E1)
    ultimately have "Initialize_blocks params blocks t ?d1 =
         (0, Initialize_erasures [0..<256] 0 (foldl (classify_step params blocks) ?d1 t))"
      by (rule Cons.IH)
    moreover have "Initialize_blocks params blocks (h # t) d = Initialize_blocks params blocks t ?d1"
    proof -
      have "?d1 = d\<lparr>Original := (Original d)[OriginalCount' d := h],
                OriginalCount' := OriginalCount' d + 1,
                ErasuresIndices := (ErasuresIndices d)[unat (Index (blocks ! h)) := 1]\<rparr>"
        using True by (simp add: classify_step_def)
      then show ?thesis using True z by (simp add: is_original_def)
    qed
    ultimately show ?thesis by simp
  next
    case False
    let ?d1 = "classify_step params blocks d h"
    have E1: "ErasuresIndices ?d1 = ErasuresIndices d"
      using False by (simp add: classify_step_def)
    have "Initialize_blocks params blocks t ?d1 =
         (0, Initialize_erasures [0..<256] 0 (foldl (classify_step params blocks) ?d1 t))"
      using Cons.prems False by (intro Cons.IH) (simp_all add: E1)
    moreover have "Initialize_blocks params blocks (h # t) d = Initialize_blocks params blocks t ?d1"
    proof -
      have "?d1 = d\<lparr>Recovery := (Recovery d)[RecoveryCount' d := h],
                RecoveryCount' := RecoveryCount' d + 1\<rparr>"
        using False by (simp add: classify_step_def)
      then show ?thesis using False by (simp add: is_original_def)
    qed
    ultimately show ?thesis by simp
  qed
qed

lemma Initialize_blocks_nonzero:
  "q \<in> set ps \<Longrightarrow> is_original params blocks q \<Longrightarrow>
   ErasuresIndices d ! unat (Index (blocks ! q)) \<noteq> 0 \<Longrightarrow>
   fst (Initialize_blocks params blocks ps d) = - 1"
proof (induction ps arbitrary: d)
  case Nil
  then show ?case by simp
next
  case (Cons h t)
  show ?case
  proof (cases "is_original params blocks h")
    case True
    show ?thesis
    proof (cases "ErasuresIndices d ! unat (Index (blocks ! h)) \<noteq> 0")
      case T2: True
      then show ?thesis using True by (simp add: is_original_def)
    next
      case False
      then have qt: "q \<in> set t" using Cons.prems by auto
      let ?d1 = "d\<lparr>Original := (Original d)[OriginalCount' d := h],
                OriginalCount' := OriginalCount' d + 1,
                ErasuresIndices := (ErasuresIndices d)[unat (Index (blocks ! h)) := 1]\<rparr>"
      have "ErasuresIndices ?d1 ! unat (Index (blocks ! q)) \<noteq> 0"
      proof (cases "unat (Index (blocks ! h)) < length (ErasuresIndices d)")
        case T3: True
        then show ?thesis using Cons.prems(3) by (simp add: nth_list_update)
      next
        case F3: False
        then show ?thesis using Cons.prems(3) by (simp add: list_update_beyond)
      qed
      then have "fst (Initialize_blocks params blocks t ?d1) = - 1"
        using qt Cons.prems(2) by (intro Cons.IH)
      then show ?thesis using True False by (simp add: is_original_def)
    qed
  next
    case False
    then have qt: "q \<in> set t" using Cons.prems by auto
    let ?d1 = "d\<lparr>Recovery := (Recovery d)[RecoveryCount' d := h],
                RecoveryCount' := RecoveryCount' d + 1\<rparr>"
    have "fst (Initialize_blocks params blocks t ?d1) = - 1"
      using qt Cons.prems by (intro Cons.IH) simp_all
    then show ?thesis using False by (simp add: is_original_def)
  qed
qed

lemma Initialize_blocks_duplicate:
  "distinct ps \<Longrightarrow> p \<in> set ps \<Longrightarrow> q \<in> set ps \<Longrightarrow> p \<noteq> q \<Longrightarrow>
   Index (blocks ! p) = Index (blocks ! q) \<Longrightarrow> is_original params blocks p \<Longrightarrow>
   256 \<le> length (ErasuresIndices d) \<Longrightarrow>
   fst (Initialize_blocks params blocks ps d) = - 1"
proof (induction ps arbitrary: d)
  case Nil
  then show ?case by simp
next
  case (Cons h t)
  have oq: "is_original params blocks q" using Cons.prems by (simp add: is_original_def)
  have lt: "unat (Index (blocks ! p)) < length (ErasuresIndices d)"
  proof -
    have "unat (Index (blocks ! p)) < 256" using unsigned_less[of "Index (blocks ! p)"] by simp
    then show ?thesis using Cons.prems by simp
  qed
  show ?case
  proof (cases "is_original params blocks h")
    case True
    show ?thesis
    proof (cases "ErasuresIndices d ! unat (Index (blocks ! h)) \<noteq> 0")
      case T2: True
      then show ?thesis using True by (simp add: is_original_def)
    next
      case False
      let ?d1 = "d\<lparr>Original := (Original d)[OriginalCount' d := h],
                OriginalCount' := OriginalCount' d + 1,
                ErasuresIndices := (ErasuresIndices d)[unat (Index (blocks ! h)) := 1]\<rparr>"
      have step: "Initialize_blocks params blocks (h # t) d = Initialize_blocks params blocks t ?d1"
        using True False by (simp add: is_original_def)
      have "fst (Initialize_blocks params blocks t ?d1) = - 1"
      proof (cases "h = p \<or> h = q")
        case T3: True
        then obtain r where r: "r \<in> set t" "is_original params blocks r"
            "Index (blocks ! r) = Index (blocks ! h)"
          using Cons.prems oq by auto
        have "ErasuresIndices ?d1 ! unat (Index (blocks ! r)) \<noteq> 0"
          using lt r T3 Cons.prems(5) by auto
        then show ?thesis using r by (intro Initialize_blocks_nonzero)
      next
        case F3: False
        then show ?thesis using Cons.prems by (intro Cons.IH) auto
      qed
      then show ?thesis by (simp only: step)
    qed
  next
    case False
    let ?d1 = "d\<lparr>Recovery := (Recovery d)[RecoveryCount' d := h],
                RecoveryCount' := RecoveryCount' d + 1\<rparr>"
    have step: "Initialize_blocks params blocks (h # t) d = Initialize_blocks params blocks t ?d1"
      using False by (simp add: is_original_def)
    have "h \<noteq> p" "h \<noteq> q" using False Cons.prems oq by auto
    then have "fst (Initialize_blocks params blocks t ?d1) = - 1"
      using Cons.prems by (intro Cons.IH) auto
    then show ?thesis by (simp only: step)
  qed
qed

lemma Initialize_erasures_scan:
  assumes "sorted_wrt (<) is" "\<forall>i\<in>set is. c \<le> i \<and> i < length (ErasuresIndices d)"
  shows "Params (Initialize_erasures is c d) = Params d \<and>
         Recovery (Initialize_erasures is c d) = Recovery d \<and>
         Original (Initialize_erasures is c d) = Original d \<and>
         RecoveryCount' (Initialize_erasures is c d) = RecoveryCount' d \<and>
         OriginalCount' (Initialize_erasures is c d) = OriginalCount' d \<and>
         length (ErasuresIndices (Initialize_erasures is c d)) = length (ErasuresIndices d) \<and>
         (\<forall>i<c. ErasuresIndices (Initialize_erasures is c d) ! i = ErasuresIndices d ! i) \<and>
         (\<forall>j. j < length (filter (\<lambda>i. ErasuresIndices d ! i = 0) is) \<longrightarrow>
              c + j < RecoveryCount' d \<longrightarrow>
              ErasuresIndices (Initialize_erasures is c d) ! (c + j) =
              of_nat (filter (\<lambda>i. ErasuresIndices d ! i = 0) is ! j))"
  using assms
proof (induction "is" arbitrary: c d)
  case Nil
  then show ?case by simp
next
  case (Cons ii rest)
  have cii: "c \<le> ii" "ii < length (ErasuresIndices d)" using Cons.prems(2) by auto
  have gt: "\<forall>i\<in>set rest. ii < i" using Cons.prems(1) by simp
  show ?case
  proof (cases "ErasuresIndices d ! ii = 0")
    case False
    have "\<forall>i\<in>set rest. c \<le> i \<and> i < length (ErasuresIndices d)" using Cons.prems(2) by simp
    moreover have "sorted_wrt (<) rest" using Cons.prems(1) by simp
    ultimately show ?thesis using Cons.IH[of c d] False by simp
  next
    case True
    let ?d1 = "d\<lparr>ErasuresIndices := (ErasuresIndices d)[c := of_nat ii]\<rparr>"
    show ?thesis
    proof (cases "RecoveryCount' d \<le> c + 1")
      case T2: True
      have res: "Initialize_erasures (ii # rest) c d = ?d1" using True T2 by simp
      have key: "ErasuresIndices ?d1 ! (c + j) =
              of_nat (filter (\<lambda>i. ErasuresIndices d ! i = 0) (ii # rest) ! j)"
        if "c + j < RecoveryCount' d" for j
      proof -
        have "j = 0" using that T2 by arith
        then show ?thesis using True cii by simp
      qed
      show ?thesis unfolding res
      proof (intro conjI allI impI)
        fix i assume "i < c"
        then show "ErasuresIndices ?d1 ! i = ErasuresIndices d ! i" by simp
      next
        fix j assume "c + j < RecoveryCount' d"
        then show "ErasuresIndices ?d1 ! (c + j) =
              of_nat (filter (\<lambda>i. ErasuresIndices d ! i = 0) (ii # rest) ! j)"
          by (rule key)
      qed simp_all
    next
      case F2: False
      have s: "sorted_wrt (<) rest" using Cons.prems(1) by simp
      have b: "\<forall>i\<in>set rest. c + 1 \<le> i \<and> i < length (ErasuresIndices ?d1)"
        using gt cii Cons.prems(2) by auto
      have same: "filter (\<lambda>i. ErasuresIndices ?d1 ! i = 0) rest =
                  filter (\<lambda>i. ErasuresIndices d ! i = 0) rest"
        using gt cii by (intro filter_cong) (auto simp: nth_list_update)
      note IH = Cons.IH[OF s b, unfolded same]
      have res: "Initialize_erasures (ii # rest) c d = Initialize_erasures rest (c + 1) ?d1"
        using True F2 by simp
      let ?r = "Initialize_erasures rest (c + 1) ?d1"
      have low: "\<forall>i<c + 1. ErasuresIndices ?r ! i = ErasuresIndices ?d1 ! i"
        and high: "\<forall>j. j < length (filter (\<lambda>i. ErasuresIndices d ! i = 0) rest) \<longrightarrow>
              c + 1 + j < RecoveryCount' ?d1 \<longrightarrow>
              ErasuresIndices ?r ! (c + 1 + j) =
              of_nat (filter (\<lambda>i. ErasuresIndices d ! i = 0) rest ! j)"
        and fields: "Params ?r = Params ?d1" "Recovery ?r = Recovery ?d1" "Original ?r = Original ?d1"
          "RecoveryCount' ?r = RecoveryCount' ?d1" "OriginalCount' ?r = OriginalCount' ?d1"
          "length (ErasuresIndices ?r) = length (ErasuresIndices ?d1)"
        using IH by blast+
      show ?thesis unfolding res
      proof (intro conjI allI impI)
        fix i assume "i < c"
        then show "ErasuresIndices ?r ! i = ErasuresIndices d ! i"
          using low cii by (simp add: nth_list_update)
      next
        fix j assume j: "j < length (filter (\<lambda>i. ErasuresIndices d ! i = 0) (ii # rest))"
          and cj: "c + j < RecoveryCount' d"
        show "ErasuresIndices ?r ! (c + j) =
              of_nat (filter (\<lambda>i. ErasuresIndices d ! i = 0) (ii # rest) ! j)"
        proof (cases j)
          case 0
          have "ErasuresIndices ?r ! c = ErasuresIndices ?d1 ! c"
            using low by simp
          then show ?thesis using 0 True cii by simp
        next
          case (Suc j')
          then have "j' < length (filter (\<lambda>i. ErasuresIndices d ! i = 0) rest)"
            and "c + 1 + j' < RecoveryCount' ?d1"
            using j cj True by simp_all
          then have "ErasuresIndices ?r ! (c + 1 + j') =
                of_nat (filter (\<lambda>i. ErasuresIndices d ! i = 0) rest ! j')"
            using high by blast
          then show ?thesis using Suc True by simp
        qed
      qed (use fields in simp_all)
    qed
  qed
qed

lemma is_original_iff:
  "is_original params blocks p \<longleftrightarrow> unat (Index (blocks ! p)) < nat (sint (OriginalCount params))"
  by (simp only: is_original_def uint_nat zless_nat_eq_int_zless)

lemma length_filter_not_in:
  assumes "S \<subseteq> {0..<k}"
  shows "length (filter (\<lambda>r. r \<notin> S) [0..<k]) = k - card S"
proof -
  have "distinct (filter (\<lambda>r. r \<notin> S) [0..<k])" by simp
  then have "length (filter (\<lambda>r. r \<notin> S) [0..<k]) = card (set (filter (\<lambda>r. r \<notin> S) [0..<k]))"
    by (simp only: distinct_card)
  also have "set (filter (\<lambda>r. r \<notin> S) [0..<k]) = {0..<k} - S" by auto
  also have "card ({0..<k} - S) = card {0..<k} - card S"
    using assms by (intro card_Diff_subset) (auto intro: finite_subset)
  finally show ?thesis by simp
qed

lemma Initialize_distinct:
  assumes k0: "0 \<le> sint (OriginalCount params)" and k256: "sint (OriginalCount params) \<le> 256"
    and len: "length blocks = nat (sint (OriginalCount params))"
    and dist: "distinct (map Index blocks)"
    and lE: "length (ErasuresIndices decoder) = 256"
    and lR: "length (Recovery decoder) = 256"
    and lO: "length (Original decoder) = 256"
  shows "\<exists>d. Initialize decoder params blocks = (0, d) \<and> Params d = params \<and>
           OriginalCount' d =
             length (filter (is_original params blocks) [0..<nat (sint (OriginalCount params))]) \<and>
           RecoveryCount' d =
             length (filter (\<lambda>p. \<not> is_original params blocks p) [0..<nat (sint (OriginalCount params))]) \<and>
           take (OriginalCount' d) (Original d) =
             filter (is_original params blocks) [0..<nat (sint (OriginalCount params))] \<and>
           take (RecoveryCount' d) (Recovery d) =
             filter (\<lambda>p. \<not> is_original params blocks p) [0..<nat (sint (OriginalCount params))] \<and>
           take (RecoveryCount' d) (ErasuresIndices d) =
             map of_nat (filter (\<lambda>r. (of_nat r :: byte) \<notin> Index ` set blocks)
                           [0..<nat (sint (OriginalCount params))]) \<and>
           length (filter (\<lambda>r. (of_nat r :: byte) \<notin> Index ` set blocks)
                           [0..<nat (sint (OriginalCount params))]) = RecoveryCount' d \<and>
           length (ErasuresIndices d) = 256 \<and> length (Recovery d) = 256 \<and> length (Original d) = 256"
proof -
  define k where "k = nat (sint (OriginalCount params))"
  have k: "k \<le> 256" using k256 by (simp add: k_def)
  let ?d1 = "decoder\<lparr>Params := params, OriginalCount' := 0, RecoveryCount' := 0\<rparr>"
  let ?d2 = "foldl Initialize_zero_step ?d1 [0..<k]"
  let ?cs = "classify_step params blocks"
  let ?d3 = "foldl ?cs ?d2 [0..<k]"
  let ?d = "Initialize_erasures [0..<256] 0 ?d3"
  let ?origs = "filter (is_original params blocks) [0..<k]"
  let ?recs = "filter (\<lambda>p. \<not> is_original params blocks p) [0..<k]"
  let ?row = "\<lambda>p. unat (Index (blocks ! p))"
  let ?rows = "?row ` set ?origs"
  let ?missing = "filter (\<lambda>r. (of_nat r :: byte) \<notin> Index ` set blocks) [0..<k]"
  have E2: "ErasuresIndices ?d2 ! i = (if i < k then 0 else ErasuresIndices decoder ! i)"
    if "i < 256" for i using that lE by (simp add: zero_loop_nth)
  have lE2: "length (ErasuresIndices ?d2) = 256" using lE by simp
  have inj: "inj_on (\<lambda>p. Index (blocks ! p)) {0..<k}"
  proof (rule inj_onI)
    fix x y assume xy: "x \<in> {0..<k}" "y \<in> {0..<k}" "Index (blocks ! x) = Index (blocks ! y)"
    have "map Index blocks ! x = map Index blocks ! y"
      using xy len by (simp add: k_def)
    moreover have "x < length (map Index blocks)" "y < length (map Index blocks)"
      using xy len by (simp_all add: k_def)
    ultimately show "x = y" using dist by (simp only: nth_eq_iff_index_eq)
  qed
  have dorig: "distinct (map (\<lambda>p. Index (blocks ! p)) ?origs)"
    by (intro distinct_map_filter) (simp add: distinct_map inj)
  have z2: "\<forall>p\<in>set [0..<k]. is_original params blocks p \<longrightarrow> ErasuresIndices ?d2 ! ?row p = 0"
  proof (intro ballI impI)
    fix p assume "p \<in> set [0..<k]" and o: "is_original params blocks p"
    have "?row p < k" using o by (simp add: is_original_iff k_def)
    then show "ErasuresIndices ?d2 ! ?row p = 0" using k by (simp add: E2)
  qed
  have init: "Initialize decoder params blocks = (0, ?d)"
    unfolding Initialize_def k_def[symmetric]
    using z2 dorig lE2 by (intro Initialize_blocks_ok) simp_all
  have rows_lt: "?rows \<subseteq> {0..<k}" by (auto simp: is_original_iff k_def)
  have E3: "ErasuresIndices ?d3 ! r = (if r \<in> ?rows then 1 else 0)" if "r < k" for r
    using that k lE by (simp add: classify_Erasures E2)
  have lE3: "length (ErasuresIndices ?d3) = 256" using lE by simp
  have OC3: "OriginalCount' ?d3 = length ?origs" and RC3: "RecoveryCount' ?d3 = length ?recs"
    by simp_all
  have sumk: "length ?origs + length ?recs = k"
    using sum_length_filter_compl[of "is_original params blocks" "[0..<k]"] by simp
  have O3: "take (length ?origs) (Original ?d3) = ?origs"
    using classify_Original[of ?d2 params blocks "[0..<k]"] sumk k lO by simp
  have R3: "take (length ?recs) (Recovery ?d3) = ?recs"
    using classify_Recovery[of ?d2 params blocks "[0..<k]"] sumk k lR by simp
  have scan: "Params ?d = Params ?d3 \<and> Recovery ?d = Recovery ?d3 \<and> Original ?d = Original ?d3 \<and>
         RecoveryCount' ?d = RecoveryCount' ?d3 \<and> OriginalCount' ?d = OriginalCount' ?d3 \<and>
         length (ErasuresIndices ?d) = length (ErasuresIndices ?d3) \<and>
         (\<forall>i<0. ErasuresIndices ?d ! i = ErasuresIndices ?d3 ! i) \<and>
         (\<forall>j. j < length (filter (\<lambda>i. ErasuresIndices ?d3 ! i = 0) [0..<256]) \<longrightarrow>
              0 + j < RecoveryCount' ?d3 \<longrightarrow>
              ErasuresIndices ?d ! (0 + j) =
              of_nat (filter (\<lambda>i. ErasuresIndices ?d3 ! i = 0) [0..<256] ! j))"
    using lE3 by (intro Initialize_erasures_scan) simp_all
  have mem_iff: "r \<notin> ?rows \<longleftrightarrow> (of_nat r :: byte) \<notin> Index ` set blocks" if r: "r < k" for r
  proof -
    have r256: "r < 256" using r k by simp
    have un: "unat (of_nat r :: byte) = r" using r256 by (intro of_nat_inverse) simp_all
    have "r \<in> ?rows \<longleftrightarrow> (of_nat r :: byte) \<in> Index ` set blocks"
    proof
      assume "r \<in> ?rows"
      then obtain p where p: "p < k" "r = ?row p" by auto
      then have "(of_nat r :: byte) = Index (blocks ! p)" by simp
      moreover have "blocks ! p \<in> set blocks" using p len by (simp add: k_def)
      ultimately show "(of_nat r :: byte) \<in> Index ` set blocks" by blast
    next
      assume "(of_nat r :: byte) \<in> Index ` set blocks"
      then obtain blk where "blk \<in> set blocks" "of_nat r = Index blk" by auto
      then obtain p where p: "p < k" "of_nat r = Index (blocks ! p)"
        using len by (auto simp: in_set_conv_nth k_def)
      then have "?row p = r" using un by simp
      then have "is_original params blocks p" using r by (simp add: is_original_iff k_def)
      then show "r \<in> ?rows" using p \<open>?row p = r\<close> by force
    qed
    then show ?thesis by simp
  qed
  have zeros_k: "filter (\<lambda>i. ErasuresIndices ?d3 ! i = 0) [0..<k] = ?missing"
  proof (rule filter_cong[OF refl])
    fix r assume "r \<in> set [0..<k]"
    then have r: "r < k" by simp
    have "ErasuresIndices ?d3 ! r = 0 \<longleftrightarrow> r \<notin> ?rows" using E3[OF r] by simp
    then show "(ErasuresIndices ?d3 ! r = 0) = ((of_nat r :: byte) \<notin> Index ` set blocks)"
      using mem_iff[OF r] by (simp only:)
  qed
  have card_rows: "card ?rows = length ?origs"
  proof -
    have "inj_on ?row (set ?origs)"
      using inj by (auto simp: inj_on_def word_unat_eq_iff)
    then have "card ?rows = card (set ?origs)" by (rule card_image)
    moreover have "distinct ?origs" by simp
    ultimately show ?thesis by (simp only: distinct_card)
  qed
  have lmiss: "length ?missing = length ?recs"
  proof -
    have "?missing = filter (\<lambda>r. r \<notin> ?rows) [0..<k]"
    proof (rule filter_cong[OF refl])
      fix r assume "r \<in> set [0..<k]"
      then have r: "r < k" by simp
      show "((of_nat r :: byte) \<notin> Index ` set blocks) = (r \<notin> ?rows)"
        using mem_iff[OF r] by (simp only:)
    qed
    then have "length ?missing = length (filter (\<lambda>r. r \<notin> ?rows) [0..<k])"
      by (simp only:)
    also have "\<dots> = k - card ?rows" using rows_lt by (rule length_filter_not_in)
    finally show ?thesis using card_rows sumk by simp
  qed
  have zsplit: "filter (\<lambda>i. ErasuresIndices ?d3 ! i = 0) [0..<256] =
               ?missing @ filter (\<lambda>i. ErasuresIndices ?d3 ! i = 0) [k..<256]"
  proof -
    have "[0..<256] = [0..<k] @ [k..<256]" using k by (metis le_add_diff_inverse upt_add_eq_append zero_le)
    then show ?thesis by (simp add: zeros_k del: upt_Suc)
  qed
  have Enth: "ErasuresIndices ?d ! j = of_nat (?missing ! j)" if "j < length ?recs" for j
  proof -
    have "j < length (filter (\<lambda>i. ErasuresIndices ?d3 ! i = 0) [0..<256])"
      using that lmiss by (simp add: zsplit del: upt_Suc)
    moreover have "0 + j < RecoveryCount' ?d3" using that by simp
    ultimately have "ErasuresIndices ?d ! (0 + j) =
              of_nat (filter (\<lambda>i. ErasuresIndices ?d3 ! i = 0) [0..<256] ! j)"
      using scan by blast
    then show ?thesis using that lmiss by (simp add: zsplit nth_append del: upt_Suc)
  qed
  have lEd: "length (ErasuresIndices ?d) = 256" using scan lE3 by simp
  have ET: "take (length ?recs) (ErasuresIndices ?d) = map of_nat ?missing"
  proof (rule nth_equalityI)
    have "length ?recs \<le> 256" using sumk k by simp
    then show "length (take (length ?recs) (ErasuresIndices ?d)) = length (map of_nat ?missing :: byte list)"
      using lEd lmiss by simp
  next
    fix i assume "i < length (take (length ?recs) (ErasuresIndices ?d))"
    then have "i < length ?recs" by simp
    then show "take (length ?recs) (ErasuresIndices ?d) ! i = (map of_nat ?missing :: byte list) ! i"
      using Enth lmiss by simp
  qed
  have fields: "Params ?d = params" "OriginalCount' ?d = length ?origs" "RecoveryCount' ?d = length ?recs"
    "Original ?d = Original ?d3" "Recovery ?d = Recovery ?d3"
    using scan by simp_all
  have "Initialize decoder params blocks = (0, ?d) \<and> Params ?d = params \<and>
      OriginalCount' ?d = length ?origs \<and> RecoveryCount' ?d = length ?recs \<and>
      take (OriginalCount' ?d) (Original ?d) = ?origs \<and>
      take (RecoveryCount' ?d) (Recovery ?d) = ?recs \<and>
      take (RecoveryCount' ?d) (ErasuresIndices ?d) = map of_nat ?missing \<and>
      length ?missing = RecoveryCount' ?d \<and>
      length (ErasuresIndices ?d) = 256 \<and> length (Recovery ?d) = 256 \<and> length (Original ?d) = 256"
    using init fields O3 R3 ET lmiss lEd lR lO by simp
  then show ?thesis unfolding k_def by blast
qed

subsection \<open>Bookkeeping, duplicates and the case without erasures\<close>

lemma cm256_decode_valid:
  assumes "2 \<le> sint (OriginalCount params)" "1 \<le> sint (RecoveryCount params)"
    "1 \<le> sint (BlockBytes params)"
    "sint (OriginalCount params) + sint (RecoveryCount params) \<le> 256"
  shows "cm256_decode params state scratch (Some bl) =
     (if fst (Initialize state params bl) \<noteq> 0 then (- 5, Some bl)
      else if RecoveryCount' (snd (Initialize state params bl)) \<le> 0 then (0, Some bl)
      else if RecoveryCount params = 1 then
        (0, Some (DecodeM1 (snd (Initialize state params bl)) bl))
      else (0, Some (Decode (snd (Initialize state params bl)) scratch bl)))"
proof -
  have "sint (OriginalCount params + RecoveryCount params) =
        sint (OriginalCount params) + sint (RecoveryCount params)"
    using assms by (intro sint_add_small) auto
  moreover have "OriginalCount params \<noteq> 1" using assms(1) by auto
  ultimately show ?thesis using assms by (simp add: cm256_decode_def)
qed

text \<open>
  Claim C7. For \<open>OriginalCount\<close> descriptors with pairwise distinct indices,
  \<open>Initialize\<close> returns 0 whatever the uninitialised state held; the two counts add up
  to \<open>OriginalCount\<close>; the \<open>Original\<close> array holds, in the order supplied, the
  descriptors whose index is below \<open>OriginalCount\<close> and the \<open>Recovery\<close> array the
  others; and the first \<open>RecoveryCount\<close> bytes of \<open>ErasuresIndices\<close> are the
  ascending list of the original indices that no supplied descriptor carries.
\<close>

theorem Initialize_bookkeeping:
  assumes "0 \<le> sint (OriginalCount params)" and "sint (OriginalCount params) \<le> 256"
    and "length blocks = nat (sint (OriginalCount params))"
    and "distinct (map Index blocks)"
    and "length (ErasuresIndices decoder) = 256"
    and "length (Recovery decoder) = 256"
    and "length (Original decoder) = 256"
  shows "\<exists>d. Initialize decoder params blocks = (0, d) \<and>
           OriginalCount' d + RecoveryCount' d = nat (sint (OriginalCount params)) \<and>
           take (OriginalCount' d) (Original d) =
             filter (\<lambda>p. unat (Index (blocks ! p)) < nat (sint (OriginalCount params)))
               [0..<nat (sint (OriginalCount params))] \<and>
           take (RecoveryCount' d) (Recovery d) =
             filter (\<lambda>p. nat (sint (OriginalCount params)) \<le> unat (Index (blocks ! p)))
               [0..<nat (sint (OriginalCount params))] \<and>
           take (RecoveryCount' d) (ErasuresIndices d) =
             map of_nat (filter (\<lambda>r. (of_nat r :: byte) \<notin> Index ` set blocks)
                           [0..<nat (sint (OriginalCount params))]) \<and>
           length (filter (\<lambda>r. (of_nat r :: byte) \<notin> Index ` set blocks)
                           [0..<nat (sint (OriginalCount params))]) = RecoveryCount' d"
proof -
  let ?k = "nat (sint (OriginalCount params))"
  obtain d where d: "Initialize decoder params blocks = (0, d)"
    "OriginalCount' d = length (filter (is_original params blocks) [0..<?k])"
    "RecoveryCount' d = length (filter (\<lambda>p. \<not> is_original params blocks p) [0..<?k])"
    "take (OriginalCount' d) (Original d) = filter (is_original params blocks) [0..<?k]"
    "take (RecoveryCount' d) (Recovery d) = filter (\<lambda>p. \<not> is_original params blocks p) [0..<?k]"
    "take (RecoveryCount' d) (ErasuresIndices d) =
       map of_nat (filter (\<lambda>r. (of_nat r :: byte) \<notin> Index ` set blocks) [0..<?k])"
    "length (filter (\<lambda>r. (of_nat r :: byte) \<notin> Index ` set blocks) [0..<?k]) = RecoveryCount' d"
    using Initialize_distinct[OF assms] by blast
  have f1: "filter (is_original params blocks) [0..<?k] =
            filter (\<lambda>p. unat (Index (blocks ! p)) < ?k) [0..<?k]"
    by (intro filter_cong) (simp_all add: is_original_iff)
  have f2: "filter (\<lambda>p. \<not> is_original params blocks p) [0..<?k] =
            filter (\<lambda>p. ?k \<le> unat (Index (blocks ! p))) [0..<?k]"
    by (intro filter_cong) (simp_all add: is_original_iff not_less)
  have "OriginalCount' d + RecoveryCount' d = ?k"
    using sum_length_filter_compl[of "is_original params blocks" "[0..<?k]"]
    by (simp only: d(2,3) length_upt diff_zero)
  show ?thesis
  proof (intro exI[of _ d] conjI)
    show "Initialize decoder params blocks = (0, d)" by (rule d(1))
    show "OriginalCount' d + RecoveryCount' d = ?k" by fact
    show "take (OriginalCount' d) (Original d) =
            filter (\<lambda>p. unat (Index (blocks ! p)) < ?k) [0..<?k]"
      using d(4) f1 by (simp only:)
    show "take (RecoveryCount' d) (Recovery d) =
            filter (\<lambda>p. ?k \<le> unat (Index (blocks ! p))) [0..<?k]"
      using d(5) f2 by (simp only:)
    show "take (RecoveryCount' d) (ErasuresIndices d) =
       map of_nat (filter (\<lambda>r. (of_nat r :: byte) \<notin> Index ` set blocks) [0..<?k])"
      by (rule d(6))
    show "length (filter (\<lambda>r. (of_nat r :: byte) \<notin> Index ` set blocks) [0..<?k]) = RecoveryCount' d"
      by (rule d(7))
  qed
qed

theorem Initialize_bookkeeping_witness:
  "\<exists>d. Initialize (uninit_decoder 0xFF) \<lparr>BlockBytes = 1, OriginalCount = 3, RecoveryCount = 2\<rparr>
          [\<lparr>Block = [1], Index = 4\<rparr>, \<lparr>Block = [2], Index = 1\<rparr>, \<lparr>Block = [3], Index = 3\<rparr>] = (0, d) \<and>
       OriginalCount' d + RecoveryCount' d = 3 \<and>
       take (OriginalCount' d) (Original d) = [1] \<and>
       take (RecoveryCount' d) (Recovery d) = [0, 2] \<and>
       take (RecoveryCount' d) (ErasuresIndices d) = [0, 2]"
proof -
  let ?p = "\<lparr>BlockBytes = 1, OriginalCount = 3, RecoveryCount = 2\<rparr> :: cm256_encoder_params"
  let ?bl = "[\<lparr>Block = [1], Index = 4\<rparr>, \<lparr>Block = [2], Index = 1\<rparr>, \<lparr>Block = [3], Index = 3\<rparr>] :: cm256_block list"
  have k: "nat (sint (OriginalCount ?p)) = 3" by simp
  have upt: "[0..<3] = [0, 1, 2::nat]" by code_simp
  have h: "0 \<le> sint (OriginalCount ?p)" "sint (OriginalCount ?p) \<le> 256"
    "length ?bl = nat (sint (OriginalCount ?p))" "distinct (map Index ?bl)"
    "length (ErasuresIndices (uninit_decoder 0xFF)) = 256"
    "length (Recovery (uninit_decoder 0xFF)) = 256"
    "length (Original (uninit_decoder 0xFF)) = 256"
    by (simp_all add: uninit_decoder_def)
  show ?thesis
    using Initialize_bookkeeping[OF h] unfolding k upt by (simp, blast)
qed

text \<open>
  Claim C9. With valid parameters and at least two originals, two supplied descriptors that
  carry the same original index make \<open>cm256_decode\<close> return \<open>-5\<close> with every
  buffer and index as the caller passed them. The witness is scenario S5 of the spec.
\<close>

theorem decode_duplicate_original:
  assumes "2 \<le> sint (OriginalCount params)" and "1 \<le> sint (RecoveryCount params)"
    and "1 \<le> sint (BlockBytes params)"
    and "sint (OriginalCount params) + sint (RecoveryCount params) \<le> 256"
    and "length blocks = nat (sint (OriginalCount params))"
    and "p < q" and "q < length blocks"
    and "Index (blocks ! p) = Index (blocks ! q)"
    and "unat (Index (blocks ! p)) < nat (sint (OriginalCount params))"
    and "length (ErasuresIndices state) = 256"
  shows "cm256_decode params state scratch (Some blocks) = (- 5, Some blocks)"
proof -
  let ?k = "nat (sint (OriginalCount params))"
  have pq: "p \<in> set [0..<?k]" "q \<in> set [0..<?k]" "p \<noteq> q"
    using assms(5,6,7) by simp_all
  have orig: "is_original params blocks p" using assms(9) by (simp only: is_original_iff)
  have "256 \<le> length (ErasuresIndices (foldl Initialize_zero_step
          (state\<lparr>Params := params, OriginalCount' := 0, RecoveryCount' := 0\<rparr>) [0..<?k]))"
    using assms(10) by simp
  then have "fst (Initialize state params blocks) = - 1"
    unfolding Initialize_def
    using pq assms(8) orig by (intro Initialize_blocks_duplicate[of _ p q]) simp_all
  then have "fst (Initialize state params blocks) \<noteq> 0" by simp
  then show ?thesis using cm256_decode_valid[OF assms(1-4), of state scratch blocks] by simp
qed

theorem decode_duplicate_original_witness:
  "cm256_decode \<lparr>BlockBytes = 64, OriginalCount = 3, RecoveryCount = 2\<rparr>
     (uninit_decoder 0xFF) (uninit_scratch 0xFF)
     (Some [\<lparr>Block = replicate 64 0x10, Index = 1\<rparr>, \<lparr>Block = replicate 64 0x20, Index = 3\<rparr>,
            \<lparr>Block = replicate 64 0x30, Index = 1\<rparr>]) =
   (- 5, Some [\<lparr>Block = replicate 64 0x10, Index = 1\<rparr>, \<lparr>Block = replicate 64 0x20, Index = 3\<rparr>,
            \<lparr>Block = replicate 64 0x30, Index = 1\<rparr>])"
  by (rule decode_duplicate_original[where p = 0 and q = 2]) (simp_all add: uninit_decoder_def)

text \<open>
  Claim C10. With valid parameters and at least two originals, when every supplied
  descriptor carries an original index and the indices are distinct, \<open>cm256_decode\<close>
  returns 0 and leaves every buffer and every index unchanged.
\<close>

theorem decode_without_erasures:
  assumes "2 \<le> sint (OriginalCount params)" and "1 \<le> sint (RecoveryCount params)"
    and "1 \<le> sint (BlockBytes params)"
    and "sint (OriginalCount params) + sint (RecoveryCount params) \<le> 256"
    and "length blocks = nat (sint (OriginalCount params))"
    and "distinct (map Index blocks)"
    and "\<forall>p<length blocks. unat (Index (blocks ! p)) < nat (sint (OriginalCount params))"
    and "length (ErasuresIndices state) = 256"
    and "length (Recovery state) = 256"
    and "length (Original state) = 256"
  shows "cm256_decode params state scratch (Some blocks) = (0, Some blocks)"
proof -
  let ?k = "nat (sint (OriginalCount params))"
  have k: "0 \<le> sint (OriginalCount params)" "sint (OriginalCount params) \<le> 256"
    using assms(1,2,4) by simp_all
  obtain d where d: "Initialize state params blocks = (0, d)"
    "RecoveryCount' d = length (filter (\<lambda>p. \<not> is_original params blocks p) [0..<?k])"
    using Initialize_distinct[OF k assms(5,6,8,9,10)] by blast
  have "\<forall>p\<in>set [0..<?k]. is_original params blocks p"
    using assms(5,7) by (simp add: is_original_iff)
  then have "filter (\<lambda>p. \<not> is_original params blocks p) [0..<?k] = []"
    by (simp only: filter_empty_conv not_not) 
  then have "RecoveryCount' d = 0" using d(2) by simp
  then show ?thesis using cm256_decode_valid[OF assms(1-4), of state scratch blocks] d(1) by simp
qed

theorem decode_without_erasures_witness:
  "cm256_decode \<lparr>BlockBytes = 1, OriginalCount = 2, RecoveryCount = 2\<rparr>
     (uninit_decoder 0xFF) (uninit_scratch 0xFF)
     (Some [\<lparr>Block = [5], Index = 1\<rparr>, \<lparr>Block = [6], Index = 0\<rparr>]) =
   (0, Some [\<lparr>Block = [5], Index = 1\<rparr>, \<lparr>Block = [6], Index = 0\<rparr>])"
  by (rule decode_without_erasures) (simp_all add: uninit_decoder_def nth_Cons' )

subsection \<open>Validation of the parameters\<close>

text \<open>
  Where the exact sum of the two counts fits a C \<open>int\<close>, the codes of the validation
  are those of the interface table.
\<close>

lemma cm256_encode_codes:
  assumes "sint (OriginalCount params) + sint (RecoveryCount params) < 2 ^ 31"
  shows "fst (cm256_encode params originals recoveryBlocks) =
     (if sint (OriginalCount params) \<le> 0 \<or> sint (RecoveryCount params) \<le> 0
         \<or> sint (BlockBytes params) \<le> 0 then - 1
      else if 256 < sint (OriginalCount params) + sint (RecoveryCount params) then - 2
      else if originals = None \<or> recoveryBlocks = None then - 3 else 0)"
proof (cases "sint (OriginalCount params) \<le> 0 \<or> sint (RecoveryCount params) \<le> 0
         \<or> sint (BlockBytes params) \<le> 0")
  case True
  then show ?thesis by (simp add: cm256_encode_def)
next
  case False
  then have "signed_take_bit 31 (sint (OriginalCount params) + sint (RecoveryCount params)) =
             sint (OriginalCount params) + sint (RecoveryCount params)"
    using assms by (intro signed_take_bit_int_eq_self) auto
  then have "sint (OriginalCount params + RecoveryCount params) =
        sint (OriginalCount params) + sint (RecoveryCount params)"
    by (simp add: sint_word_add)
  then show ?thesis using False
    by (simp add: cm256_encode_def split: option.splits)
qed

lemma cm256_decode_codes:
  assumes "sint (OriginalCount params) + sint (RecoveryCount params) < 2 ^ 31"
  shows "sint (OriginalCount params) \<le> 0 \<or> sint (RecoveryCount params) \<le> 0
           \<or> sint (BlockBytes params) \<le> 0 \<Longrightarrow>
         fst (cm256_decode params state scratch blocks) = - 1"
    and "0 < sint (OriginalCount params) \<Longrightarrow> 0 < sint (RecoveryCount params) \<Longrightarrow>
         0 < sint (BlockBytes params) \<Longrightarrow>
         256 < sint (OriginalCount params) + sint (RecoveryCount params) \<Longrightarrow>
         fst (cm256_decode params state scratch blocks) = - 2"
    and "0 < sint (OriginalCount params) \<Longrightarrow> 0 < sint (RecoveryCount params) \<Longrightarrow>
         0 < sint (BlockBytes params) \<Longrightarrow>
         sint (OriginalCount params) + sint (RecoveryCount params) \<le> 256 \<Longrightarrow>
         fst (cm256_decode params state scratch None) = - 3"
proof -
  show "fst (cm256_decode params state scratch blocks) = - 1"
    if "sint (OriginalCount params) \<le> 0 \<or> sint (RecoveryCount params) \<le> 0
           \<or> sint (BlockBytes params) \<le> 0"
    using that by (simp add: cm256_decode_def)
  have eq: "sint (OriginalCount params + RecoveryCount params) =
        sint (OriginalCount params) + sint (RecoveryCount params)"
    if "0 < sint (OriginalCount params)" "0 < sint (RecoveryCount params)"
  proof -
    have "signed_take_bit 31 (sint (OriginalCount params) + sint (RecoveryCount params)) =
             sint (OriginalCount params) + sint (RecoveryCount params)"
      using assms that by (intro signed_take_bit_int_eq_self) auto
    then show ?thesis by (simp add: sint_word_add)
  qed
  show "fst (cm256_decode params state scratch blocks) = - 2"
    if "0 < sint (OriginalCount params)" "0 < sint (RecoveryCount params)"
         "0 < sint (BlockBytes params)"
         "256 < sint (OriginalCount params) + sint (RecoveryCount params)"
    using that eq by (simp add: cm256_decode_def)
  show "fst (cm256_decode params state scratch None) = - 3"
    if "0 < sint (OriginalCount params)" "0 < sint (RecoveryCount params)"
         "0 < sint (BlockBytes params)"
         "sint (OriginalCount params) + sint (RecoveryCount params) \<le> 256"
    using that eq by (simp add: cm256_decode_def)
qed

text \<open>
  Claim C8. The two counts are added as 32-bit integers before the comparison with 256.
  For \<open>OriginalCount = 2147483647\<close> and \<open>RecoveryCount = 1\<close> all three parameters
  are positive and the exact sum exceeds 256, but the sum of the C expression wraps to a
  negative number: encode and decode pass the size check and, with null pointers, return
  \<open>-3\<close> where the interface table says \<open>-2\<close>.
\<close>

theorem validation_overflow:
  "0 < sint (0x7FFFFFFF :: cint) \<and> 0 < sint (1 :: cint) \<and>
   256 < sint (0x7FFFFFFF :: cint) + sint (1 :: cint) \<and>
   cm256_encode \<lparr>BlockBytes = 1, OriginalCount = 0x7FFFFFFF, RecoveryCount = 1\<rparr> None None =
     (- 3, None) \<and>
   cm256_decode \<lparr>BlockBytes = 1, OriginalCount = 0x7FFFFFFF, RecoveryCount = 1\<rparr> state scratch None =
     (- 3, None)"
  by (simp add: cm256_encode_def cm256_decode_def)

section \<open>GF(256) is a field\<close>

text \<open>
  Multiplication is bilinear over XOR and commutes with \<open>gf256_xtime\<close>, so it is
  settled by its values on the powers of \<open>x\<close>. The cycle of \<open>gf256_xtime\<close> from 1
  returns to 1 after 255 steps and not before, so every non-zero byte is a power of
  \<open>x\<close> and has the inverse that \<open>gf256_inv\<close> computes.
\<close>

lemma xor_eq_0D: "(a :: byte) XOR b = 0 \<Longrightarrow> a = b"
proof -
  assume h: "a XOR b = 0"
  have "a XOR (a XOR b) = b" by (simp flip: xor.assoc)
  then show ?thesis by (simp add: h)
qed

lemma xtime_xor: "gf256_xtime (a XOR b) = gf256_xtime a XOR gf256_xtime b"
  by (simp add: gf256_xtime_def bit_xor_iff ac_simps)

lemma xtime_0 [simp]: "gf256_xtime 0 = 0"
  by (simp add: gf256_xtime_def)

lemma xtime_eq_0: "gf256_xtime c = 0 \<Longrightarrow> c = 0"
proof (cases "bit c 7")
  case True
  assume "gf256_xtime c = 0"
  then have "push_bit 1 c XOR (0x4D :: byte) = 0" using True
    by (simp add: gf256_xtime_def)
  then have "push_bit 1 c = (0x4D :: byte)" by (rule xor_eq_0D)
  then have "bit (push_bit 1 c) 0 = bit (0x4D :: byte) 0" by simp
  then show ?thesis by (simp add: bit_0)
next
  case False
  assume "gf256_xtime c = 0"
  then have z: "2 * c = 0" using False by (simp add: gf256_xtime_def mult.commute)
  show ?thesis
  proof (rule bit_word_eqI)
    fix n assume n: "n < LENGTH(8)"
    show "bit c n = bit (0 :: byte) n"
    proof (cases "n = 7")
      case True
      then show ?thesis using False by simp
    next
      case F: False
      then have "Suc n < 8" using n by simp
      then have "bit (2 * c) (Suc n) = bit c n" by (simp add: bit_double_iff)
      then show ?thesis using z by simp
    qed
  qed
qed

lemma xtime_inj: "gf256_xtime a = gf256_xtime b \<Longrightarrow> a = b"
proof -
  assume "gf256_xtime a = gf256_xtime b"
  then have "gf256_xtime (a XOR b) = 0" by (simp add: xtime_xor)
  then have "a XOR b = 0" by (rule xtime_eq_0)
  then show ?thesis by (rule xor_eq_0D)
qed

lemma mul_loop_xor_left:
  "gf256_mul_loop n (a XOR a') b = gf256_mul_loop n a b XOR gf256_mul_loop n a' b"
  by (induction n arbitrary: a a' b) (simp_all add: xtime_xor ac_simps)

lemma mul_loop_xor_right:
  "gf256_mul_loop n a (b XOR b') = gf256_mul_loop n a b XOR gf256_mul_loop n a b'"
  by (induction n arbitrary: a b b') (simp_all add: bit_xor_iff ac_simps)

lemma mul_loop_0_right [simp]: "gf256_mul_loop n a 0 = 0"
  by (induction n arbitrary: a) simp_all

lemma mul_loop_0_left [simp]: "gf256_mul_loop n 0 b = 0"
  by (induction n arbitrary: b) simp_all

lemma mul_loop_xtime:
  "gf256_mul_loop n (gf256_xtime a) b = gf256_xtime (gf256_mul_loop n a b)"
  by (induction n arbitrary: a b) (simp_all add: xtime_xor)

lemma byte_decompose:
  "(a :: byte) = (a AND 1) XOR ((a AND 2) XOR ((a AND 4) XOR ((a AND 8) XOR
     ((a AND 16) XOR ((a AND 32) XOR ((a AND 64) XOR (a AND 128)))))))"
  apply (rule bit_word_eqI)
  apply (simp add: bit_simps)
  subgoal for n
    apply (cases "n = 0"; cases "n = 1"; cases "n = 2"; cases "n = 3"; cases "n = 4";
           cases "n = 5"; cases "n = 6"; cases "n = 7")
    apply simp_all
    done
  done

lemma xor_linear_0: "xor_linear f \<Longrightarrow> f 0 = 0"
proof -
  assume "xor_linear f"
  then have "f (0 XOR 0) = f 0 XOR f 0" unfolding xor_linear_def by blast
  then show ?thesis by simp
qed

lemma and_pow2: "(a :: byte) AND 2 ^ i = (if bit a i then 2 ^ i else 0)"
  by (rule bit_word_eqI) (auto simp: bit_simps)

lemma xor_linear_and:
  assumes "xor_linear h" "h (2 ^ i) = 0"
  shows "h (a AND 2 ^ i) = 0"
  using assms xor_linear_0[of h] by (simp add: and_pow2)

lemma xor_linear_zero:
  assumes l: "xor_linear h"
    and z: "h 1 = 0" "h 2 = 0" "h 4 = 0" "h 8 = 0" "h 16 = 0" "h 32 = 0" "h 64 = 0" "h 128 = 0"
  shows "h a = 0"
proof -
  have e: "h (a AND 1) = 0" "h (a AND 2) = 0" "h (a AND 4) = 0" "h (a AND 8) = 0"
    "h (a AND 16) = 0" "h (a AND 32) = 0" "h (a AND 64) = 0" "h (a AND 128) = 0"
    using xor_linear_and[OF l, of 0 a] xor_linear_and[OF l, of 1 a] xor_linear_and[OF l, of 2 a]
      xor_linear_and[OF l, of 3 a] xor_linear_and[OF l, of 4 a] xor_linear_and[OF l, of 5 a]
      xor_linear_and[OF l, of 6 a] xor_linear_and[OF l, of 7 a] z
    by simp_all
  have split: "\<And>u v. h (u XOR v) = h u XOR h v" using l unfolding xor_linear_def by blast
  have "h a = h ((a AND 1) XOR ((a AND 2) XOR ((a AND 4) XOR ((a AND 8) XOR
     ((a AND 16) XOR ((a AND 32) XOR ((a AND 64) XOR (a AND 128))))))))"
    using byte_decompose[of a] by simp
  also have "\<dots> = 0" by (simp only: split e xor_self_eq)
  finally show ?thesis .
qed

lemma xor_linear_ext:
  assumes "xor_linear f" "xor_linear g"
    and "f 1 = g 1" "f 2 = g 2" "f 4 = g 4" "f 8 = g 8" "f 16 = g 16" "f 32 = g 32"
      "f 64 = g 64" "f 128 = g 128"
  shows "f a = g a"
proof -
  have "xor_linear (\<lambda>x. f x XOR g x)"
    using assms(1,2) unfolding xor_linear_def by (simp add: ac_simps)
  then have "(\<lambda>x. f x XOR g x) a = 0"
    by (rule xor_linear_zero) (simp_all add: assms)
  then show ?thesis by (simp add: xor_eq_0D)
qed

lemma gf256_mul_linear_left: "xor_linear (\<lambda>a. gf256_mul a b)"
  by (simp add: xor_linear_def gf256_mul_def mul_loop_xor_left)

lemma gf256_mul_linear_right: "xor_linear (gf256_mul a)"
  by (simp add: xor_linear_def gf256_mul_def mul_loop_xor_right)

lemma xor_linear_id: "xor_linear (\<lambda>a. a)"
  by (simp add: xor_linear_def)

lemma xor_linear_funpow_xtime: "xor_linear (gf256_xtime ^^ n)"
  by (induction n) (simp_all add: xor_linear_def xtime_xor)

lemma gf256_mul_0_right [simp]: "gf256_mul a 0 = 0"
  and gf256_mul_0_left [simp]: "gf256_mul 0 b = 0"
  by (simp_all add: gf256_mul_def)

lemma gf256_mul_1_left_basis:
  "gf256_mul 1 1 = 1" "gf256_mul 1 2 = 2" "gf256_mul 1 4 = 4" "gf256_mul 1 8 = 8"
  "gf256_mul 1 16 = 16" "gf256_mul 1 32 = 32" "gf256_mul 1 64 = 64" "gf256_mul 1 128 = 128"
  by code_simp+

lemma gf256_mul_1_left [simp]: "gf256_mul 1 b = b"
  by (rule xor_linear_ext[OF gf256_mul_linear_right xor_linear_id])
     (simp_all only: gf256_mul_1_left_basis)

lemma gf256_mul_xtime_left: "gf256_mul (gf256_xtime a) b = gf256_xtime (gf256_mul a b)"
  by (simp add: gf256_mul_def mul_loop_xtime)

lemma gf256_mul_pow2_left: "gf256_mul (gf256_pow2 i) b = (gf256_xtime ^^ i) b"
  by (induction i) (simp_all add: gf256_pow2_def gf256_mul_xtime_left)

lemma gf256_mul_pow2_pow2: "gf256_mul (gf256_pow2 i) (gf256_pow2 j) = gf256_pow2 (i + j)"
proof -
  have "gf256_mul (gf256_pow2 i) (gf256_pow2 j) = (gf256_xtime ^^ i) (gf256_pow2 j)"
    by (rule gf256_mul_pow2_left)
  also have "\<dots> = gf256_pow2 (i + j)" by (simp add: gf256_pow2_def funpow_add)
  finally show ?thesis .
qed

lemma pow2_basis:
  "gf256_pow2 0 = 1" "gf256_pow2 1 = 2" "gf256_pow2 2 = 4" "gf256_pow2 3 = 8"
  "gf256_pow2 4 = 16" "gf256_pow2 5 = 32" "gf256_pow2 6 = 64" "gf256_pow2 7 = 128"
  by (simp_all add: gf256_pow2_def gf256_xtime_def eval_nat_numeral)

lemma gf256_mul_pow2_right: "gf256_mul b (gf256_pow2 i) = (gf256_xtime ^^ i) b"
proof (rule xor_linear_ext[OF gf256_mul_linear_left xor_linear_funpow_xtime])
  show "gf256_mul 1 (gf256_pow2 i) = (gf256_xtime ^^ i) 1" by (simp add: gf256_pow2_def)
  have *: "gf256_mul (gf256_pow2 j) (gf256_pow2 i) = (gf256_xtime ^^ i) (gf256_pow2 j)" for j
  proof -
    have "gf256_mul (gf256_pow2 j) (gf256_pow2 i) = gf256_pow2 (i + j)"
      by (simp only: gf256_mul_pow2_pow2 add.commute)
    also have "\<dots> = (gf256_xtime ^^ i) (gf256_pow2 j)" by (simp add: gf256_pow2_def funpow_add)
    finally show ?thesis .
  qed
  show "gf256_mul 2 (gf256_pow2 i) = (gf256_xtime ^^ i) 2" using *[of 1] by (simp only: pow2_basis)
  show "gf256_mul 4 (gf256_pow2 i) = (gf256_xtime ^^ i) 4" using *[of 2] by (simp only: pow2_basis)
  show "gf256_mul 8 (gf256_pow2 i) = (gf256_xtime ^^ i) 8" using *[of 3] by (simp only: pow2_basis)
  show "gf256_mul 16 (gf256_pow2 i) = (gf256_xtime ^^ i) 16" using *[of 4] by (simp only: pow2_basis)
  show "gf256_mul 32 (gf256_pow2 i) = (gf256_xtime ^^ i) 32" using *[of 5] by (simp only: pow2_basis)
  show "gf256_mul 64 (gf256_pow2 i) = (gf256_xtime ^^ i) 64" using *[of 6] by (simp only: pow2_basis)
  show "gf256_mul 128 (gf256_pow2 i) = (gf256_xtime ^^ i) 128" using *[of 7] by (simp only: pow2_basis)
qed

lemma gf256_mul_commute: "gf256_mul a b = gf256_mul b a"
proof (rule xor_linear_ext[OF gf256_mul_linear_left gf256_mul_linear_right])
  have *: "gf256_mul (gf256_pow2 j) b = gf256_mul b (gf256_pow2 j)" for j
    by (simp only: gf256_mul_pow2_left gf256_mul_pow2_right)
  show "gf256_mul 1 b = gf256_mul b 1" using *[of 0] by (simp only: pow2_basis)
  show "gf256_mul 2 b = gf256_mul b 2" using *[of 1] by (simp only: pow2_basis)
  show "gf256_mul 4 b = gf256_mul b 4" using *[of 2] by (simp only: pow2_basis)
  show "gf256_mul 8 b = gf256_mul b 8" using *[of 3] by (simp only: pow2_basis)
  show "gf256_mul 16 b = gf256_mul b 16" using *[of 4] by (simp only: pow2_basis)
  show "gf256_mul 32 b = gf256_mul b 32" using *[of 5] by (simp only: pow2_basis)
  show "gf256_mul 64 b = gf256_mul b 64" using *[of 6] by (simp only: pow2_basis)
  show "gf256_mul 128 b = gf256_mul b 128" using *[of 7] by (simp only: pow2_basis)
qed

lemma gf256_mul_funpow_xtime:
  "gf256_mul ((gf256_xtime ^^ i) a) b = (gf256_xtime ^^ i) (gf256_mul a b)"
  by (induction i) (simp_all add: gf256_mul_xtime_left)

lemma gf256_mul_assoc: "gf256_mul (gf256_mul a b) c = gf256_mul a (gf256_mul b c)"
proof -
  have l1: "xor_linear (\<lambda>a. gf256_mul (gf256_mul a b) c)"
    using gf256_mul_linear_left[of b] gf256_mul_linear_left[of c]
    unfolding xor_linear_def by simp
  have l2: "xor_linear (\<lambda>a. gf256_mul a (gf256_mul b c))"
    by (rule gf256_mul_linear_left)
  have *: "gf256_mul (gf256_mul (gf256_pow2 j) b) c = gf256_mul (gf256_pow2 j) (gf256_mul b c)" for j
    by (simp only: gf256_mul_pow2_left gf256_mul_funpow_xtime)
  show ?thesis
  proof (rule xor_linear_ext[OF l1 l2])
    show "gf256_mul (gf256_mul 1 b) c = gf256_mul 1 (gf256_mul b c)" using *[of 0] by (simp only: pow2_basis)
    show "gf256_mul (gf256_mul 2 b) c = gf256_mul 2 (gf256_mul b c)" using *[of 1] by (simp only: pow2_basis)
    show "gf256_mul (gf256_mul 4 b) c = gf256_mul 4 (gf256_mul b c)" using *[of 2] by (simp only: pow2_basis)
    show "gf256_mul (gf256_mul 8 b) c = gf256_mul 8 (gf256_mul b c)" using *[of 3] by (simp only: pow2_basis)
    show "gf256_mul (gf256_mul 16 b) c = gf256_mul 16 (gf256_mul b c)" using *[of 4] by (simp only: pow2_basis)
    show "gf256_mul (gf256_mul 32 b) c = gf256_mul 32 (gf256_mul b c)" using *[of 5] by (simp only: pow2_basis)
    show "gf256_mul (gf256_mul 64 b) c = gf256_mul 64 (gf256_mul b c)" using *[of 6] by (simp only: pow2_basis)
    show "gf256_mul (gf256_mul 128 b) c = gf256_mul 128 (gf256_mul b c)" using *[of 7] by (simp only: pow2_basis)
  qed
qed

lemma xtime_iter_funpow: "xtime_iter n a = (gf256_xtime ^^ n) a"
  by (induction n arbitrary: a) (simp_all add: funpow_swap1)

lemma xtime_no_return_funpow:
  "xtime_no_return n a \<Longrightarrow> i < n \<Longrightarrow> (gf256_xtime ^^ i) a \<noteq> 1"
proof (induction n arbitrary: a i)
  case 0
  then show ?case by simp
next
  case (Suc n)
  show ?case
  proof (cases i)
    case 0
    then show ?thesis using Suc.prems by simp
  next
    case (Suc i')
    then have "(gf256_xtime ^^ i') (gf256_xtime a) \<noteq> 1"
      using Suc.prems by (intro Suc.IH) simp_all
    then show ?thesis using Suc by (simp add: funpow_swap1)
  qed
qed

lemma xtime_cycle: "xtime_iter 255 1 = 1"
  by code_simp

lemma xtime_cycle_minimal: "xtime_no_return 254 2"
  by code_simp

lemma pow2_255: "gf256_pow2 255 = 1"
  using xtime_cycle by (simp add: xtime_iter_funpow gf256_pow2_def)

lemma pow2_neq_1: "0 < d \<Longrightarrow> d < 255 \<Longrightarrow> gf256_pow2 d \<noteq> 1"
proof -
  assume d: "0 < d" "d < 255"
  then obtain i where i: "d = Suc i" "i < 254" by (cases d) auto
  have "(gf256_xtime ^^ i) 2 \<noteq> 1"
    using xtime_cycle_minimal i(2) by (rule xtime_no_return_funpow)
  moreover have "gf256_xtime 1 = 2" by (simp add: gf256_xtime_def)
  ultimately show ?thesis by (simp add: gf256_pow2_def i(1) funpow_swap1)
qed

lemma funpow_xtime_inj: "(gf256_xtime ^^ m) a = (gf256_xtime ^^ m) b \<Longrightarrow> a = b"
  by (induction m) (auto dest: xtime_inj)

lemma pow2_neq_0: "gf256_pow2 i \<noteq> 0"
proof
  assume "gf256_pow2 i = 0"
  then have "(gf256_xtime ^^ i) 1 = (gf256_xtime ^^ i) 0"
    using xor_linear_0[OF xor_linear_funpow_xtime, of i] by (simp add: gf256_pow2_def)
  then have "(1 :: byte) = 0" by (rule funpow_xtime_inj)
  then show False by simp
qed

lemma pow2_inj: "inj_on gf256_pow2 {0..<255}"
proof (rule inj_onI)
  fix i j assume ij: "i \<in> {0..<255}" "j \<in> {0..<255}" "gf256_pow2 i = gf256_pow2 j"
  have aux: False if "i < j" "j < 255" "gf256_pow2 i = gf256_pow2 j" for i j
  proof -
    have "(gf256_xtime ^^ (i + (j - i))) 1 = (gf256_xtime ^^ i) ((gf256_xtime ^^ (j - i)) 1)"
      by (simp only: funpow_add o_apply)
    moreover have "i + (j - i) = j" using that(1) by simp
    ultimately have "(gf256_xtime ^^ i) (gf256_pow2 (j - i)) = gf256_pow2 j"
      by (simp add: gf256_pow2_def)
    then have "(gf256_xtime ^^ i) (gf256_pow2 (j - i)) = (gf256_xtime ^^ i) 1"
      using that(3) by (simp add: gf256_pow2_def)
    then have "gf256_pow2 (j - i) = 1" by (rule funpow_xtime_inj)
    moreover have "gf256_pow2 (j - i) \<noteq> 1" using that by (intro pow2_neq_1) simp_all
    ultimately show False by simp
  qed
  show "i = j"
  proof (rule ccontr)
    assume "i \<noteq> j"
    then consider "i < j" | "j < i" by linarith
    then show False using aux[of i j] aux[of j i] ij by cases auto
  qed
qed

lemma pow2_surj: "a \<noteq> 0 \<Longrightarrow> \<exists>i<255. a = gf256_pow2 i"
proof -
  assume a: "a \<noteq> 0"
  have sub: "gf256_pow2 ` {0..<255} \<subseteq> UNIV - {0}" using pow2_neq_0 by auto
  have "card (gf256_pow2 ` {0..<255}) = 255" using pow2_inj by (simp add: card_image)
  moreover have "card (UNIV - {0 :: byte}) = 255" by (simp add: card_Diff_singleton card_word)
  ultimately have "gf256_pow2 ` {0..<255} = UNIV - {0}"
    using sub by (intro card_subset_eq) simp_all
  then have "a \<in> gf256_pow2 ` {0..<255}" using a by simp
  then show ?thesis by auto
qed

lemma pow2_mult_255: "gf256_pow2 (255 * i) = 1"
proof (induction i)
  case 0
  then show ?case by (simp add: gf256_pow2_def)
next
  case (Suc i)
  have "gf256_pow2 (255 * Suc i) = gf256_mul (gf256_pow2 255) (gf256_pow2 (255 * i))"
    by (simp add: gf256_mul_pow2_pow2)
  then show ?case by (simp add: Suc pow2_255)
qed

lemma inv_loop_pow2:
  "gf256_inv_loop n (gf256_pow2 u) (gf256_pow2 t) = gf256_pow2 (u + t * (2 ^ n - 1))"
proof (induction n arbitrary: u t)
  case 0
  then show ?case by simp
next
  case (Suc n)
  have "1 \<le> (2::nat) ^ n" by simp
  then have e: "(2::nat) ^ Suc n - 1 = 2 * (2 ^ n - 1) + 1" by (simp only: power_Suc)
  have "gf256_inv_loop (Suc n) (gf256_pow2 u) (gf256_pow2 t) =
        gf256_inv_loop n (gf256_pow2 (u + t)) (gf256_pow2 (t + t))"
    by (simp add: gf256_mul_pow2_pow2)
  also have "\<dots> = gf256_pow2 (u + t + (t + t) * (2 ^ n - 1))" by (rule Suc.IH)
  also have "u + t + (t + t) * (2 ^ n - 1) = u + t * (2 ^ Suc n - 1)"
    unfolding e by (simp add: algebra_simps)
  finally show ?case .
qed

lemma gf256_inv_pow2: "gf256_inv (gf256_pow2 i) = gf256_pow2 (254 * i)"
proof -
  have "gf256_pow2 0 = 1" by (simp add: gf256_pow2_def)
  then have "gf256_inv (gf256_pow2 i) = gf256_inv_loop 7 (gf256_pow2 0) (gf256_pow2 (i + i))"
    by (simp only: gf256_inv_def gf256_mul_pow2_pow2)
  also have "\<dots> = gf256_pow2 (0 + (i + i) * (2 ^ 7 - 1))" by (rule inv_loop_pow2)
  also have "0 + (i + i) * (2 ^ 7 - 1) = 254 * i" by simp
  finally show ?thesis .
qed

lemma gf256_mul_inv: "a \<noteq> 0 \<Longrightarrow> gf256_mul a (gf256_inv a) = 1"
proof -
  assume "a \<noteq> 0"
  then obtain i where a: "a = gf256_pow2 i" using pow2_surj by blast
  have "gf256_mul a (gf256_inv a) = gf256_pow2 (i + 254 * i)"
    by (simp only: a gf256_inv_pow2 gf256_mul_pow2_pow2)
  also have "i + 254 * i = 255 * i" by simp
  finally show ?thesis by (simp only: pow2_mult_255)
qed

lemma inv_loop_0: "gf256_inv_loop n 1 0 = (if n = 0 then 1 else 0)"
proof -
  have "gf256_inv_loop n 0 0 = 0" for n by (induction n) simp_all
  then show ?thesis by (cases n) simp_all
qed

lemma gf256_inv_0 [simp]: "gf256_inv 0 = 0"
  by (simp add: gf256_inv_def inv_loop_0)

lemma gf256_mul_eq_0: "gf256_mul a b = 0 \<Longrightarrow> a = 0 \<or> b = 0"
proof (rule ccontr)
  assume h: "gf256_mul a b = 0" "\<not> (a = 0 \<or> b = 0)"
  then obtain i j where "a = gf256_pow2 i" "b = gf256_pow2 j" using pow2_surj by blast
  then have "gf256_mul a b = gf256_pow2 (i + j)" by (simp only: gf256_mul_pow2_pow2)
  then show False using h(1) pow2_neq_0 by simp
qed

subsection \<open>The field as a type\<close>

text \<open>
  The bytes with the collaborator's arithmetic, as an instance of the class of fields, so
  that sums and the field laws of the library apply.
\<close>

datatype gf = GF (gf_byte: byte)

instantiation gf :: field
begin

definition zero_gf :: gf where "zero_gf = GF 0"

definition one_gf :: gf where "one_gf = GF 1"

definition plus_gf :: "gf \<Rightarrow> gf \<Rightarrow> gf" where
  "plus_gf a b = GF (gf256_add (gf_byte a) (gf_byte b))"

definition minus_gf :: "gf \<Rightarrow> gf \<Rightarrow> gf" where
  "minus_gf a b = GF (gf256_add (gf_byte a) (gf_byte b))"

definition uminus_gf :: "gf \<Rightarrow> gf" where
  "uminus_gf a = a"

definition times_gf :: "gf \<Rightarrow> gf \<Rightarrow> gf" where
  "times_gf a b = GF (gf256_mul (gf_byte a) (gf_byte b))"

definition inverse_gf :: "gf \<Rightarrow> gf" where
  "inverse_gf a = GF (gf256_inv (gf_byte a))"

definition divide_gf :: "gf \<Rightarrow> gf \<Rightarrow> gf" where
  "divide_gf a b = GF (gf256_div (gf_byte a) (gf_byte b))"

instance
proof
  fix a b c :: gf
  show "a + b + c = a + (b + c)"
    by (simp add: plus_gf_def gf256_add_def ac_simps)
  show "a + b = b + a"
    by (simp add: plus_gf_def gf256_add_def ac_simps)
  show "0 + a = a"
    by (simp add: plus_gf_def zero_gf_def gf256_add_def)
  show "- a + a = 0"
    by (simp add: plus_gf_def zero_gf_def uminus_gf_def gf256_add_def)
  show "a - b = a + - b"
    by (simp add: plus_gf_def minus_gf_def uminus_gf_def)
  show "a * b * c = a * (b * c)"
    by (simp add: times_gf_def gf256_mul_assoc)
  show "a * b = b * a"
    by (simp add: times_gf_def gf256_mul_commute)
  show "1 * a = a"
    by (simp add: times_gf_def one_gf_def)
  show "(a + b) * c = a * c + b * c"
    using gf256_mul_linear_left[of "gf_byte c"]
    by (simp add: times_gf_def plus_gf_def gf256_add_def xor_linear_def)
  show "(0 :: gf) \<noteq> 1"
    by (simp add: zero_gf_def one_gf_def)
  show "a \<noteq> 0 \<Longrightarrow> inverse a * a = 1"
  proof -
    assume "a \<noteq> 0"
    then have "gf_byte a \<noteq> 0" by (cases a) (simp add: zero_gf_def)
    then have "gf256_mul (gf_byte a) (gf256_inv (gf_byte a)) = 1" by (rule gf256_mul_inv)
    then show ?thesis
      by (simp add: times_gf_def inverse_gf_def one_gf_def gf256_mul_commute)
  qed
  show "a div b = a * inverse b"
    by (simp add: divide_gf_def times_gf_def inverse_gf_def gf256_div_def)
  show "inverse (0 :: gf) = 0"
    by (simp add: inverse_gf_def zero_gf_def)
qed

end

lemma gf_add_self [simp]: "(a :: gf) + a = 0"
  by (simp add: plus_gf_def zero_gf_def gf256_add_def)

lemma gf_add_self_left [simp]: "(a :: gf) + (a + b) = b"
  by (simp flip: add.assoc)

lemma gf_minus [simp]: "- (a :: gf) = a"
  by (simp add: uminus_gf_def)

lemma gf_diff [simp]: "(a :: gf) - b = a + b"
  by (simp add: minus_gf_def plus_gf_def)

lemma GF_xor: "GF (a XOR b) = GF a + GF b"
  by (simp add: plus_gf_def gf256_add_def)

lemma GF_add: "GF (gf256_add a b) = GF a + GF b"
  by (simp add: plus_gf_def)

lemma GF_mul: "GF (gf256_mul a b) = GF a * GF b"
  by (simp add: times_gf_def)

lemma GF_div: "GF (gf256_div a b) = GF a / GF b"
  by (simp add: divide_gf_def)

lemma GF_0: "GF 0 = 0" and GF_1: "GF 1 = 1"
  by (simp_all add: zero_gf_def one_gf_def)

lemma GF_eq_0_iff [simp]: "GF a = 0 \<longleftrightarrow> a = 0"
  by (simp add: zero_gf_def)

lemma GF_add_eq_0_iff: "GF a + GF b = 0 \<longleftrightarrow> a = b"
proof
  assume "GF a + GF b = 0"
  then have "a XOR b = 0" by (simp add: plus_gf_def gf256_add_def zero_gf_def)
  then show "a = b" by (rule xor_eq_0D)
qed simp

lemma gf256_div_self: "a \<noteq> 0 \<Longrightarrow> gf256_div a a = 1"
  by (simp add: gf256_div_def gf256_mul_inv)

lemma gf256_div_mul_cancel: "b \<noteq> 0 \<Longrightarrow> gf256_mul (gf256_div a b) b = a"
proof -
  assume "b \<noteq> 0"
  then have "GF b \<noteq> 0" by simp
  then have "GF a / GF b * GF b = GF a" by simp
  then have "GF (gf256_mul (gf256_div a b) b) = GF a" by (simp only: GF_mul GF_div)
  then show ?thesis by simp
qed

section \<open>Matrix elements\<close>

lemma cint_of_nat: "0 \<le> sint (K :: cint) \<Longrightarrow> K = of_nat (nat (sint K))"
  by simp

lemma byte_of_cint_of_nat: "(ucast (of_nat n :: cint) :: byte) = of_nat n"
  by (rule bit_word_eqI) (simp add: bit_simps)

lemma unat_byte_of_nat: "n < 256 \<Longrightarrow> unat (of_nat n :: byte) = n"
  by (intro of_nat_inverse) simp_all

lemma byte_of_nat_neq: "n < 256 \<Longrightarrow> m < 256 \<Longrightarrow> n \<noteq> m \<Longrightarrow> (of_nat n :: byte) \<noteq> of_nat m"
  using unat_byte_of_nat by metis

lemma gf256_add_neq_0: "a \<noteq> b \<Longrightarrow> gf256_add a b \<noteq> 0"
  unfolding gf256_add_def by (blast dest: xor_eq_0D)

lemma encoder_x_i:
  assumes "0 \<le> sint (K :: cint)"
  shows "(ucast (K + of_nat r) :: byte) = of_nat (nat (sint K) + r)"
proof -
  have "K + of_nat r = (of_nat (nat (sint K) + r) :: cint)"
    using cint_of_nat[OF assms] by (metis of_nat_add)
  then show ?thesis by (simp only: byte_of_cint_of_nat)
qed

text \<open>
  Claim C5. \<open>GetMatrixElement\<close> is the quotient of \<open>y_j XOR x_0\<close> by
  \<open>x_i XOR y_j\<close>: it is what \<open>gf256_div\<close> returns on the two, and where the
  denominator is not zero its product with the denominator is the numerator. With
  \<open>x_i = x_0\<close> and a denominator that is not zero the element is 1.
\<close>

theorem GetMatrixElement_quotient:
  "GetMatrixElement x_i x_0 y_j = gf256_div (y_j XOR x_0) (x_i XOR y_j) \<and>
   (x_i XOR y_j \<noteq> 0 \<longrightarrow>
      gf256_mul (GetMatrixElement x_i x_0 y_j) (x_i XOR y_j) = y_j XOR x_0) \<and>
   (x_i = x_0 \<longrightarrow> x_i XOR y_j \<noteq> 0 \<longrightarrow> GetMatrixElement x_i x_0 y_j = 1)"
proof (intro conjI impI)
  show "GetMatrixElement x_i x_0 y_j = gf256_div (y_j XOR x_0) (x_i XOR y_j)"
    by (simp add: GetMatrixElement_def gf256_add_def)
  show "gf256_mul (GetMatrixElement x_i x_0 y_j) (x_i XOR y_j) = y_j XOR x_0"
    if "x_i XOR y_j \<noteq> 0"
    using that by (simp add: GetMatrixElement_def gf256_add_def gf256_div_mul_cancel)
  show "GetMatrixElement x_i x_0 y_j = 1" if "x_i = x_0" "x_i XOR y_j \<noteq> 0"
  proof -
    have "y_j XOR x_0 = x_i XOR y_j" using that(1) by (simp add: ac_simps)
    then show ?thesis using that(2)
      by (simp add: GetMatrixElement_def gf256_add_def gf256_div_self)
  qed
qed

theorem GetMatrixElement_quotient_witness:
  "(4 :: byte) XOR 1 \<noteq> 0 \<and> GetMatrixElement 4 4 1 = 1 \<and>
   gf256_mul (GetMatrixElement 4 4 1) (4 XOR 1) = 1 XOR 4"
proof -
  have h: "(4 :: byte) XOR 1 \<noteq> 0" by simp
  from GetMatrixElement_quotient[of 4 4 1] h
  have "GetMatrixElement 4 4 1 = 1"
    and "gf256_mul (GetMatrixElement 4 4 1) (4 XOR 1) = 1 XOR 4" by blast+
  then show ?thesis using h by blast
qed

section \<open>No call of the matrix element generator divides by zero\<close>

lemma GetMatrixElement_guarded_Some:
  "x_i \<noteq> y_j \<Longrightarrow> GetMatrixElement_guarded x_i x_0 y_j = Some (GetMatrixElement x_i x_0 y_j)"
  by (simp add: GetMatrixElement_guarded_def gf256_add_neq_0)

lemma encoder_denominator:
  assumes "1 \<le> sint (K :: cint)" and "sint K + int m \<le> 256" and "r < m" and "j < nat (sint K)"
  shows "(ucast (K + of_nat r) :: byte) \<noteq> of_nat j"
proof -
  have k0: "0 \<le> sint K" using assms(1) by simp
  have "nat (sint K) + r < 256" using assms by linarith
  moreover have "j < 256" "nat (sint K) + r \<noteq> j" using assms(4) calculation by simp_all
  ultimately have "(of_nat (nat (sint K) + r) :: byte) \<noteq> of_nat j"
    by (intro byte_of_nat_neq) simp_all
  then show ?thesis unfolding encoder_x_i[OF k0] .
qed

lemma encode_row_loop_guarded:
  "\<forall>j\<in>set js. x_i \<noteq> of_nat j \<Longrightarrow>
   foldl (encode_row_step_guarded originals n x_i x_0) (Some rb) js =
   Some (foldl (encode_row_step originals n x_i x_0) rb js)"
proof (induction js arbitrary: rb)
  case Nil
  then show ?case by simp
next
  case (Cons j js)
  have "encode_row_step_guarded originals n x_i x_0 (Some rb) j =
        Some (encode_row_step originals n x_i x_0 rb j)"
    using Cons.prems
    by (simp add: encode_row_step_guarded_def encode_row_step_def GetMatrixElement_guarded_Some)
  then show ?case using Cons by simp
qed

lemma cm256_encode_block_guarded_eq:
  assumes "1 \<le> sint (OriginalCount params)"
    and "sint (OriginalCount params) + int m \<le> 256" and "r < m"
  shows "cm256_encode_block_guarded params originals (OriginalCount params + of_nat r) rb =
         Some (cm256_encode_block params originals (OriginalCount params + of_nat r) rb)"
proof -
  let ?x = "ucast (OriginalCount params + of_nat r) :: byte"
  have ne: "\<And>j. j < nat (sint (OriginalCount params)) \<Longrightarrow> ?x \<noteq> of_nat j"
    using encoder_denominator[OF assms] by blast
  have "0 < nat (sint (OriginalCount params))" using assms(1) by simp
  then have "?x \<noteq> of_nat 0" by (rule ne)
  then have first: "GetMatrixElement_guarded ?x (ucast (OriginalCount params)) 0 =
           Some (GetMatrixElement ?x (ucast (OriginalCount params)) 0)"
    by (intro GetMatrixElement_guarded_Some) simp
  have rest: "\<forall>j\<in>set [1..<nat (sint (OriginalCount params))]. ?x \<noteq> of_nat j"
    using ne by simp
  show ?thesis
    unfolding cm256_encode_block_guarded_def cm256_encode_block_def first option.case
    by (simp only: encode_row_loop_guarded[OF rest] if_distrib[of Some, symmetric])
qed

lemma cm256_encode_loop_guarded:
  assumes "1 \<le> sint (OriginalCount params)"
    and "sint (OriginalCount params) + int m \<le> 256" and "\<forall>r\<in>set rs. r < m"
  shows "foldl (cm256_encode_step_guarded params os) (Some rb) rs =
         Some (foldl (cm256_encode_step params os) rb rs)"
  using assms(3)
proof (induction rs arbitrary: rb)
  case Nil
  then show ?case by simp
next
  case (Cons r rs)
  then have r: "r < m" by simp
  have "cm256_encode_step_guarded params os (Some rb) r = Some (cm256_encode_step params os rb r)"
    by (simp add: cm256_encode_step_guarded_def cm256_encode_step_def
        cm256_encode_block_guarded_eq[OF assms(1,2) r])
  then show ?case using Cons by simp
qed

lemma cm256_encode_guarded_eq:
  assumes "1 \<le> sint (OriginalCount params)" and "1 \<le> sint (RecoveryCount params)"
    and "sint (OriginalCount params) + sint (RecoveryCount params) \<le> 256"
  shows "cm256_encode_guarded params originals recoveryBlocks =
         Some (cm256_encode params originals recoveryBlocks)"
proof -
  have m: "sint (OriginalCount params) + int (nat (sint (RecoveryCount params))) \<le> 256"
    using assms(2,3) by simp
  have loop: "\<And>os rb. foldl (cm256_encode_step_guarded params os) (Some rb)
                 [0..<nat (sint (RecoveryCount params))] =
               Some (foldl (cm256_encode_step params os) rb [0..<nat (sint (RecoveryCount params))])"
    by (rule cm256_encode_loop_guarded[OF assms(1) m]) simp
  show ?thesis
    unfolding cm256_encode_guarded_def cm256_encode_def loop
    by (simp split: option.splits)
qed

lemma Initialize_blocks_zero:
  "fst (Initialize_blocks params blocks ps d) = 0 \<Longrightarrow>
   snd (Initialize_blocks params blocks ps d) =
     Initialize_erasures [0..<256] 0 (foldl (classify_step params blocks) d ps)"
proof (induction ps arbitrary: d)
  case Nil
  then show ?case by simp
next
  case (Cons h t)
  show ?case
  proof (cases "is_original params blocks h")
    case True
    then have o: "uint (Index (blocks ! h)) < sint (OriginalCount params)"
      by (simp add: is_original_def)
    have z: "ErasuresIndices d ! unat (Index (blocks ! h)) = 0"
    proof (rule ccontr)
      assume "ErasuresIndices d ! unat (Index (blocks ! h)) \<noteq> 0"
      then have "fst (Initialize_blocks params blocks (h # t) d) = - 1" using o by simp
      then show False using Cons.prems by simp
    qed
    have step: "Initialize_blocks params blocks (h # t) d =
                Initialize_blocks params blocks t (classify_step params blocks d h)"
      using o z True by (simp add: classify_step_def)
    then have "fst (Initialize_blocks params blocks t (classify_step params blocks d h)) = 0"
      using Cons.prems by simp
    from Cons.IH[OF this] show ?thesis by (simp only: step foldl_Cons)
  next
    case False
    then have o: "\<not> uint (Index (blocks ! h)) < sint (OriginalCount params)"
      by (simp add: is_original_def)
    have step: "Initialize_blocks params blocks (h # t) d =
                Initialize_blocks params blocks t (classify_step params blocks d h)"
      using o False by (simp add: classify_step_def)
    then have "fst (Initialize_blocks params blocks t (classify_step params blocks d h)) = 0"
      using Cons.prems by simp
    from Cons.IH[OF this] show ?thesis by (simp only: step foldl_Cons)
  qed
qed

lemma Initialize_classes:
  assumes k0: "0 \<le> sint (OriginalCount params)" and k256: "sint (OriginalCount params) \<le> 256"
    and lE: "length (ErasuresIndices decoder) = 256"
    and lR: "length (Recovery decoder) = 256"
    and lO: "length (Original decoder) = 256"
    and ok: "fst (Initialize decoder params blocks) = 0"
  defines "d \<equiv> snd (Initialize decoder params blocks)"
  shows "Params d = params"
    and "\<forall>oi<OriginalCount' d. Original d ! oi < nat (sint (OriginalCount params)) \<and>
            is_original params blocks (Original d ! oi)"
    and "\<forall>ri<RecoveryCount' d. Recovery d ! ri < nat (sint (OriginalCount params)) \<and>
            \<not> is_original params blocks (Recovery d ! ri)"
proof -
  define k where "k = nat (sint (OriginalCount params))"
  have k: "k \<le> 256" using k256 by (simp add: k_def)
  let ?d1 = "decoder\<lparr>Params := params, OriginalCount' := 0, RecoveryCount' := 0\<rparr>"
  let ?d2 = "foldl Initialize_zero_step ?d1 [0..<k]"
  let ?d3 = "foldl (classify_step params blocks) ?d2 [0..<k]"
  let ?origs = "filter (is_original params blocks) [0..<k]"
  let ?recs = "filter (\<lambda>p. \<not> is_original params blocks p) [0..<k]"
  have "fst (Initialize_blocks params blocks [0..<k] ?d2) = 0"
    using ok by (simp add: Initialize_def k_def)
  then have d: "d = Initialize_erasures [0..<256] 0 ?d3"
    unfolding d_def Initialize_def k_def[symmetric] by (rule Initialize_blocks_zero)
  have lE3: "length (ErasuresIndices ?d3) = 256" using lE by simp
  have scan: "Params d = Params ?d3 \<and> Recovery d = Recovery ?d3 \<and> Original d = Original ?d3 \<and>
         RecoveryCount' d = RecoveryCount' ?d3 \<and> OriginalCount' d = OriginalCount' ?d3"
    using Initialize_erasures_scan[of "[0..<256]" 0 ?d3] lE3 unfolding d by simp
  have OC3: "OriginalCount' ?d3 = length ?origs" and RC3: "RecoveryCount' ?d3 = length ?recs"
    by simp_all
  have sumk: "length ?origs + length ?recs = k"
    using sum_length_filter_compl[of "is_original params blocks" "[0..<k]"] by simp
  have O3: "take (length ?origs) (Original ?d3) = ?origs"
    using classify_Original[of ?d2 params blocks "[0..<k]"] sumk k lO by simp
  have R3: "take (length ?recs) (Recovery ?d3) = ?recs"
    using classify_Recovery[of ?d2 params blocks "[0..<k]"] sumk k lR by simp
  show "Params d = params" using scan by simp
  show "\<forall>oi<OriginalCount' d. Original d ! oi < nat (sint (OriginalCount params)) \<and>
            is_original params blocks (Original d ! oi)"
  proof (intro allI impI)
    fix oi assume "oi < OriginalCount' d"
    then have oi: "oi < length ?origs" using scan OC3 by simp
    then have "take (length ?origs) (Original ?d3) ! oi = Original ?d3 ! oi" by simp
    then have e: "Original d ! oi = ?origs ! oi" using scan by (simp only: O3)
    have "?origs ! oi \<in> set ?origs" using oi by (rule nth_mem)
    then show "Original d ! oi < nat (sint (OriginalCount params)) \<and>
            is_original params blocks (Original d ! oi)"
      unfolding e by (simp add: k_def)
  qed
  show "\<forall>ri<RecoveryCount' d. Recovery d ! ri < nat (sint (OriginalCount params)) \<and>
            \<not> is_original params blocks (Recovery d ! ri)"
  proof (intro allI impI)
    fix ri assume "ri < RecoveryCount' d"
    then have ri: "ri < length ?recs" using scan RC3 by simp
    then have "take (length ?recs) (Recovery ?d3) ! ri = Recovery ?d3 ! ri" by simp
    then have e: "Recovery d ! ri = ?recs ! ri" using scan by (simp only: R3)
    have "?recs ! ri \<in> set ?recs" using ri by (rule nth_mem)
    then show "Recovery d ! ri < nat (sint (OriginalCount params)) \<and>
            \<not> is_original params blocks (Recovery d ! ri)"
      unfolding e by (simp add: k_def)
  qed
qed

lemma length_set_Block [simp]: "length (set_Block blocks p buf) = length blocks"
  by (simp add: set_Block_def)

lemma map_Index_set_Block [simp]: "map Index (set_Block blocks p buf) = map Index blocks"
proof (cases "p < length blocks")
  case True
  then have "(map Index blocks)[p := map Index blocks ! p] = map Index blocks"
    by (intro list_update_id)
  then show ?thesis using True by (simp add: set_Block_def map_update)
next
  case False
  then have "blocks[p := (blocks ! p)\<lparr>Block := buf\<rparr>] = blocks"
    by (intro list_update_beyond) simp
  then show ?thesis by (simp add: set_Block_def)
qed

lemma Index_nth_cong:
  "map Index bl' = map Index bl \<Longrightarrow> p < length bl \<Longrightarrow> Index (bl' ! p) = Index (bl ! p)"
proof -
  assume a: "map Index bl' = map Index bl" and p: "p < length bl"
  have "length bl' = length bl" using a by (rule map_eq_imp_length_eq)
  then have "map Index bl' ! p = Index (bl' ! p)" "map Index bl ! p = Index (bl ! p)"
    using p by simp_all
  then show ?thesis using a by simp
qed

lemma Decode_cancel_step_Index [simp]:
  "map Index (Decode_cancel_step decoder inBlock inRow blocks ri) = map Index blocks"
  by (simp add: Decode_cancel_step_def)

lemma Decode_cancel_loop_Index [simp]:
  "map Index (foldl (Decode_cancel_step decoder inBlock inRow) blocks rs) = map Index blocks"
  by (induction rs arbitrary: blocks) simp_all

lemma Decode_cancel_Index [simp]:
  "map Index (Decode_cancel decoder blocks oi) = map Index blocks"
  by (simp add: Decode_cancel_def)

lemma Decode_cancel_pass_Index [simp]:
  "map Index (foldl (Decode_cancel decoder) blocks os) = map Index blocks"
  by (induction os arbitrary: blocks) simp_all

lemma Decode_cancel_loop_guarded:
  assumes "\<forall>ri\<in>set rs. Recovery d ! ri < length bl0 \<and> Index (bl0 ! (Recovery d ! ri)) \<noteq> inRow"
    and "map Index bl = map Index bl0"
  shows "foldl (Decode_cancel_step_guarded d inBlock inRow) (Some bl) rs =
         Some (foldl (Decode_cancel_step d inBlock inRow) bl rs)"
  using assms
proof (induction rs arbitrary: bl)
  case Nil
  then show ?case by simp
next
  case (Cons ri rs)
  have "Index (bl ! (Recovery d ! ri)) = Index (bl0 ! (Recovery d ! ri))"
    using Cons.prems by (intro Index_nth_cong) simp_all
  then have "Index (bl ! (Recovery d ! ri)) \<noteq> inRow" using Cons.prems by simp
  then have step: "Decode_cancel_step_guarded d inBlock inRow (Some bl) ri =
             Some (Decode_cancel_step d inBlock inRow bl ri)"
    by (simp add: Decode_cancel_step_guarded_def Decode_cancel_step_def
        GetMatrixElement_guarded_Some)
  have "map Index (Decode_cancel_step d inBlock inRow bl ri) = map Index bl0"
    using Cons.prems by simp
  then show ?case using Cons.IH[of "Decode_cancel_step d inBlock inRow bl ri"] Cons.prems
    by (simp add: step)
qed

lemma Decode_cancel_guarded_eq:
  assumes rec: "\<forall>ri<RecoveryCount' d. Recovery d ! ri < length bl0 \<and>
                  \<not> is_original params bl0 (Recovery d ! ri)"
    and orig: "Original d ! oi < length bl0" "is_original params bl0 (Original d ! oi)"
    and idx: "map Index bl = map Index bl0"
  shows "Decode_cancel_guarded d (Some bl) oi = Some (Decode_cancel d bl oi)"
proof -
  let ?inRow = "Index (bl ! (Original d ! oi))"
  have inRow: "?inRow = Index (bl0 ! (Original d ! oi))"
    using idx orig(1) by (rule Index_nth_cong)
  have "\<forall>ri\<in>set [0..<RecoveryCount' d].
          Recovery d ! ri < length bl0 \<and> Index (bl0 ! (Recovery d ! ri)) \<noteq> ?inRow"
  proof
    fix ri assume "ri \<in> set [0..<RecoveryCount' d]"
    then have r: "Recovery d ! ri < length bl0" "\<not> is_original params bl0 (Recovery d ! ri)"
      using rec by simp_all
    have "Index (bl0 ! (Recovery d ! ri)) \<noteq> Index (bl0 ! (Original d ! oi))"
      using r(2) orig(2) by (auto simp: is_original_def)
    then show "Recovery d ! ri < length bl0 \<and> Index (bl0 ! (Recovery d ! ri)) \<noteq> ?inRow"
      using r(1) inRow by simp
  qed
  from Decode_cancel_loop_guarded[OF this idx] show ?thesis
    by (simp add: Decode_cancel_guarded_def Decode_cancel_def)
qed

lemma Decode_cancel_pass_guarded:
  assumes rec: "\<forall>ri<RecoveryCount' d. Recovery d ! ri < length bl0 \<and>
                  \<not> is_original params bl0 (Recovery d ! ri)"
    and orig: "\<forall>oi\<in>set os. Original d ! oi < length bl0 \<and>
                  is_original params bl0 (Original d ! oi)"
    and idx: "map Index bl = map Index bl0"
  shows "foldl (Decode_cancel_guarded d) (Some bl) os = Some (foldl (Decode_cancel d) bl os)"
  using orig idx
proof (induction os arbitrary: bl)
  case Nil
  then show ?case by simp
next
  case (Cons oi os)
  have o: "Original d ! oi < length bl0" "is_original params bl0 (Original d ! oi)"
    using Cons.prems by simp_all
  have step: "Decode_cancel_guarded d (Some bl) oi = Some (Decode_cancel d bl oi)"
    by (rule Decode_cancel_guarded_eq[OF rec o Cons.prems(2)])
  have "map Index (Decode_cancel d bl oi) = map Index bl0" using Cons.prems by simp
  then show ?case using Cons.IH[of "Decode_cancel d bl oi"] Cons.prems by (simp add: step)
qed

lemma Decode_guarded_eq:
  assumes "foldl (Decode_cancel_guarded d) (Some bl) [0..<OriginalCount' d] =
           Some (foldl (Decode_cancel d) bl [0..<OriginalCount' d])"
  shows "Decode_guarded d scratch bl = Some (Decode d scratch bl)"
  unfolding Decode_guarded_def Decode_def assms option.case Let_def ..

lemma cm256_decode_guarded_eq:
  assumes v: "1 \<le> sint (OriginalCount params)" "1 \<le> sint (RecoveryCount params)"
    "sint (OriginalCount params) + sint (RecoveryCount params) \<le> 256"
    and len: "length blocks = nat (sint (OriginalCount params))"
    and lE: "length (ErasuresIndices state) = 256"
    and lR: "length (Recovery state) = 256"
    and lO: "length (Original state) = 256"
  shows "cm256_decode_guarded params state scratch (Some blocks) =
         Some (cm256_decode params state scratch (Some blocks))"
proof (cases "fst (Initialize state params blocks) = 0")
  case False
  then show ?thesis by (simp add: cm256_decode_guarded_def cm256_decode_def)
next
  case True
  define d where "d = snd (Initialize state params blocks)"
  have k: "0 \<le> sint (OriginalCount params)" "sint (OriginalCount params) \<le> 256"
    using v by simp_all
  note cl = Initialize_classes[OF k lE lR lO True, folded d_def]
  have rec: "\<forall>ri<RecoveryCount' d. Recovery d ! ri < length blocks \<and>
                  \<not> is_original params blocks (Recovery d ! ri)"
    using cl(3) len by simp
  have orig: "\<forall>oi\<in>set [0..<OriginalCount' d]. Original d ! oi < length blocks \<and>
                  is_original params blocks (Original d ! oi)"
    using cl(2) len by simp
  have "foldl (Decode_cancel_guarded d) (Some blocks) [0..<OriginalCount' d] =
        Some (foldl (Decode_cancel d) blocks [0..<OriginalCount' d])"
    by (rule Decode_cancel_pass_guarded[OF rec orig refl])
  then have "Decode_guarded d scratch blocks = Some (Decode d scratch blocks)"
    by (rule Decode_guarded_eq)
  then have "Decode_guarded (snd (Initialize state params blocks)) scratch blocks =
             Some (Decode (snd (Initialize state params blocks)) scratch blocks)"
    by (simp only: d_def)
  then show ?thesis
    unfolding cm256_decode_guarded_def cm256_decode_def by simp
qed

text \<open>
  Claim C6. With valid parameters no call of \<open>GetMatrixElement\<close> divides by zero. For the
  encoder: \<open>cm256_encode\<close> with the division guarded never yields the failure, on any
  originals and output region, and returns what \<open>cm256_encode\<close> returns; its calls
  are those of \<open>cm256_encode_block\<close>, with \<open>x_i\<close> the byte of \<open>OriginalCount + r\<close> and
  \<open>y_j\<close> the byte of \<open>j < OriginalCount\<close>. For the decoder: \<open>cm256_decode\<close> with the
  division guarded, on \<open>OriginalCount\<close> descriptors and any uninitialised state, never
  yields the failure and returns what \<open>cm256_decode\<close> returns; its calls are those of the
  cancellation pass of \<open>Decode\<close>, with \<open>x_i\<close> the index of a descriptor that
  \<open>Initialize\<close> put in the \<open>Recovery\<close> array and \<open>y_j\<close> that of one it put in the
  \<open>Original\<close> array. Nothing is assumed of the indices that the caller supplies.
\<close>

theorem GetMatrixElement_calls_divide_safely:
  assumes "1 \<le> sint (OriginalCount params)" and "1 \<le> sint (RecoveryCount params)"
    and "sint (OriginalCount params) + sint (RecoveryCount params) \<le> 256"
  shows "cm256_encode_guarded params originals recoveryBlocks =
           Some (cm256_encode params originals recoveryBlocks) \<and>
         (length blocks = nat (sint (OriginalCount params)) \<and>
          length (ErasuresIndices state) = 256 \<and> length (Recovery state) = 256 \<and>
          length (Original state) = 256 \<longrightarrow>
          cm256_decode_guarded params state scratch (Some blocks) =
            Some (cm256_decode params state scratch (Some blocks)))"
  using cm256_encode_guarded_eq[OF assms] cm256_decode_guarded_eq[OF assms] by blast

theorem GetMatrixElement_calls_divide_safely_witness:
  "cm256_encode_guarded \<lparr>BlockBytes = 1, OriginalCount = 3, RecoveryCount = 2\<rparr>
     (Some [\<lparr>Block = [1], Index = 0\<rparr>, \<lparr>Block = [2], Index = 1\<rparr>, \<lparr>Block = [3], Index = 2\<rparr>])
     (Some [0, 0]) =
   Some (cm256_encode \<lparr>BlockBytes = 1, OriginalCount = 3, RecoveryCount = 2\<rparr>
     (Some [\<lparr>Block = [1], Index = 0\<rparr>, \<lparr>Block = [2], Index = 1\<rparr>, \<lparr>Block = [3], Index = 2\<rparr>])
     (Some [0, 0])) \<and>
   cm256_decode_guarded \<lparr>BlockBytes = 1, OriginalCount = 3, RecoveryCount = 2\<rparr>
     (uninit_decoder 0xFF) (uninit_scratch 0xFF)
     (Some [\<lparr>Block = [1], Index = 4\<rparr>, \<lparr>Block = [2], Index = 1\<rparr>, \<lparr>Block = [3], Index = 4\<rparr>]) =
   Some (cm256_decode \<lparr>BlockBytes = 1, OriginalCount = 3, RecoveryCount = 2\<rparr>
     (uninit_decoder 0xFF) (uninit_scratch 0xFF)
     (Some [\<lparr>Block = [1], Index = 4\<rparr>, \<lparr>Block = [2], Index = 1\<rparr>, \<lparr>Block = [3], Index = 4\<rparr>]))"
proof -
  let ?p = "\<lparr>BlockBytes = 1, OriginalCount = 3, RecoveryCount = 2\<rparr> :: cm256_encoder_params"
  let ?bl = "[\<lparr>Block = [1], Index = 4\<rparr>, \<lparr>Block = [2], Index = 1\<rparr>, \<lparr>Block = [3], Index = 4\<rparr>] :: cm256_block list"
  have v: "1 \<le> sint (OriginalCount ?p)" "1 \<le> sint (RecoveryCount ?p)"
    "sint (OriginalCount ?p) + sint (RecoveryCount ?p) \<le> 256" by simp_all
  have h: "length ?bl = nat (sint (OriginalCount ?p)) \<and>
    length (ErasuresIndices (uninit_decoder 0xFF)) = 256 \<and>
    length (Recovery (uninit_decoder 0xFF)) = 256 \<and>
    length (Original (uninit_decoder 0xFF)) = 256"
    by (simp add: uninit_decoder_def)
  note T = GetMatrixElement_calls_divide_safely[OF v, of _ _ ?bl "uninit_decoder 0xFF"]
  show ?thesis
    by (intro conjI) (rule T[THEN conjunct1], rule T[THEN conjunct2, rule_format, OF h])
qed

section \<open>LDU factorisation\<close>

subsection \<open>Places in the packed triangles\<close>

lemma tri_mono: "a \<le> b \<Longrightarrow> tri a \<le> tri b"
  by (induction b) (auto simp: le_Suc_eq)

lemma tri_double: "2 * tri n = n * (n + 1)"
  by (induction n) simp_all

lemma tri_closed: "((N - 1) * N) div 2 = tri (N - 1)"
proof (cases N)
  case 0
  then show ?thesis by simp
next
  case (Suc n)
  have "2 * tri n = n * (n + 1)" by (rule tri_double)
  then show ?thesis using Suc by (metis Suc_eq_plus1 diff_Suc_1 nonzero_mult_div_cancel_left zero_neq_numeral)
qed

lemma tri_pred: "0 < j \<Longrightarrow> tri j = tri (j - 1) + j"
  by (cases j) simp_all

lemma L_col_mono: "k \<le> k' \<Longrightarrow> L_col N k \<le> L_col N k'"
  by (induction k') (auto simp: le_Suc_eq)

lemma L_col_tri: "k \<le> N - 1 \<Longrightarrow> L_col N k + tri (N - 1 - k) = tri (N - 1)"
proof (induction k)
  case 0
  then show ?case by simp
next
  case (Suc k)
  then have "L_col N k + tri (N - 1 - k) = tri (N - 1)" by simp
  moreover have "tri (N - 1 - k) = tri (N - 1 - Suc k) + (N - 1 - k)"
    using Suc.prems tri_pred[of "N - 1 - k"] by simp
  ultimately show ?case by simp
qed

lemma L_col_le: "k \<le> N - 1 \<Longrightarrow> L_col N k \<le> tri (N - 1)"
  using L_col_tri[of k N] by simp

lemma L_index_bounds:
  assumes "k < j" "j < N"
  shows "L_col N k \<le> L_index N j k" "L_index N j k < L_col N (Suc k)"
    "L_index N j k < tri (N - 1)"
proof -
  show "L_col N k \<le> L_index N j k" by (simp add: L_index_def)
  show a: "L_index N j k < L_col N (Suc k)" using assms by (simp add: L_index_def)
  have "L_col N (Suc k) \<le> tri (N - 1)" using assms by (intro L_col_le) simp
  then show "L_index N j k < tri (N - 1)" using a by simp
qed

lemma L_index_inj:
  assumes "k < j" "j < N" "k' < j'" "j' < N" "L_index N j k = L_index N j' k'"
  shows "j = j' \<and> k = k'"
proof -
  have kk: "k = k'"
  proof (rule ccontr)
    assume "k \<noteq> k'"
    then consider "k < k'" | "k' < k" by linarith
    then show False
    proof cases
      case 1
      then have "L_col N (Suc k) \<le> L_col N k'" by (intro L_col_mono) simp
      then show False
        using L_index_bounds(2)[OF assms(1,2)] L_index_bounds(1)[OF assms(3,4)] assms(5) by simp
    next
      case 2
      then have "L_col N (Suc k') \<le> L_col N k" by (intro L_col_mono) simp
      then show False
        using L_index_bounds(2)[OF assms(3,4)] L_index_bounds(1)[OF assms(1,2)] assms(5) by simp
    qed
  qed
  then show ?thesis using assms by (simp add: L_index_def)
qed

lemma U_index_int:
  assumes "k < j" "j < N"
  shows "int (U_index N k j) = int (tri (N - 1)) - 1 - int k - int (tri (j - 1))"
proof -
  have "tri j \<le> tri (N - 1)" using assms by (intro tri_mono) simp
  moreover have "tri j = tri (j - 1) + j" using assms by (intro tri_pred) simp
  ultimately show ?thesis using assms by (simp add: U_index_def)
qed

lemma U_index_bounds:
  assumes "k < j" "j < N"
  shows "tri (N - 1) - tri j \<le> U_index N k j" "U_index N k j < tri (N - 1) - tri (j - 1)"
    "U_index N k j < tri (N - 1)"
proof -
  have a: "tri j \<le> tri (N - 1)" using assms by (intro tri_mono) simp
  have b: "tri j = tri (j - 1) + j" using assms by (intro tri_pred) simp
  show "tri (N - 1) - tri j \<le> U_index N k j" by (simp add: U_index_def)
  show c: "U_index N k j < tri (N - 1) - tri (j - 1)"
    using a b assms by (simp add: U_index_def)
  then show "U_index N k j < tri (N - 1)" by simp
qed

lemma U_index_inj:
  assumes "k < j" "j < N" "k' < j'" "j' < N" "U_index N k j = U_index N k' j'"
  shows "j = j' \<and> k = k'"
proof -
  have jj: "j = j'"
  proof (rule ccontr)
    assume "j \<noteq> j'"
    then consider "j < j'" | "j' < j" by linarith
    then show False
    proof cases
      case 1
      then have "tri j \<le> tri (j' - 1)" by (intro tri_mono) simp
      then have "tri (N - 1) - tri (j' - 1) \<le> tri (N - 1) - tri j" by simp
      then show False
        using U_index_bounds(2)[OF assms(3,4)] U_index_bounds(1)[OF assms(1,2)] assms(5) by simp
    next
      case 2
      then have "tri j' \<le> tri (j - 1)" by (intro tri_mono) simp
      then have "tri (N - 1) - tri (j - 1) \<le> tri (N - 1) - tri j'" by simp
      then show False
        using U_index_bounds(2)[OF assms(1,2)] U_index_bounds(1)[OF assms(3,4)] assms(5) by simp
    qed
  qed
  have "tri j \<le> tri (N - 1)" using assms by (intro tri_mono) simp
  then show ?thesis using assms jj by (simp add: U_index_def)
qed

subsection \<open>The loops of the factorisation\<close>

lemma length_div_mem_at [simp]: "length (div_mem_at buf off c count) = length buf"
  by (simp add: div_mem_at_def)

lemma length_mul_mem_at [simp]: "length (mul_mem_at buf off c count) = length buf"
  by (simp add: mul_mem_at_def)

lemma nth_div_mem_at:
  assumes "off + count \<le> length buf" "p < length buf"
  shows "div_mem_at buf off c count ! p =
         (if off \<le> p \<and> p < off + count then gf256_div (buf ! p) c else buf ! p)"
proof (cases "p < off")
  case True
  then show ?thesis using assms by (simp add: div_mem_at_def nth_append)
next
  case False
  then have "div_mem_at buf off c count ! p =
             gf256_div_mem (drop off buf) (drop off buf) c count ! (p - off)"
    using assms by (simp add: div_mem_at_def nth_append)
  also have "\<dots> = (if p - off < count then gf256_div (drop off buf ! (p - off)) c
                    else drop off buf ! (p - off))"
    using assms False by (intro nth_gf256_div_mem) simp_all
  finally show ?thesis using assms False by auto
qed

lemma nth_mul_mem_at:
  assumes "off + count \<le> length buf" "p < length buf"
  shows "mul_mem_at buf off c count ! p =
         (if off \<le> p \<and> p < off + count then gf256_mul c (buf ! p) else buf ! p)"
proof (cases "p < off")
  case True
  then show ?thesis using assms by (simp add: mul_mem_at_def nth_append)
next
  case False
  then have "mul_mem_at buf off c count ! p =
             gf256_mul_mem (drop off buf) (drop off buf) c count ! (p - off)"
    using assms by (simp add: mul_mem_at_def nth_append)
  also have "\<dots> = (if p - off < count then gf256_mul c (drop off buf ! (p - off))
                    else drop off buf ! (p - off))"
    using assms False by (intro nth_gf256_mul_mem) simp_all
  finally show ?thesis using assms False by auto
qed

lemma ldu_init_loop:
  "matrix_mem (foldl ldu_init_step s is) = matrix_mem s"
  "rotated_row_U (foldl ldu_init_step s is) = rotated_row_U s"
  "matrix_L (foldl ldu_init_step s is) = matrix_L s"
  "row_U (foldl ldu_init_step s is) = row_U s"
  "output_U (foldl ldu_init_step s is) = output_U s"
  "firstOffset_U (foldl ldu_init_step s is) = firstOffset_U s"
  "length (gen_g (foldl ldu_init_step s is)) = length (gen_g s)"
  "length (gen_b (foldl ldu_init_step s is)) = length (gen_b s)"
  by (induction "is" arbitrary: s; simp add: ldu_init_step_def)+

lemma ldu_init_loop_nth:
  "i < length (gen_g s) \<Longrightarrow>
     gen_g (foldl ldu_init_step s is) ! i = (if i \<in> set is then 1 else gen_g s ! i)"
  "i < length (gen_b s) \<Longrightarrow>
     gen_b (foldl ldu_init_step s is) ! i = (if i \<in> set is then 1 else gen_b s ! i)"
  by (induction "is" arbitrary: s; auto simp: ldu_init_step_def nth_list_update)+

lemma ldu_row_step_fields:
  "matrix_L (ldu_row_step d bl k s j) = matrix_L s + 1"
  "row_U (ldu_row_step d bl k s j) = row_U s + 1"
  "output_U (ldu_row_step d bl k s j) = output_U s"
  "firstOffset_U (ldu_row_step d bl k s j) = firstOffset_U s"
  "matrix_mem (ldu_row_step d bl k s j) =
     (matrix_mem s)[matrix_L s := gf256_div (gen_g s ! j) (gf256_add (rec_x d bl j) (era_y d k))]"
  "rotated_row_U (ldu_row_step d bl k s j) =
     (rotated_row_U s)[row_U s := gf256_div (gen_b s ! j) (gf256_add (rec_x d bl k) (era_y d j))]"
  "gen_g (ldu_row_step d bl k s j) =
     (gen_g s)[j := gf256_mul (gen_g s ! j)
        (gf256_div (gf256_add (rec_x d bl j) (rec_x d bl k)) (gf256_add (rec_x d bl j) (era_y d k)))]"
  "gen_b (ldu_row_step d bl k s j) =
     (gen_b s)[j := gf256_mul (gen_b s ! j)
        (gf256_div (gf256_add (era_y d j) (era_y d k)) (gf256_add (era_y d j) (rec_x d bl k)))]"
  by (simp_all add: ldu_row_step_def Let_def rec_x_def era_y_def)

lemma fill_step:
  assumes "\<forall>p<n. A ! p = (if a \<le> p \<and> p < a + c then f (b + (p - a)) else B ! p)"
    and "length A = n" and "v = f (b + c)"
  shows "\<forall>p<n. A[a + c := v] ! p =
           (if a \<le> p \<and> p < a + Suc c then f (b + (p - a)) else B ! p)"
proof (intro allI impI)
  fix p assume p: "p < n"
  show "A[a + c := v] ! p = (if a \<le> p \<and> p < a + Suc c then f (b + (p - a)) else B ! p)"
  proof (cases "p = a + c")
    case True
    then show ?thesis using p assms(2,3) by simp
  next
    case False
    then have "A[a + c := v] ! p = A ! p" by simp
    moreover have "(a \<le> p \<and> p < a + Suc c) = (a \<le> p \<and> p < a + c)" using False by auto
    ultimately show ?thesis using assms(1) p by simp
  qed
qed

lemma ldu_row_loop:
  assumes "k < J" "J \<le> N" "N \<le> length (gen_g s)" "N \<le> length (gen_b s)"
    and "\<forall>j. k < j \<and> j < N \<longrightarrow> gen_g s ! j = gen_g_val (rec_x d bl) (era_y d) k j"
    and "\<forall>j. k < j \<and> j < N \<longrightarrow> gen_b s ! j = gen_b_val (rec_x d bl) (era_y d) k j"
  defines "s' \<equiv> foldl (ldu_row_step d bl k) s [Suc k..<J]"
  shows "matrix_L s' = matrix_L s + (J - Suc k) \<and> row_U s' = row_U s + (J - Suc k) \<and>
         output_U s' = output_U s \<and> firstOffset_U s' = firstOffset_U s \<and>
         length (matrix_mem s') = length (matrix_mem s) \<and>
         length (rotated_row_U s') = length (rotated_row_U s) \<and>
         length (gen_g s') = length (gen_g s) \<and> length (gen_b s') = length (gen_b s) \<and>
         (\<forall>p<length (matrix_mem s). matrix_mem s' ! p =
            (if matrix_L s \<le> p \<and> p < matrix_L s + (J - Suc k)
             then raw_L (rec_x d bl) (era_y d) k (Suc k + (p - matrix_L s))
             else matrix_mem s ! p)) \<and>
         (\<forall>p<length (rotated_row_U s). rotated_row_U s' ! p =
            (if row_U s \<le> p \<and> p < row_U s + (J - Suc k)
             then raw_U (rec_x d bl) (era_y d) k (Suc k + (p - row_U s))
             else rotated_row_U s ! p)) \<and>
         (\<forall>j<length (gen_g s). gen_g s' ! j =
            (if k < j \<and> j < J then gen_g_val (rec_x d bl) (era_y d) (Suc k) j else gen_g s ! j)) \<and>
         (\<forall>j<length (gen_b s). gen_b s' ! j =
            (if k < j \<and> j < J then gen_b_val (rec_x d bl) (era_y d) (Suc k) j else gen_b s ! j))"
  using assms(1,2) unfolding s'_def
proof (induction J)
  case 0
  then show ?case by simp
next
  case (Suc J)
  show ?case
  proof (cases "k = J")
    case True
    then show ?thesis by auto
  next
    case False
    then have kJ: "k < J" "J \<le> N" "J < N" using Suc.prems by simp_all
    let ?t = "foldl (ldu_row_step d bl k) s [Suc k..<J]"
    note IH = Suc.IH[OF kJ(1,2)]
    have step: "foldl (ldu_row_step d bl k) s [Suc k..<Suc J] = ldu_row_step d bl k ?t J"
      using kJ by simp
    have gJ: "gen_g ?t ! J = gen_g_val (rec_x d bl) (era_y d) k J"
      using IH assms(3,5) kJ by simp
    have bJ: "gen_b ?t ! J = gen_b_val (rec_x d bl) (era_y d) k J"
      using IH assms(4,6) kJ by simp
    have mL: "matrix_L ?t = matrix_L s + (J - Suc k)" and rU: "row_U ?t = row_U s + (J - Suc k)"
      using IH by simp_all
    have cnt: "Suc J - Suc k = Suc (J - Suc k)" using kJ by simp
    show ?thesis unfolding step
    proof (intro conjI)
      have a: "\<forall>p<length (matrix_mem s). matrix_mem ?t ! p =
            (if matrix_L s \<le> p \<and> p < matrix_L s + (J - Suc k)
             then raw_L (rec_x d bl) (era_y d) k (Suc k + (p - matrix_L s))
             else matrix_mem s ! p)" using IH by blast
      have l: "length (matrix_mem ?t) = length (matrix_mem s)" using IH by simp
      have v: "gf256_div (gen_g ?t ! J) (gf256_add (rec_x d bl J) (era_y d k)) =
               raw_L (rec_x d bl) (era_y d) k (Suc k + (J - Suc k))"
        using kJ by (simp add: gJ raw_L_def)
      show "\<forall>p<length (matrix_mem s). matrix_mem (ldu_row_step d bl k ?t J) ! p =
            (if matrix_L s \<le> p \<and> p < matrix_L s + (Suc J - Suc k)
             then raw_L (rec_x d bl) (era_y d) k (Suc k + (p - matrix_L s))
             else matrix_mem s ! p)"
        unfolding ldu_row_step_fields mL cnt by (rule fill_step[OF a l v])
    next
      have a: "\<forall>p<length (rotated_row_U s). rotated_row_U ?t ! p =
            (if row_U s \<le> p \<and> p < row_U s + (J - Suc k)
             then raw_U (rec_x d bl) (era_y d) k (Suc k + (p - row_U s))
             else rotated_row_U s ! p)" using IH by blast
      have l: "length (rotated_row_U ?t) = length (rotated_row_U s)" using IH by simp
      have v: "gf256_div (gen_b ?t ! J) (gf256_add (rec_x d bl k) (era_y d J)) =
               raw_U (rec_x d bl) (era_y d) k (Suc k + (J - Suc k))"
        using kJ by (simp add: bJ raw_U_def)
      show "\<forall>p<length (rotated_row_U s). rotated_row_U (ldu_row_step d bl k ?t J) ! p =
            (if row_U s \<le> p \<and> p < row_U s + (Suc J - Suc k)
             then raw_U (rec_x d bl) (era_y d) k (Suc k + (p - row_U s))
             else rotated_row_U s ! p)"
        unfolding ldu_row_step_fields rU cnt by (rule fill_step[OF a l v])
    next
      show "\<forall>j<length (gen_g s). gen_g (ldu_row_step d bl k ?t J) ! j =
            (if k < j \<and> j < Suc J then gen_g_val (rec_x d bl) (era_y d) (Suc k) j else gen_g s ! j)"
      proof (intro allI impI)
      fix j assume j: "j < length (gen_g s)"
      have "gen_g ?t ! j =
            (if k < j \<and> j < J then gen_g_val (rec_x d bl) (era_y d) (Suc k) j else gen_g s ! j)"
        using IH j by blast
      moreover have "length (gen_g ?t) = length (gen_g s)" using IH by simp
      ultimately show "gen_g (ldu_row_step d bl k ?t J) ! j =
            (if k < j \<and> j < Suc J then gen_g_val (rec_x d bl) (era_y d) (Suc k) j else gen_g s ! j)"
        using j kJ by (auto simp: ldu_row_step_fields gJ nth_list_update less_Suc_eq)
      qed
    next
      show "\<forall>j<length (gen_b s). gen_b (ldu_row_step d bl k ?t J) ! j =
            (if k < j \<and> j < Suc J then gen_b_val (rec_x d bl) (era_y d) (Suc k) j else gen_b s ! j)"
      proof (intro allI impI)
      fix j assume j: "j < length (gen_b s)"
      have "gen_b ?t ! j =
            (if k < j \<and> j < J then gen_b_val (rec_x d bl) (era_y d) (Suc k) j else gen_b s ! j)"
        using IH j by blast
      moreover have "length (gen_b ?t) = length (gen_b s)" using IH by simp
      ultimately show "gen_b (ldu_row_step d bl k ?t J) ! j =
            (if k < j \<and> j < Suc J then gen_b_val (rec_x d bl) (era_y d) (Suc k) j else gen_b s ! j)"
        using j kJ by (auto simp: ldu_row_step_fields bJ nth_list_update less_Suc_eq)
      qed
    qed (use IH kJ in \<open>simp_all add: ldu_row_step_fields\<close>)
  qed
qed

lemma ldu_copy_step_fields:
  "matrix_L (ldu_copy_step s j) = matrix_L s"
  "row_U (ldu_copy_step s j) = row_U s + 1"
  "output_U (ldu_copy_step s j) = output_U s - int j"
  "firstOffset_U (ldu_copy_step s j) = firstOffset_U s"
  "matrix_mem (ldu_copy_step s j) = (matrix_mem s)[nat (output_U s) := rotated_row_U s ! row_U s]"
  "rotated_row_U (ldu_copy_step s j) = rotated_row_U s"
  "gen_g (ldu_copy_step s j) = gen_g s"
  "gen_b (ldu_copy_step s j) = gen_b s"
  by (simp_all add: ldu_copy_step_def)

lemma ldu_copy_loop:
  assumes "k < J" "J \<le> N" "row_U s = 0"
    and "output_U s = int (tri (N - 1)) - 1 - int k - int (tri k)"
  defines "s' \<equiv> foldl ldu_copy_step s [Suc k..<J]"
  shows "row_U s' = J - Suc k \<and>
         output_U s' = int (tri (N - 1)) - 1 - int k - int (tri (J - 1)) \<and>
         gen_g s' = gen_g s \<and> gen_b s' = gen_b s \<and> rotated_row_U s' = rotated_row_U s \<and>
         matrix_L s' = matrix_L s \<and> firstOffset_U s' = firstOffset_U s \<and>
         length (matrix_mem s') = length (matrix_mem s) \<and>
         (\<forall>j. k < j \<and> j < J \<and> U_index N k j < length (matrix_mem s) \<longrightarrow>
              matrix_mem s' ! U_index N k j = rotated_row_U s ! (j - Suc k)) \<and>
         (\<forall>p. (\<forall>j. k < j \<and> j < J \<longrightarrow> p \<noteq> U_index N k j) \<longrightarrow>
              matrix_mem s' ! p = matrix_mem s ! p)"
  using assms(1,2) unfolding s'_def
proof (induction J)
  case 0
  then show ?case by simp
next
  case (Suc J)
  show ?case
  proof (cases "k = J")
    case True
    then show ?thesis using assms(3,4) by auto
  next
    case False
    then have kJ: "k < J" "J \<le> N" "J < N" using Suc.prems by simp_all
    let ?t = "foldl ldu_copy_step s [Suc k..<J]"
    note IH = Suc.IH[OF kJ(1,2)]
    have step: "foldl ldu_copy_step s [Suc k..<Suc J] = ldu_copy_step ?t J"
      using kJ by simp
    have out: "nat (output_U ?t) = U_index N k J"
    proof -
      have "output_U ?t = int (U_index N k J)"
        using IH U_index_int[OF kJ(1,3)] by simp
      then show ?thesis by simp
    qed
    have rU: "row_U ?t = J - Suc k" using IH by simp
    have rot: "rotated_row_U ?t = rotated_row_U s" using IH by simp
    have len: "length (matrix_mem ?t) = length (matrix_mem s)" using IH by simp
    have mem: "matrix_mem (ldu_copy_step ?t J) =
               (matrix_mem ?t)[U_index N k J := rotated_row_U s ! (J - Suc k)]"
      by (simp add: ldu_copy_step_fields out rU rot)
    have "tri J = tri (J - 1) + J" using kJ by (intro tri_pred) simp
    then have o': "output_U (ldu_copy_step ?t J) =
               int (tri (N - 1)) - 1 - int k - int (tri (Suc J - 1))"
      using IH by (simp add: ldu_copy_step_fields)
    have w: "\<forall>j. k < j \<and> j < Suc J \<and> U_index N k j < length (matrix_mem s) \<longrightarrow>
              matrix_mem (ldu_copy_step ?t J) ! U_index N k j = rotated_row_U s ! (j - Suc k)"
    proof (intro allI impI)
      fix j assume j: "k < j \<and> j < Suc J \<and> U_index N k j < length (matrix_mem s)"
      show "matrix_mem (ldu_copy_step ?t J) ! U_index N k j = rotated_row_U s ! (j - Suc k)"
      proof (cases "j = J")
        case True
        then show ?thesis using j len by (simp add: mem)
      next
        case False
        then have jJ: "j < J" using j by simp
        then have "j < N" using kJ by simp
        then have "U_index N k j \<noteq> U_index N k J"
          using U_index_inj[of k j N k J] j kJ False by blast
        then have "matrix_mem (ldu_copy_step ?t J) ! U_index N k j = matrix_mem ?t ! U_index N k j"
          by (simp add: mem)
        then show ?thesis using IH j jJ by simp
      qed
    qed
    have u: "\<forall>p. (\<forall>j. k < j \<and> j < Suc J \<longrightarrow> p \<noteq> U_index N k j) \<longrightarrow>
              matrix_mem (ldu_copy_step ?t J) ! p = matrix_mem s ! p"
    proof (intro allI impI)
      fix p assume p: "\<forall>j. k < j \<and> j < Suc J \<longrightarrow> p \<noteq> U_index N k j"
      then have "p \<noteq> U_index N k J" using kJ by simp
      then have "matrix_mem (ldu_copy_step ?t J) ! p = matrix_mem ?t ! p" by (simp add: mem)
      moreover have "\<forall>j. k < j \<and> j < J \<longrightarrow> p \<noteq> U_index N k j" using p by simp
      ultimately show "matrix_mem (ldu_copy_step ?t J) ! p = matrix_mem s ! p"
        using IH by simp
    qed
    show ?thesis unfolding step
      using w u o' IH kJ by (simp add: ldu_copy_step_fields)
  qed
qed

lemma ldu_pivot_step_inv:
  assumes inv: "ldu_inv d bl N Lm K s" and K: "Suc K < N" and Lm: "N * N \<le> Lm"
  shows "ldu_inv d bl N Lm (Suc K)
           (ldu_pivot_step d bl N (tri (N - 1)) (int (tri (N - 1)) - 1) s K)"
proof -
  let ?xs = "rec_x d bl" and ?ys = "era_y d" and ?x0 = "norm_x0 d"
  let ?T = "tri (N - 1)"
  let ?pL = "?T + N + L_col N K"
  let ?cnt = "N - Suc K"
  have T2: "2 * ?T = (N - 1) * N" using tri_double[of "N - 1"] K by (simp add: mult.commute)
  have NN: "?T + N + ?T = N * N"
  proof -
    have "N * N = (N - 1) * N + N" using K by (cases N) simp_all
    then show ?thesis using T2 by simp
  qed
  have len: "length (matrix_mem s) = Lm" and lg: "N \<le> length (gen_g s)"
    and lb: "N \<le> length (gen_b s)" and lr: "N \<le> length (rotated_row_U s)"
    and mL: "matrix_L s = ?pL" and fo: "firstOffset_U s = - int (tri K + K)"
    using inv by (simp_all add: ldu_inv_def)
  have G: "\<forall>j<N. gen_g s ! j = gen_g_val ?xs ?ys (min j K) j"
    and B: "\<forall>j<N. gen_b s ! j = gen_b_val ?xs ?ys (min j K) j"
    and oldL: "\<forall>k j. k < K \<and> k < j \<and> j < N \<longrightarrow>
        matrix_mem s ! (?T + N + L_index N j k) = val_L ?xs ?ys j k"
    and oldU: "\<forall>k j. k < K \<and> k < j \<and> j < N \<longrightarrow>
        matrix_mem s ! (U_index N k j) = val_U0 ?xs ?ys ?x0 k j"
    and oldD: "\<forall>k<K. matrix_mem s ! (?T + k) = val_D ?xs ?ys ?x0 N k"
    using inv unfolding ldu_inv_def by blast+
  have gK: "gen_g s ! K = gen_g_val ?xs ?ys K K" using G K by simp
  have bK: "gen_b s ! K = gen_b_val ?xs ?ys K K" using B K by simp
  define D_kk where "D_kk = gf256_add (?xs K) (?ys K)"
  define L_kk where "L_kk = gf256_div (gen_g s ! K) D_kk"
  define U_kk where "U_kk = gf256_mul (gf256_div (gen_b s ! K) D_kk) (gf256_add ?x0 (?ys K))"
  have L_kk: "L_kk = piv_L ?xs ?ys K" by (simp add: L_kk_def D_kk_def piv_L_def gK)
  have U_kk: "U_kk = piv_U ?xs ?ys ?x0 K" by (simp add: U_kk_def D_kk_def piv_U_def bK)
  define dv where "dv = gf256_mul D_kk (gf256_mul L_kk U_kk)"
  have dv: "dv = val_D ?xs ?ys ?x0 N K" using K by (simp add: dv_def val_D_def L_kk U_kk D_kk_def)
  define sa where "sa = s\<lparr>matrix_mem := (matrix_mem s)[?T + K := dv], row_U := 0\<rparr>"
  define s1 where "s1 = foldl (ldu_row_step d bl K) sa [Suc K..<N]"
  define s2 where "s2 = s1\<lparr>matrix_mem := div_mem_at (matrix_mem s1) (matrix_L s) L_kk ?cnt,
                          rotated_row_U := div_mem_at (rotated_row_U s1) 0 U_kk ?cnt\<rparr>"
  define sb where "sb = s2\<lparr>output_U := int ?T - 1 + firstOffset_U s2, row_U := 0\<rparr>"
  define s3 where "s3 = foldl ldu_copy_step sb [Suc K..<N]"
  have res: "ldu_pivot_step d bl N ?T (int ?T - 1) s K =
             s3\<lparr>firstOffset_U := firstOffset_U s3 - (int K + 2)\<rparr>"
    unfolding ldu_pivot_step_def Let_def s3_def sb_def s2_def s1_def sa_def dv_def U_kk_def
      L_kk_def D_kk_def rec_x_def era_y_def norm_x0_def by simp
  have sa: "matrix_L sa = ?pL" "row_U sa = 0" "firstOffset_U sa = firstOffset_U s"
    "gen_g sa = gen_g s" "gen_b sa = gen_b s" "rotated_row_U sa = rotated_row_U s"
    "matrix_mem sa = (matrix_mem s)[?T + K := dv]" "output_U sa = output_U s"
    by (simp_all add: sa_def mL)
  have Ga: "\<forall>j. K < j \<and> j < N \<longrightarrow> gen_g sa ! j = gen_g_val ?xs ?ys K j"
    using G by (simp add: sa min_def)
  have Ba: "\<forall>j. K < j \<and> j < N \<longrightarrow> gen_b sa ! j = gen_b_val ?xs ?ys K j"
    using B by (simp add: sa min_def)
  have KN: "K < N" using K by simp
  have lga: "N \<le> length (gen_g sa)" and lba: "N \<le> length (gen_b sa)"
    using lg lb by (simp_all add: sa)
  note row = ldu_row_loop[OF KN order_refl lga lba Ga Ba, folded s1_def]
  have s1: "matrix_L s1 = ?pL + ?cnt" "row_U s1 = ?cnt" "firstOffset_U s1 = firstOffset_U s"
    "length (matrix_mem s1) = Lm" "length (rotated_row_U s1) = length (rotated_row_U s)"
    "length (gen_g s1) = length (gen_g s)" "length (gen_b s1) = length (gen_b s)"
    using row by (simp_all add: sa len)
  have m1: "\<forall>p<Lm. matrix_mem s1 ! p =
            (if ?pL \<le> p \<and> p < ?pL + ?cnt
             then raw_L ?xs ?ys K (Suc K + (p - ?pL))
             else (matrix_mem s)[?T + K := dv] ! p)"
    using row by (simp add: sa len)
  have r1: "\<forall>p<length (rotated_row_U s). rotated_row_U s1 ! p =
            (if p < ?cnt then raw_U ?xs ?ys K (Suc K + p) else rotated_row_U s ! p)"
    using row by (simp add: sa)
  have g1: "\<forall>j<N. gen_g s1 ! j = gen_g_val ?xs ?ys (min j (Suc K)) j"
  proof (intro allI impI)
    fix j assume j: "j < N"
    then have "gen_g s1 ! j = (if K < j \<and> j < N then gen_g_val ?xs ?ys (Suc K) j else gen_g sa ! j)"
      using row lga by simp
    moreover have "K < j \<Longrightarrow> min j (Suc K) = Suc K" "\<not> K < j \<Longrightarrow> min j (Suc K) = min j K"
      by simp_all
    ultimately show "gen_g s1 ! j = gen_g_val ?xs ?ys (min j (Suc K)) j"
      using G j by (cases "K < j") (simp_all add: sa del: gen_g_val.simps)
  qed
  have b1: "\<forall>j<N. gen_b s1 ! j = gen_b_val ?xs ?ys (min j (Suc K)) j"
  proof (intro allI impI)
    fix j assume j: "j < N"
    then have "gen_b s1 ! j = (if K < j \<and> j < N then gen_b_val ?xs ?ys (Suc K) j else gen_b sa ! j)"
      using row lba by simp
    moreover have "K < j \<Longrightarrow> min j (Suc K) = Suc K" "\<not> K < j \<Longrightarrow> min j (Suc K) = min j K"
      by simp_all
    ultimately show "gen_b s1 ! j = gen_b_val ?xs ?ys (min j (Suc K)) j"
      using B j by (cases "K < j") (simp_all add: sa del: gen_b_val.simps)
  qed
  have colK: "L_col N (Suc K) \<le> ?T" using K by (intro L_col_le) simp
  have colS: "L_col N (Suc K) = L_col N K + ?cnt" using K by simp
  have fitL: "?pL + ?cnt \<le> Lm" using colK colS NN Lm by simp
  have fitR: "0 + ?cnt \<le> length (rotated_row_U s1)" using lr s1 by simp
  have m2: "\<forall>p<Lm. matrix_mem s2 ! p =
            (if ?pL \<le> p \<and> p < ?pL + ?cnt
             then val_L ?xs ?ys (Suc K + (p - ?pL)) K
             else (matrix_mem s)[?T + K := dv] ! p)"
  proof (intro allI impI)
    fix p assume p: "p < Lm"
    have "matrix_mem s2 ! p = div_mem_at (matrix_mem s1) ?pL L_kk ?cnt ! p"
      by (simp add: s2_def mL)
    also have "\<dots> = (if ?pL \<le> p \<and> p < ?pL + ?cnt then gf256_div (matrix_mem s1 ! p) L_kk
                      else matrix_mem s1 ! p)"
      using fitL p s1 by (intro nth_div_mem_at) simp_all
    finally show "matrix_mem s2 ! p =
            (if ?pL \<le> p \<and> p < ?pL + ?cnt
             then val_L ?xs ?ys (Suc K + (p - ?pL)) K
             else (matrix_mem s)[?T + K := dv] ! p)"
      using m1 p by (simp add: val_L_def L_kk)
  qed
  have r2: "\<forall>p<?cnt. rotated_row_U s2 ! p = val_U0 ?xs ?ys ?x0 K (Suc K + p)"
  proof (intro allI impI)
    fix p assume p: "p < ?cnt"
    then have pl: "p < length (rotated_row_U s)" using lr by simp
    have "rotated_row_U s2 ! p = div_mem_at (rotated_row_U s1) 0 U_kk ?cnt ! p"
      by (simp add: s2_def)
    also have "\<dots> = (if 0 \<le> p \<and> p < 0 + ?cnt then gf256_div (rotated_row_U s1 ! p) U_kk
                      else rotated_row_U s1 ! p)"
      using fitR pl s1 by (intro nth_div_mem_at) simp_all
    finally show "rotated_row_U s2 ! p = val_U0 ?xs ?ys ?x0 K (Suc K + p)"
      using r1 p pl by (simp add: val_U0_def U_kk)
  qed
  have s2: "matrix_L s2 = ?pL + ?cnt" "firstOffset_U s2 = firstOffset_U s"
    "length (matrix_mem s2) = Lm" "length (rotated_row_U s2) = length (rotated_row_U s)"
    "gen_g s2 = gen_g s1" "gen_b s2 = gen_b s1"
    using s1 by (simp_all add: s2_def)
  have sb: "row_U sb = 0" "output_U sb = int ?T - 1 - int K - int (tri K)"
    "matrix_mem sb = matrix_mem s2" "rotated_row_U sb = rotated_row_U s2"
    "gen_g sb = gen_g s1" "gen_b sb = gen_b s1" "matrix_L sb = ?pL + ?cnt"
    "firstOffset_U sb = firstOffset_U s"
    using s2 fo by (simp_all add: sb_def)
  note copy = ldu_copy_loop[OF KN order_refl sb(1,2), folded s3_def]
  have s3: "gen_g s3 = gen_g s1" "gen_b s3 = gen_b s1" "matrix_L s3 = ?pL + ?cnt"
    "firstOffset_U s3 = firstOffset_U s" "length (matrix_mem s3) = Lm"
    "length (rotated_row_U s3) = length (rotated_row_U s)"
    using copy sb s2 by simp_all
  have TLm: "?T \<le> Lm" using NN Lm by simp
  have u3: "\<forall>j. K < j \<and> j < N \<longrightarrow> matrix_mem s3 ! U_index N K j = val_U0 ?xs ?ys ?x0 K j"
  proof (intro allI impI)
    fix j assume j: "K < j \<and> j < N"
    then have "U_index N K j < ?T" by (intro U_index_bounds) simp_all
    then have "U_index N K j < length (matrix_mem sb)" using TLm s2 sb by simp
    then have "matrix_mem s3 ! U_index N K j = rotated_row_U sb ! (j - Suc K)"
      using copy j by blast
    also have "\<dots> = val_U0 ?xs ?ys ?x0 K (Suc K + (j - Suc K))"
    proof -
      have "j - Suc K < ?cnt" using j by auto
      then show ?thesis using r2 unfolding sb by blast
    qed
    finally show "matrix_mem s3 ! U_index N K j = val_U0 ?xs ?ys ?x0 K j" using j by simp
  qed
  have k3: "\<forall>p. (\<forall>j. K < j \<and> j < N \<longrightarrow> p \<noteq> U_index N K j) \<longrightarrow>
              matrix_mem s3 ! p = matrix_mem s2 ! p"
    using copy by (simp add: sb)
  have notU: "\<And>p j. ?T \<le> p \<Longrightarrow> K < j \<and> j < N \<Longrightarrow> p \<noteq> U_index N K j"
  proof -
    fix p j assume "?T \<le> p" "K < j \<and> j < N"
    moreover from this have "U_index N K j < ?T" by (intro U_index_bounds) simp_all
    ultimately show "p \<noteq> U_index N K j" by simp
  qed
  have newL: "\<forall>k j. k < Suc K \<and> k < j \<and> j < N \<longrightarrow>
        matrix_mem s3 ! (?T + N + L_index N j k) = val_L ?xs ?ys j k"
  proof (intro allI impI)
    fix k j assume kj: "k < Suc K \<and> k < j \<and> j < N"
    let ?p = "?T + N + L_index N j k"
    have lt: "L_index N j k < ?T" using kj by (intro L_index_bounds) simp_all
    then have pLm: "?p < Lm" using NN Lm by simp
    have "\<forall>j'. K < j' \<and> j' < N \<longrightarrow> ?p \<noteq> U_index N K j'" using notU by simp
    then have e3: "matrix_mem s3 ! ?p = matrix_mem s2 ! ?p" using k3 by blast
    show "matrix_mem s3 ! ?p = val_L ?xs ?ys j k"
    proof (cases "k = K")
      case True
      have "L_index N j K = L_col N K + (j - K - 1)" by (simp add: L_index_def)
      then have a: "?pL \<le> ?p \<and> ?p < ?pL + ?cnt" and b: "Suc K + (?p - ?pL) = j"
        using kj True by auto
      have "matrix_mem s2 ! ?p =
            (if ?pL \<le> ?p \<and> ?p < ?pL + ?cnt
             then val_L ?xs ?ys (Suc K + (?p - ?pL)) K
             else (matrix_mem s)[?T + K := dv] ! ?p)"
        using m2 pLm by blast
      also have "\<dots> = val_L ?xs ?ys (Suc K + (?p - ?pL)) K"
        using a by (simp only: if_True simp_thms)
      finally have "matrix_mem s2 ! ?p = val_L ?xs ?ys j K" by (simp only: b)
      then show ?thesis using e3 True by simp
    next
      case False
      then have kK: "k < K" using kj by simp
      have "L_index N j k < L_col N (Suc k)" using kj by (intro L_index_bounds) simp_all
      moreover have "L_col N (Suc k) \<le> L_col N K" using kK by (intro L_col_mono) simp
      ultimately have "?p < ?pL" by simp
      moreover have "?p \<noteq> ?T + K" using KN by simp
      ultimately have "matrix_mem s2 ! ?p = matrix_mem s ! ?p" using m2 pLm by simp
      then show ?thesis using e3 oldL kK kj by simp
    qed
  qed
  have newU: "\<forall>k j. k < Suc K \<and> k < j \<and> j < N \<longrightarrow>
        matrix_mem s3 ! (U_index N k j) = val_U0 ?xs ?ys ?x0 k j"
  proof (intro allI impI)
    fix k j assume kj: "k < Suc K \<and> k < j \<and> j < N"
    show "matrix_mem s3 ! (U_index N k j) = val_U0 ?xs ?ys ?x0 k j"
    proof (cases "k = K")
      case True
      then show ?thesis using u3 kj by simp
    next
      case False
      then have kK: "k < K" using kj by simp
      let ?p = "U_index N k j"
      have lt: "?p < ?T" using kj by (intro U_index_bounds) simp_all
      have "\<forall>j'. K < j' \<and> j' < N \<longrightarrow> ?p \<noteq> U_index N K j'"
      proof (intro allI impI)
        fix j' assume j': "K < j' \<and> j' < N"
        show "?p \<noteq> U_index N K j'"
        proof
          assume "?p = U_index N K j'"
          then have "k = K \<and> j = j'" using U_index_inj[of k j N K j'] kj j' by blast
          then show False using False by simp
        qed
      qed
      then have "matrix_mem s3 ! ?p = matrix_mem s2 ! ?p" using k3 by blast
      moreover have "?p < Lm" "\<not> (?pL \<le> ?p)" "?p \<noteq> ?T + K" using lt TLm by simp_all
      ultimately have "matrix_mem s3 ! ?p = matrix_mem s ! ?p" using m2 by simp
      then show ?thesis using oldU kK kj by simp
    qed
  qed
  have newD: "\<forall>k<Suc K. matrix_mem s3 ! (?T + k) = val_D ?xs ?ys ?x0 N k"
  proof (intro allI impI)
    fix k assume k: "k < Suc K"
    let ?p = "?T + k"
    have "\<forall>j'. K < j' \<and> j' < N \<longrightarrow> ?p \<noteq> U_index N K j'" using notU by simp
    then have "matrix_mem s3 ! ?p = matrix_mem s2 ! ?p" using k3 by blast
    moreover have "?p < Lm" "\<not> (?pL \<le> ?p)" using k KN NN Lm by simp_all
    ultimately have e: "matrix_mem s3 ! ?p = (matrix_mem s)[?T + K := dv] ! ?p" using m2 by simp
    show "matrix_mem s3 ! ?p = val_D ?xs ?ys ?x0 N k"
    proof (cases "k = K")
      case True
      then show ?thesis using e dv len \<open>?p < Lm\<close> by simp
    next
      case False
      then show ?thesis using e oldD k by simp
    qed
  qed
  have fo': "firstOffset_U s3 - (int K + 2) = - int (tri (Suc K) + Suc K)"
    using s3 fo by simp
  show ?thesis
    unfolding res ldu_inv_def
    using newL newU newD g1 b1 s3 s1 lg lb lr colS fo' by simp
qed

lemma ldu_pivot_loop:
  assumes "ldu_inv d bl N Lm 0 s" "N * N \<le> Lm" "K \<le> N - 1"
  shows "ldu_inv d bl N Lm K
           (foldl (ldu_pivot_step d bl N (tri (N - 1)) (int (tri (N - 1)) - 1)) s [0..<K])"
  using assms(3)
proof (induction K)
  case 0
  then show ?case using assms(1) by simp
next
  case (Suc K)
  then have K: "Suc K < N" "K \<le> N - 1" by simp_all
  have "[0..<Suc K] = [0..<K] @ [K]" by simp
  then show ?case using ldu_pivot_step_inv[OF Suc.IH[OF K(2)] K(1) assms(2)] by simp
qed

lemma ldu_inv_init:
  assumes "N \<le> length g0" "N \<le> length b0" "N \<le> length rot0"
  shows "ldu_inv d bl N (length matrix) 0
           (foldl ldu_init_step
              \<lparr>matrix_mem = matrix, gen_g = g0, gen_b = b0, rotated_row_U = rot0,
               matrix_L = tri (N - 1) + N, row_U = 0, output_U = 0, firstOffset_U = 0\<rparr> [0..<N])"
  using assms by (simp add: ldu_inv_def ldu_init_loop ldu_init_loop_nth)

lemma ldu_scale_step_fields:
  "matrix_mem (ldu_scale_step d s j) =
     mul_mem_at (matrix_mem s) (row_U s) (gf256_add (norm_x0 d) (era_y d j)) j"
  "row_U (ldu_scale_step d s j) = row_U s + j"
  "gen_g (ldu_scale_step d s j) = gen_g s"
  "gen_b (ldu_scale_step d s j) = gen_b s"
  by (simp_all add: ldu_scale_step_def norm_x0_def era_y_def)

lemma ldu_scale_loop:
  fixes d :: CM256Decoder
  assumes N: "0 < N" and Lm: "tri (N - 1) \<le> length (matrix_mem s)" and r: "row_U s = 0"
    and J: "J \<le> N - 1"
  defines "t \<equiv> foldl (ldu_scale_step d) s (rev [Suc J..<N])"
  shows "row_U t = tri (N - 1) - tri J \<and> length (matrix_mem t) = length (matrix_mem s) \<and>
         gen_g t = gen_g s \<and> gen_b t = gen_b s \<and>
         (\<forall>k j. k < j \<and> j < N \<longrightarrow> matrix_mem t ! U_index N k j =
            (if J < j then gf256_mul (gf256_add (norm_x0 d) (era_y d j)) (matrix_mem s ! U_index N k j)
             else matrix_mem s ! U_index N k j)) \<and>
         (\<forall>p. tri (N - 1) \<le> p \<and> p < length (matrix_mem s) \<longrightarrow> matrix_mem t ! p = matrix_mem s ! p)"
  using J unfolding t_def
proof (induction J rule: inc_induct)
  case base
  have "[Suc (N - 1)..<N] = []" by simp
  then show ?case using r by auto
next
  case (step n)
  let ?T = "tri (N - 1)"
  let ?j = "Suc n"
  let ?t = "foldl (ldu_scale_step d) s (rev [Suc ?j..<N])"
  have jN: "?j < N" using step.hyps by simp
  have up: "[?j..<N] = ?j # [Suc ?j..<N]" using jN by (simp add: upt_rec)
  have fold: "foldl (ldu_scale_step d) s (rev [?j..<N]) = ldu_scale_step d ?t ?j"
    by (subst up) simp
  note IH = step.IH
  have rT: "row_U ?t = ?T - tri ?j" and len: "length (matrix_mem ?t) = length (matrix_mem s)"
    using IH by simp_all
  have tj: "tri ?j \<le> ?T" using jN by (intro tri_mono) simp
  have tn: "tri ?j = tri n + ?j" by simp
  have stop: "(?T - tri ?j) + ?j = ?T - tri n" using tj tn by simp
  have fit: "(?T - tri ?j) + ?j \<le> length (matrix_mem ?t)" using stop Lm len by simp
  have nth: "\<And>p. p < length (matrix_mem s) \<Longrightarrow>
      matrix_mem (ldu_scale_step d ?t ?j) ! p =
      (if ?T - tri ?j \<le> p \<and> p < ?T - tri n
       then gf256_mul (gf256_add (norm_x0 d) (era_y d ?j)) (matrix_mem ?t ! p)
       else matrix_mem ?t ! p)"
  proof -
    fix p assume "p < length (matrix_mem s)"
    then have "p < length (matrix_mem ?t)" using len by simp
    from nth_mul_mem_at[OF fit this] show
      "matrix_mem (ldu_scale_step d ?t ?j) ! p =
      (if ?T - tri ?j \<le> p \<and> p < ?T - tri n
       then gf256_mul (gf256_add (norm_x0 d) (era_y d ?j)) (matrix_mem ?t ! p)
       else matrix_mem ?t ! p)"
      unfolding ldu_scale_step_fields rT stop .
  qed
  have U: "\<forall>k j. k < j \<and> j < N \<longrightarrow> matrix_mem (ldu_scale_step d ?t ?j) ! U_index N k j =
            (if n < j then gf256_mul (gf256_add (norm_x0 d) (era_y d j)) (matrix_mem s ! U_index N k j)
             else matrix_mem s ! U_index N k j)"
  proof (intro allI impI)
    fix k j assume kj: "k < j \<and> j < N"
    let ?p = "U_index N k j"
    have b1: "?T - tri j \<le> ?p" and b2: "?p < ?T - tri (j - 1)" and b3: "?p < ?T"
      using U_index_bounds[of k j N] kj by blast+
    have pl: "?p < length (matrix_mem s)" using b3 Lm by simp
    have old: "matrix_mem ?t ! ?p =
            (if ?j < j then gf256_mul (gf256_add (norm_x0 d) (era_y d j)) (matrix_mem s ! ?p)
             else matrix_mem s ! ?p)" using IH kj by blast
    consider "j = ?j" | "j < ?j" | "?j < j" by linarith
    then show "matrix_mem (ldu_scale_step d ?t ?j) ! ?p =
            (if n < j then gf256_mul (gf256_add (norm_x0 d) (era_y d j)) (matrix_mem s ! ?p)
             else matrix_mem s ! ?p)"
    proof cases
      case 1
      then have "?T - tri ?j \<le> ?p \<and> ?p < ?T - tri n" using b1 b2 by simp
      then have "matrix_mem (ldu_scale_step d ?t ?j) ! ?p =
                 gf256_mul (gf256_add (norm_x0 d) (era_y d ?j)) (matrix_mem ?t ! ?p)"
        using nth[OF pl] by (simp only: if_True simp_thms)
      then show ?thesis using old 1 by simp
    next
      case 2
      then have "j \<le> n" by simp
      then have "tri j \<le> tri n" by (rule tri_mono)
      then have "\<not> ?p < ?T - tri n" using b1 by simp
      then have "matrix_mem (ldu_scale_step d ?t ?j) ! ?p = matrix_mem ?t ! ?p"
        using nth[OF pl] by simp
      then show ?thesis using old 2 by simp
    next
      case 3
      then have "?j \<le> j - 1" by simp
      then have "tri ?j \<le> tri (j - 1)" by (rule tri_mono)
      then have "\<not> ?T - tri ?j \<le> ?p" using b2 by simp
      then have "matrix_mem (ldu_scale_step d ?t ?j) ! ?p = matrix_mem ?t ! ?p"
        using nth[OF pl] by simp
      then show ?thesis using old 3 by simp
    qed
  qed
  have O: "\<forall>p. ?T \<le> p \<and> p < length (matrix_mem s) \<longrightarrow>
             matrix_mem (ldu_scale_step d ?t ?j) ! p = matrix_mem s ! p"
  proof (intro allI impI)
    fix p assume p: "?T \<le> p \<and> p < length (matrix_mem s)"
    then have "\<not> p < ?T - tri n" by linarith
    then have "matrix_mem (ldu_scale_step d ?t ?j) ! p = matrix_mem ?t ! p"
      using nth p by simp
    then show "matrix_mem (ldu_scale_step d ?t ?j) ! p = matrix_mem s ! p" using IH p by simp
  qed
  have rr: "row_U (ldu_scale_step d ?t ?j) = ?T - tri n"
    by (simp only: ldu_scale_step_fields rT stop)
  show ?case unfolding fold
    using U O rr IH len by (simp add: ldu_scale_step_fields)
qed

lemma ldu_written:
  fixes d :: CM256Decoder and bl :: "cm256_block list"
  assumes N: "N = RecoveryCount' d" "0 < N" and Lm: "N * N \<le> length matrix"
    and lens: "N \<le> length g0" "N \<le> length b0" "N \<le> length rot0"
  defines "T \<equiv> ((N - 1) * N) div 2"
  defines "mem \<equiv> GenerateLDUDecomposition d bl g0 b0 rot0 matrix (T + N) T 0"
  shows "length mem = length matrix"
    and "\<forall>k j. k < j \<and> j < N \<longrightarrow>
           mem ! (T + N + L_index N j k) = val_L (rec_x d bl) (era_y d) j k"
    and "\<forall>k j. k < j \<and> j < N \<longrightarrow>
           mem ! U_index N k j = val_U (rec_x d bl) (era_y d) (norm_x0 d) k j"
    and "\<forall>k<N. mem ! (T + k) = val_D (rec_x d bl) (era_y d) (norm_x0 d) N k"
proof -
  let ?xs = "rec_x d bl" and ?ys = "era_y d" and ?x0 = "norm_x0 d"
  have T: "T = tri (N - 1)" unfolding T_def by (rule tri_closed)
  define s0 where "s0 = foldl ldu_init_step
              \<lparr>matrix_mem = matrix, gen_g = g0, gen_b = b0, rotated_row_U = rot0,
               matrix_L = tri (N - 1) + N, row_U = 0, output_U = 0, firstOffset_U = 0\<rparr> [0..<N]"
  define s1 where "s1 = foldl (ldu_pivot_step d bl N (tri (N - 1)) (int (tri (N - 1)) - 1)) s0 [0..<N - 1]"
  define s1' where "s1' = s1\<lparr>row_U := 0\<rparr>"
  define s2 where "s2 = foldl (ldu_scale_step d) s1' (rev [Suc 0..<N])"
  have res: "mem = ldu_last d bl N (tri (N - 1)) s2"
    unfolding mem_def GenerateLDUDecomposition_def Let_def N(1)[symmetric] s2_def s1'_def s1_def s0_def
      T tri_closed by simp
  have "ldu_inv d bl N (length matrix) 0 s0" unfolding s0_def by (rule ldu_inv_init[OF lens])
  then have inv: "ldu_inv d bl N (length matrix) (N - 1) s1"
    unfolding s1_def using Lm by (intro ldu_pivot_loop) simp_all
  have T2: "2 * tri (N - 1) = (N - 1) * N" using tri_double[of "N - 1"] N(2) by (simp add: mult.commute)
  have NN: "tri (N - 1) + N + tri (N - 1) = N * N"
  proof -
    have "N * N = (N - 1) * N + N" using N(2) by (cases N) simp_all
    then show ?thesis using T2 by simp
  qed
  have len1: "length (matrix_mem s1') = length matrix" using inv by (simp add: ldu_inv_def s1'_def)
  have TL: "tri (N - 1) \<le> length (matrix_mem s1')" using NN Lm len1 by simp
  have r0: "row_U s1' = 0" by (simp add: s1'_def)
  have J0: "0 \<le> N - 1" by simp
  note scale = ldu_scale_loop[OF N(2) TL r0 J0, of d, folded s2_def]
  have len2: "length (matrix_mem s2) = length matrix" using scale len1 by simp
  have g2: "gen_g s2 ! (N - 1) = gen_g_val ?xs ?ys (N - 1) (N - 1)"
  proof -
    have "gen_g s2 = gen_g s1" using scale by (simp add: s1'_def)
    moreover have "gen_g s1 ! (N - 1) = gen_g_val ?xs ?ys (min (N - 1) (N - 1)) (N - 1)"
      using inv N(2) unfolding ldu_inv_def by simp
    ultimately show ?thesis by simp
  qed
  have b2: "gen_b s2 ! (N - 1) = gen_b_val ?xs ?ys (N - 1) (N - 1)"
  proof -
    have "gen_b s2 = gen_b s1" using scale by (simp add: s1'_def)
    moreover have "gen_b s1 ! (N - 1) = gen_b_val ?xs ?ys (min (N - 1) (N - 1)) (N - 1)"
      using inv N(2) unfolding ldu_inv_def by simp
    ultimately show ?thesis by simp
  qed
  have last: "mem = (matrix_mem s2)[tri (N - 1) + (N - 1) := val_D ?xs ?ys ?x0 N (N - 1)]"
    unfolding res ldu_last_def Let_def g2 b2 val_D_def
    using N(2) by (simp add: rec_x_def era_y_def norm_x0_def)
  show "length mem = length matrix" using last len2 by simp
  have oldL: "\<forall>k j. k < N - 1 \<and> k < j \<and> j < N \<longrightarrow>
        matrix_mem s1 ! (tri (N - 1) + N + L_index N j k) = val_L ?xs ?ys j k"
    and oldU: "\<forall>k j. k < N - 1 \<and> k < j \<and> j < N \<longrightarrow>
        matrix_mem s1 ! (U_index N k j) = val_U0 ?xs ?ys ?x0 k j"
    and oldD: "\<forall>k<N - 1. matrix_mem s1 ! (tri (N - 1) + k) = val_D ?xs ?ys ?x0 N k"
    using inv unfolding ldu_inv_def by blast+
  have m1: "matrix_mem s1' = matrix_mem s1" by (simp add: s1'_def)
  show "\<forall>k j. k < j \<and> j < N \<longrightarrow> mem ! (T + N + L_index N j k) = val_L ?xs ?ys j k"
  proof (intro allI impI)
    fix k j assume kj: "k < j \<and> j < N"
    let ?p = "tri (N - 1) + N + L_index N j k"
    have "L_index N j k < tri (N - 1)" using L_index_bounds[of k j N] kj by blast
    then have p: "tri (N - 1) \<le> ?p \<and> ?p < length (matrix_mem s1')" using NN Lm len1 by simp
    have "?p \<noteq> tri (N - 1) + (N - 1)" using N(2) by simp
    then have "mem ! ?p = matrix_mem s2 ! ?p" by (simp add: last)
    also have "\<dots> = matrix_mem s1' ! ?p" using scale p by blast
    also have "\<dots> = val_L ?xs ?ys j k"
    proof -
      have "k < N - 1 \<and> k < j \<and> j < N" using kj by auto
      then show ?thesis using oldL unfolding m1 by blast
    qed
    finally show "mem ! (T + N + L_index N j k) = val_L ?xs ?ys j k" by (simp add: T)
  qed
  show "\<forall>k j. k < j \<and> j < N \<longrightarrow> mem ! U_index N k j = val_U ?xs ?ys ?x0 k j"
  proof (intro allI impI)
    fix k j assume kj: "k < j \<and> j < N"
    let ?p = "U_index N k j"
    have "?p < tri (N - 1)" using U_index_bounds[of k j N] kj by blast
    then have "?p \<noteq> tri (N - 1) + (N - 1)" by simp
    then have "mem ! ?p = matrix_mem s2 ! ?p" by (simp add: last)
    also have "\<dots> = (if 0 < j then gf256_mul (gf256_add ?x0 (?ys j)) (matrix_mem s1' ! ?p)
             else matrix_mem s1' ! ?p)" using scale kj by blast
    also have "\<dots> = gf256_mul (gf256_add ?x0 (?ys j)) (matrix_mem s1 ! ?p)"
      using kj by (simp add: m1)
    also have "matrix_mem s1 ! ?p = val_U0 ?xs ?ys ?x0 k j"
    proof -
      have "k < N - 1 \<and> k < j \<and> j < N" using kj by auto
      then show ?thesis using oldU by blast
    qed
    finally show "mem ! U_index N k j = val_U ?xs ?ys ?x0 k j" by (simp add: val_U_def)
  qed
  show "\<forall>k<N. mem ! (T + k) = val_D ?xs ?ys ?x0 N k"
  proof (intro allI impI)
    fix k assume k: "k < N"
    let ?p = "tri (N - 1) + k"
    have p: "tri (N - 1) \<le> ?p \<and> ?p < length (matrix_mem s1')" using NN Lm len1 k by simp
    show "mem ! (T + k) = val_D ?xs ?ys ?x0 N k"
    proof (cases "k = N - 1")
      case True
      then show ?thesis using p len1 len2 by (simp add: last T)
    next
      case False
      then have kN: "k < N - 1" using k by simp
      have "mem ! ?p = matrix_mem s2 ! ?p" using False by (simp add: last)
      also have "\<dots> = matrix_mem s1' ! ?p" using scale p by blast
      also have "\<dots> = val_D ?xs ?ys ?x0 N k" using oldD kN by (simp add: m1)
      finally show ?thesis by (simp add: T)
    qed
  qed
qed

subsection \<open>The product of the factors\<close>

text \<open>
  The nodes of the Cauchy matrix are admissible when no row coordinate meets a column
  coordinate, the row coordinates are pairwise distinct, so are the column coordinates, and
  the normaliser meets no column coordinate. The Schur complement after \<open>k\<close> steps, in the
  field.
\<close>

definition cauchy_nodes :: "(nat \<Rightarrow> byte) \<Rightarrow> (nat \<Rightarrow> byte) \<Rightarrow> byte \<Rightarrow> nat \<Rightarrow> bool" where
  "cauchy_nodes xs ys x0 N \<longleftrightarrow>
     (\<forall>i<N. \<forall>j<N. xs i \<noteq> ys j) \<and>
     (\<forall>i<N. \<forall>j<N. i \<noteq> j \<longrightarrow> xs i \<noteq> xs j) \<and>
     (\<forall>i<N. \<forall>j<N. i \<noteq> j \<longrightarrow> ys i \<noteq> ys j) \<and>
     (\<forall>j<N. x0 \<noteq> ys j)"

definition schur :: "(nat \<Rightarrow> byte) \<Rightarrow> (nat \<Rightarrow> byte) \<Rightarrow> byte \<Rightarrow> nat \<Rightarrow> nat \<Rightarrow> nat \<Rightarrow> gf" where
  "schur xs ys x0 k i j =
     GF (gen_g_val xs ys k i) * GF (gen_b_val xs ys k j) * (GF x0 + GF (ys j))
       / (GF (xs i) + GF (ys j))"

lemma GF_add_neq_0: "a \<noteq> b \<Longrightarrow> GF a + GF b \<noteq> 0"
  by (simp add: GF_add_eq_0_iff)

lemma gen_g_val_nz:
  assumes "cauchy_nodes xs ys x0 N" "k \<le> j" "j < N"
  shows "GF (gen_g_val xs ys k j) \<noteq> 0"
  using assms(2)
proof (induction k)
  case 0
  then show ?case by (simp add: GF_1)
next
  case (Suc k)
  then have kj: "k < j" "k < N" using assms(3) by simp_all
  have "xs j \<noteq> xs k" "xs j \<noteq> ys k"
    using assms(1,3) kj unfolding cauchy_nodes_def by auto
  then have "GF (xs j) + GF (xs k) \<noteq> 0" "GF (xs j) + GF (ys k) \<noteq> 0"
    by (simp_all add: GF_add_neq_0)
  moreover have "GF (gen_g_val xs ys k j) \<noteq> 0" using Suc by simp
  ultimately show ?case by (simp add: GF_mul GF_div GF_add)
qed

lemma gen_b_val_nz:
  assumes "cauchy_nodes xs ys x0 N" "k \<le> j" "j < N"
  shows "GF (gen_b_val xs ys k j) \<noteq> 0"
  using assms(2)
proof (induction k)
  case 0
  then show ?case by (simp add: GF_1)
next
  case (Suc k)
  then have kj: "k < j" "k < N" using assms(3) by simp_all
  have "ys j \<noteq> ys k" "ys j \<noteq> xs k"
    using assms(1,3) kj unfolding cauchy_nodes_def by (auto simp: neq_commute)
  then have "GF (ys j) + GF (ys k) \<noteq> 0" "GF (ys j) + GF (xs k) \<noteq> 0"
    by (simp_all add: GF_add_neq_0)
  moreover have "GF (gen_b_val xs ys k j) \<noteq> 0" using Suc by simp
  ultimately show ?case by (simp add: GF_mul GF_div GF_add)
qed

lemma schur_0: "schur xs ys x0 0 i j = GF (GetMatrixElement (xs i) x0 (ys j))"
  by (simp add: schur_def GetMatrixElement_def GF_div GF_add GF_1 add.commute)

lemma cross_identity:
  fixes a b c d :: gf
  shows "(a + d) * (c + b) + (a + c) * (b + d) = (a + b) * (c + d)"
  by (simp add: algebra_simps)

lemma ldu_term_field:
  fixes A :: "'a::field"
  assumes "A \<noteq> 0" "Bq \<noteq> 0" "C \<noteq> 0" "E \<noteq> 0" "gc \<noteq> 0" "bc \<noteq> 0"
  shows "(gi / A) / (gc / C) * (gc * bc * E / C) * (F * ((bj / Bq) / (bc / C * E)))
         = gi * bj * F * C / (A * Bq)"
  using assms by (simp add: field_simps)

lemma schur_step_field:
  fixes A :: gf
  assumes "A \<noteq> 0" "Bq \<noteq> 0" "Dd \<noteq> 0" and "A * Bq + P * Q = Dd * C"
  shows "gi * bj * F / Dd + (gi * (P / A)) * (bj * (Q / Bq)) * F / Dd = gi * bj * F * C / (A * Bq)"
proof -
  have "gi * bj * F / Dd + (gi * (P / A)) * (bj * (Q / Bq)) * F / Dd
        = gi * bj * F * (A * Bq + P * Q) / (Dd * (A * Bq))"
    using assms(1-3) by (simp add: field_simps)
  also have "\<dots> = gi * bj * F * C / (A * Bq)"
    unfolding assms(4) using assms(1-3) by simp
  finally show ?thesis .
qed

lemma diag_field:
  fixes C :: "'a::field"
  assumes "C \<noteq> 0"
  shows "C * ((g / C) * ((b / C) * E)) = g * b * E / C"
  using assms by (simp add: field_simps)

lemma row_field:
  fixes C :: "'a::field"
  assumes "C \<noteq> 0" "Dd \<noteq> 0" "E \<noteq> 0" "bi \<noteq> 0"
  shows "(gi * bi * E / C) * (F * ((bj / Dd) / (bi / C * E))) = gi * bj * F / Dd"
  using assms by (simp add: field_simps)

lemma col_field:
  fixes C :: "'a::field"
  assumes "C \<noteq> 0" "Dd \<noteq> 0" "gj \<noteq> 0"
  shows "((gi / Dd) / (gj / C)) * (gj * bj * F / C) = gi * bj * F / Dd"
  using assms by (simp add: field_simps)

lemma val_D_schur:
  assumes cn: "cauchy_nodes xs ys x0 N" and c: "c < N"
  shows "GF (val_D xs ys x0 N c) = schur xs ys x0 c c c"
proof -
  have "xs c \<noteq> ys c" using cn c unfolding cauchy_nodes_def by blast
  then have C: "GF (xs c) + GF (ys c) \<noteq> 0" by (rule GF_add_neq_0)
  show ?thesis
  proof (cases "c + 1 < N")
    case True
    then have "GF (val_D xs ys x0 N c) =
               (GF (xs c) + GF (ys c)) *
                 ((GF (gen_g_val xs ys c c) / (GF (xs c) + GF (ys c))) *
                  ((GF (gen_b_val xs ys c c) / (GF (xs c) + GF (ys c))) * (GF x0 + GF (ys c))))"
      by (simp add: val_D_def piv_L_def piv_U_def GF_mul GF_div GF_add)
    also have "\<dots> = GF (gen_g_val xs ys c c) * GF (gen_b_val xs ys c c) * (GF x0 + GF (ys c))
                      / (GF (xs c) + GF (ys c))"
      by (rule diag_field[OF C])
    finally show ?thesis by (simp add: schur_def)
  next
    case False
    then show ?thesis
      by (simp add: val_D_def schur_def GF_mul GF_div GF_add mult.assoc)
  qed
qed

lemma ldu_term_schur:
  assumes cn: "cauchy_nodes xs ys x0 N" and c: "c < i" "c < j" and ij: "i < N" "j < N"
  shows "GF (val_L xs ys i c) * GF (val_D xs ys x0 N c) * GF (val_U xs ys x0 c j) =
         schur xs ys x0 c i j + schur xs ys x0 (Suc c) i j"
proof -
  have cN: "c < N" using c ij by simp
  define Xi where "Xi = GF (xs i)"
  define Xc where "Xc = GF (xs c)"
  define Yj where "Yj = GF (ys j)"
  define Yc where "Yc = GF (ys c)"
  define X0 where "X0 = GF x0"
  define gi where "gi = GF (gen_g_val xs ys c i)"
  define gc where "gc = GF (gen_g_val xs ys c c)"
  define bj where "bj = GF (gen_b_val xs ys c j)"
  define bc where "bc = GF (gen_b_val xs ys c c)"
  have ne: "xs i \<noteq> ys c" "xs c \<noteq> ys j" "xs c \<noteq> ys c" "xs i \<noteq> ys j" "x0 \<noteq> ys c"
    using cn c ij cN unfolding cauchy_nodes_def by blast+
  have A: "Xi + Yc \<noteq> 0" and Bq: "Xc + Yj \<noteq> 0" and C: "Xc + Yc \<noteq> 0" and Dd: "Xi + Yj \<noteq> 0"
    and E: "X0 + Yc \<noteq> 0"
    unfolding Xi_def Xc_def Yj_def Yc_def X0_def using ne by (simp_all add: GF_add_neq_0)
  have gc: "gc \<noteq> 0" unfolding gc_def using cn cN by (intro gen_g_val_nz) simp_all
  have bc: "bc \<noteq> 0" unfolding bc_def using cn cN by (intro gen_b_val_nz) simp_all
  have L: "GF (val_L xs ys i c) = (gi / (Xi + Yc)) / (gc / (Xc + Yc))"
    by (simp add: val_L_def raw_L_def piv_L_def GF_div GF_add gi_def gc_def Xi_def Xc_def Yc_def)
  have U: "GF (val_U xs ys x0 c j) =
           (X0 + Yj) * ((bj / (Xc + Yj)) / (bc / (Xc + Yc) * (X0 + Yc)))"
    by (simp add: val_U_def val_U0_def raw_U_def piv_U_def GF_mul GF_div GF_add
        bj_def bc_def X0_def Xc_def Yc_def Yj_def)
  have D: "GF (val_D xs ys x0 N c) = gc * bc * (X0 + Yc) / (Xc + Yc)"
    by (simp add: val_D_schur[OF cn cN] schur_def gc_def bc_def X0_def Xc_def Yc_def)
  have lhs: "GF (val_L xs ys i c) * GF (val_D xs ys x0 N c) * GF (val_U xs ys x0 c j) =
             gi * bj * (X0 + Yj) * (Xc + Yc) / ((Xi + Yc) * (Xc + Yj))"
    unfolding L U D by (rule ldu_term_field[OF A Bq C E gc bc])
  have s0: "schur xs ys x0 c i j = gi * bj * (X0 + Yj) / (Xi + Yj)"
    by (simp add: schur_def gi_def bj_def X0_def Xi_def Yj_def)
  have s1: "schur xs ys x0 (Suc c) i j =
            (gi * ((Xi + Xc) / (Xi + Yc))) * (bj * ((Yj + Yc) / (Xc + Yj))) * (X0 + Yj) / (Xi + Yj)"
    by (simp add: schur_def GF_mul GF_div GF_add gi_def bj_def X0_def Xi_def Xc_def Yj_def Yc_def
        add.commute)
  have cross: "(Xi + Yc) * (Xc + Yj) + (Xi + Xc) * (Yj + Yc) = (Xi + Yj) * (Xc + Yc)"
    by (rule cross_identity)
  show ?thesis unfolding lhs s0 s1
    by (rule schur_step_field[OF A Bq Dd cross, symmetric])
qed

lemma schur_telescope:
  assumes cn: "cauchy_nodes xs ys x0 N" and m: "m \<le> i" "m \<le> j" and ij: "i < N" "j < N"
  shows "(\<Sum>c<m. GF (val_L xs ys i c) * GF (val_D xs ys x0 N c) * GF (val_U xs ys x0 c j)) =
         schur xs ys x0 0 i j + schur xs ys x0 m i j"
  using m
proof (induction m)
  case 0
  then show ?case by simp
next
  case (Suc m)
  then have "m < i" "m < j" "m \<le> i" "m \<le> j" by simp_all
  then show ?case
    using Suc.IH ldu_term_schur[OF cn \<open>m < i\<close> \<open>m < j\<close> ij] by (simp add: add.assoc)
qed

lemma schur_row:
  assumes cn: "cauchy_nodes xs ys x0 N" and ij: "i < j" "j < N"
  shows "GF (val_D xs ys x0 N i) * GF (val_U xs ys x0 i j) = schur xs ys x0 i i j"
proof -
  have iN: "i < N" using ij by simp
  define Xi where "Xi = GF (xs i)"
  define Yj where "Yj = GF (ys j)"
  define Yi where "Yi = GF (ys i)"
  define X0 where "X0 = GF x0"
  define gi where "gi = GF (gen_g_val xs ys i i)"
  define bj where "bj = GF (gen_b_val xs ys i j)"
  define bi where "bi = GF (gen_b_val xs ys i i)"
  have ne: "xs i \<noteq> ys i" "xs i \<noteq> ys j" "x0 \<noteq> ys i"
    using cn ij iN unfolding cauchy_nodes_def by blast+
  have C: "Xi + Yi \<noteq> 0" and Dd: "Xi + Yj \<noteq> 0" and E: "X0 + Yi \<noteq> 0"
    unfolding Xi_def Yj_def Yi_def X0_def using ne by (simp_all add: GF_add_neq_0)
  have bi: "bi \<noteq> 0" unfolding bi_def using cn iN by (intro gen_b_val_nz) simp_all
  have U: "GF (val_U xs ys x0 i j) =
           (X0 + Yj) * ((bj / (Xi + Yj)) / (bi / (Xi + Yi) * (X0 + Yi)))"
    by (simp add: val_U_def val_U0_def raw_U_def piv_U_def GF_mul GF_div GF_add
        bj_def bi_def X0_def Xi_def Yi_def Yj_def)
  have D: "GF (val_D xs ys x0 N i) = gi * bi * (X0 + Yi) / (Xi + Yi)"
    by (simp add: val_D_schur[OF cn iN] schur_def gi_def bi_def X0_def Xi_def Yi_def)
  have s: "schur xs ys x0 i i j = gi * bj * (X0 + Yj) / (Xi + Yj)"
    by (simp add: schur_def gi_def bj_def X0_def Xi_def Yj_def)
  show ?thesis unfolding U D s by (rule row_field[OF C Dd E bi])
qed

lemma schur_col:
  assumes cn: "cauchy_nodes xs ys x0 N" and ij: "j < i" "i < N"
  shows "GF (val_L xs ys i j) * GF (val_D xs ys x0 N j) = schur xs ys x0 j i j"
proof -
  have jN: "j < N" using ij by simp
  define Xi where "Xi = GF (xs i)"
  define Xj where "Xj = GF (xs j)"
  define Yj where "Yj = GF (ys j)"
  define X0 where "X0 = GF x0"
  define gi where "gi = GF (gen_g_val xs ys j i)"
  define gj where "gj = GF (gen_g_val xs ys j j)"
  define bj where "bj = GF (gen_b_val xs ys j j)"
  have ne: "xs j \<noteq> ys j" "xs i \<noteq> ys j"
    using cn ij jN unfolding cauchy_nodes_def by blast+
  have C: "Xj + Yj \<noteq> 0" and Dd: "Xi + Yj \<noteq> 0"
    unfolding Xi_def Xj_def Yj_def using ne by (simp_all add: GF_add_neq_0)
  have gj: "gj \<noteq> 0" unfolding gj_def using cn jN by (intro gen_g_val_nz) simp_all
  have L: "GF (val_L xs ys i j) = (gi / (Xi + Yj)) / (gj / (Xj + Yj))"
    by (simp add: val_L_def raw_L_def piv_L_def GF_div GF_add gi_def gj_def Xi_def Xj_def Yj_def)
  have D: "GF (val_D xs ys x0 N j) = gj * bj * (X0 + Yj) / (Xj + Yj)"
    by (simp add: val_D_schur[OF cn jN] schur_def gj_def bj_def X0_def Xj_def Yj_def)
  have s: "schur xs ys x0 j i j = gi * bj * (X0 + Yj) / (Xi + Yj)"
    by (simp add: schur_def gi_def bj_def X0_def Xi_def Yj_def)
  show ?thesis unfolding L D s by (rule col_field[OF C Dd gj])
qed

lemma GF_xor_bytes: "GF (xor_bytes (map f [0..<n])) = (\<Sum>c<n. GF (f c))"
  by (induction n) (simp_all add: xor_bytes_append GF_xor GF_0)

lemma ldu_sum:
  fixes xs ys :: "nat \<Rightarrow> byte" and x0 :: byte and i j N :: nat
  assumes cn: "cauchy_nodes xs ys x0 N" and ij: "i < N" "j < N"
  defines "t \<equiv> \<lambda>c. (if c < i then GF (val_L xs ys i c) else if c = i then 1 else 0)
                     * GF (val_D xs ys x0 N c)
                     * (if c < j then GF (val_U xs ys x0 c j) else if c = j then 1 else 0)"
  assumes n: "min i j < n"
  shows "(\<Sum>c<n. t c) = schur xs ys x0 0 i j"
proof -
  define m where "m = min i j"
  have mi: "m \<le> i" and mj: "m \<le> j" by (simp_all add: m_def)
  have low: "(\<Sum>c<m. t c) = schur xs ys x0 0 i j + schur xs ys x0 m i j"
  proof -
    have "(\<Sum>c<m. t c) =
          (\<Sum>c<m. GF (val_L xs ys i c) * GF (val_D xs ys x0 N c) * GF (val_U xs ys x0 c j))"
      using mi mj by (intro sum.cong) (simp_all add: t_def)
    then show ?thesis using schur_telescope[OF cn mi mj ij] by simp
  qed
  have mid: "t m = schur xs ys x0 m i j"
  proof -
    consider "i = j" | "i < j" | "j < i" by linarith
    then show ?thesis
    proof cases
      case 1
      then have "m = i" "m = j" by (simp_all add: m_def)
      then show ?thesis using val_D_schur[OF cn ij(1)] by (simp add: t_def)
    next
      case 2
      then have "m = i" by (simp add: m_def)
      then show ?thesis using schur_row[OF cn 2 ij(2)] 2 by (simp add: t_def mult.assoc)
    next
      case 3
      then have "m = j" by (simp add: m_def)
      then show ?thesis using schur_col[OF cn 3 ij(1)] 3 by (simp add: t_def)
    qed
  qed
  have up: "(\<Sum>c<Suc m. t c) = schur xs ys x0 0 i j"
    using low mid by (simp add: add.assoc)
  have high: "\<And>c. m < c \<Longrightarrow> t c = 0"
  proof -
    fix c assume "m < c"
    then have "i < c \<or> j < c" by (auto simp: m_def min_def split: if_splits)
    then show "t c = 0" by (auto simp: t_def)
  qed
  have "Suc m \<le> n" using n by (simp add: m_def)
  then show ?thesis
  proof (induction n rule: nat_induct_at_least)
    case base
    then show ?case by (rule up)
  next
    case (Suc n)
    then have "t n = 0" by (intro high) simp
    then show ?case using Suc.IH by simp
  qed
qed

lemma ldu_product_cauchy:
  fixes mem :: "byte list"
  assumes cn: "cauchy_nodes xs ys x0 N"
    and L: "\<forall>k j. k < j \<and> j < N \<longrightarrow>
              mem ! (((N - 1) * N) div 2 + N + L_index N j k) = val_L xs ys j k"
    and U: "\<forall>k j. k < j \<and> j < N \<longrightarrow> mem ! U_index N k j = val_U xs ys x0 k j"
    and D: "\<forall>k<N. mem ! (((N - 1) * N) div 2 + k) = val_D xs ys x0 N k"
    and ij: "i < N" "j < N"
  shows "ldu_product mem N i j = GetMatrixElement (xs i) x0 (ys j)"
proof -
  let ?t = "\<lambda>c. (if c < i then GF (val_L xs ys i c) else if c = i then 1 else 0)
                     * GF (val_D xs ys x0 N c)
                     * (if c < j then GF (val_U xs ys x0 c j) else if c = j then 1 else 0)"
  have tm: "\<And>c. c < N \<Longrightarrow> GF (ldu_term mem N i j c) = ?t c"
  proof -
    fix c assume c: "c < N"
    have l: "GF (ldu_L mem N i c) = (if c < i then GF (val_L xs ys i c) else if c = i then 1 else 0)"
      using L ij by (simp add: ldu_L_def GF_0 GF_1)
    have u: "GF (ldu_U mem N c j) = (if c < j then GF (val_U xs ys x0 c j) else if c = j then 1 else 0)"
      using U ij by (simp add: ldu_U_def GF_0 GF_1)
    have d: "ldu_D mem N c = val_D xs ys x0 N c" using D c by (simp add: ldu_D_def)
    show "GF (ldu_term mem N i j c) = ?t c"
      unfolding ldu_term_def GF_mul l u d ..
  qed
  have "GF (ldu_product mem N i j) = (\<Sum>c<N. GF (ldu_term mem N i j c))"
    unfolding ldu_product_def by (rule GF_xor_bytes)
  also have "\<dots> = (\<Sum>c<N. ?t c)" by (intro sum.cong) (simp_all add: tm)
  also have "\<dots> = schur xs ys x0 0 i j"
    using ij by (intro ldu_sum[OF cn ij]) simp
  also have "\<dots> = GF (GetMatrixElement (xs i) x0 (ys j))" by (rule schur_0)
  finally show ?thesis by simp
qed

lemma Initialize_nodes:
  assumes k1: "0 < sint (OriginalCount params)" and k255: "sint (OriginalCount params) \<le> 255"
    and len: "length blocks = nat (sint (OriginalCount params))"
    and dist: "distinct (map Index blocks)"
    and lE: "length (ErasuresIndices decoder) = 256"
    and lR: "length (Recovery decoder) = 256"
    and lO: "length (Original decoder) = 256"
    and init: "Initialize decoder params blocks = (0, d)"
  shows "cauchy_nodes (rec_x d blocks) (era_y d) (norm_x0 d) (RecoveryCount' d)"
    and "RecoveryCount' d \<le> nat (sint (OriginalCount params))"
    and "\<forall>i<RecoveryCount' d. Recovery d ! i < length blocks"
    and "Params d = params"
proof -
  define k where "k = nat (sint (OriginalCount params))"
  define N where "N = RecoveryCount' d"
  define R where "R = filter (\<lambda>p. \<not> is_original params blocks p) [0..<k]"
  define E where "E = filter (\<lambda>r. (of_nat r :: byte) \<notin> Index ` set blocks) [0..<k]"
  have k0: "0 \<le> sint (OriginalCount params)" and k256: "sint (OriginalCount params) \<le> 256"
    using k1 k255 by simp_all
  have k: "0 < k" "k \<le> 255" using k1 k255 by (simp_all add: k_def)
  obtain d' where d': "Initialize decoder params blocks = (0, d')" "Params d' = params"
    "RecoveryCount' d' = length (filter (\<lambda>p. \<not> is_original params blocks p) [0..<k])"
    "take (RecoveryCount' d') (Recovery d') = filter (\<lambda>p. \<not> is_original params blocks p) [0..<k]"
    "take (RecoveryCount' d') (ErasuresIndices d') =
       map of_nat (filter (\<lambda>r. (of_nat r :: byte) \<notin> Index ` set blocks) [0..<k])"
    "length (filter (\<lambda>r. (of_nat r :: byte) \<notin> Index ` set blocks) [0..<k]) = RecoveryCount' d'"
    using Initialize_distinct[OF k0 k256 len dist lE lR lO] unfolding k_def by blast
  have dd: "d' = d" using d'(1) init by simp
  have P: "Params d = params" and NR: "length R = N" and NE: "length E = N"
    and tR: "take N (Recovery d) = R" and tE: "take N (ErasuresIndices d) = map of_nat E"
    using d'(2-6) unfolding dd R_def E_def N_def by simp_all
  have Ri: "\<And>i. i < N \<Longrightarrow> Recovery d ! i = R ! i"
  proof -
    fix i assume "i < N"
    then have "take N (Recovery d) ! i = Recovery d ! i" by simp
    then show "Recovery d ! i = R ! i" by (simp only: tR)
  qed
  have Ei: "\<And>j. j < N \<Longrightarrow> era_y d j = of_nat (E ! j)"
  proof -
    fix j assume j: "j < N"
    then have "take N (ErasuresIndices d) ! j = ErasuresIndices d ! j" by simp
    then have "ErasuresIndices d ! j = map of_nat E ! j" by (simp only: tE)
    then show "era_y d j = of_nat (E ! j)" using j NE by (simp add: era_y_def)
  qed
  have Rm: "\<And>i. i < N \<Longrightarrow> R ! i < k \<and> k \<le> unat (Index (blocks ! (R ! i)))"
  proof -
    fix i assume "i < N"
    then have "R ! i \<in> set R" using NR by (intro nth_mem) simp
    then have "R ! i < k" "\<not> is_original params blocks (R ! i)" by (simp_all add: R_def)
    then show "R ! i < k \<and> k \<le> unat (Index (blocks ! (R ! i)))"
      by (simp add: is_original_iff k_def not_less)
  qed
  have Em: "\<And>j. j < N \<Longrightarrow> E ! j < k"
  proof -
    fix j assume "j < N"
    then have "E ! j \<in> set E" using NE by (intro nth_mem) simp
    then show "E ! j < k" by (simp add: E_def)
  qed
  have dR: "distinct R" and dE: "distinct E" by (simp_all add: R_def E_def)
  have x: "\<And>i. i < N \<Longrightarrow> rec_x d blocks i = Index (blocks ! (R ! i))"
    by (simp add: rec_x_def Ri)
  have y: "\<And>j. j < N \<Longrightarrow> unat (era_y d j) = E ! j"
  proof -
    fix j assume j: "j < N"
    have "E ! j < 256" using Em[OF j] k by simp
    then show "unat (era_y d j) = E ! j" by (simp only: Ei[OF j] unat_byte_of_nat)
  qed
  have x0: "unat (norm_x0 d) = k"
  proof -
    have "OriginalCount params = of_nat k" unfolding k_def by (rule cint_of_nat[OF k0])
    then have "norm_x0 d = of_nat k" by (simp only: norm_x0_def P byte_of_cint_of_nat)
    then show ?thesis using k by (simp add: unat_byte_of_nat)
  qed
  have c1: "\<forall>i<N. \<forall>j<N. rec_x d blocks i \<noteq> era_y d j"
  proof (intro allI impI)
    fix i j assume i: "i < N" and j: "j < N"
    have "unat (era_y d j) < unat (rec_x d blocks i)"
      using Rm[OF i] Em[OF j] by (simp add: x[OF i] y[OF j])
    then show "rec_x d blocks i \<noteq> era_y d j" by auto
  qed
  have c2: "\<forall>i<N. \<forall>j<N. i \<noteq> j \<longrightarrow> rec_x d blocks i \<noteq> rec_x d blocks j"
  proof (intro allI impI)
    fix i j assume i: "i < N" and j: "j < N" and ij: "i \<noteq> j"
    have ne: "R ! i \<noteq> R ! j" using dR i j ij NR by (simp add: nth_eq_iff_index_eq)
    have li: "R ! i < length (map Index blocks)" and lj: "R ! j < length (map Index blocks)"
      using Rm[OF i] Rm[OF j] len by (simp_all add: k_def)
    have "map Index blocks ! (R ! i) \<noteq> map Index blocks ! (R ! j)"
      using dist li lj ne by (simp only: nth_eq_iff_index_eq) simp
    then show "rec_x d blocks i \<noteq> rec_x d blocks j"
      using li lj by (simp add: x[OF i] x[OF j])
  qed
  have c3: "\<forall>i<N. \<forall>j<N. i \<noteq> j \<longrightarrow> era_y d i \<noteq> era_y d j"
  proof (intro allI impI)
    fix i j assume i: "i < N" and j: "j < N" and ij: "i \<noteq> j"
    have "E ! i \<noteq> E ! j" using dE i j ij NE by (simp add: nth_eq_iff_index_eq)
    then have "unat (era_y d i) \<noteq> unat (era_y d j)" by (simp only: y[OF i] y[OF j]) simp
    then show "era_y d i \<noteq> era_y d j" by auto
  qed
  have c4: "\<forall>j<N. norm_x0 d \<noteq> era_y d j"
  proof (intro allI impI)
    fix j assume j: "j < N"
    have "unat (era_y d j) < unat (norm_x0 d)" using Em[OF j] by (simp add: y[OF j] x0)
    then show "norm_x0 d \<noteq> era_y d j" by auto
  qed
  show "cauchy_nodes (rec_x d blocks) (era_y d) (norm_x0 d) (RecoveryCount' d)"
    unfolding cauchy_nodes_def N_def[symmetric] using c1 c2 c3 c4 by blast
  have "length R \<le> length [0..<k]" unfolding R_def by (rule length_filter_le)
  then show "RecoveryCount' d \<le> nat (sint (OriginalCount params))"
    using NR by (simp add: N_def k_def)
  show "\<forall>i<RecoveryCount' d. Recovery d ! i < length blocks"
    using Rm Ri len by (simp add: N_def k_def)
  show "Params d = params" by (rule P)
qed

text \<open>
  Claim C2. Let the decoder state come from \<open>Initialize\<close> on \<open>OriginalCount\<close> descriptors
  with pairwise distinct indices, for valid parameters, and let \<open>N = RecoveryCount\<close> be at
  least 2. \<open>GenerateLDUDecomposition\<close>, called as \<open>Decode\<close> calls it (\<open>matrix_U\<close> at the
  start of the matrix memory, \<open>diag_D\<close> after \<open>(N - 1) * N / 2\<close> bytes and \<open>matrix_L\<close> after
  \<open>N\<close> more), whatever the uninitialised arrays held, leaves there an LDU decomposition of
  the Cauchy matrix: with L the unit lower triangular matrix whose strict lower part is read
  column after column, each from the top, from \<open>matrix_L\<close>, D the diagonal in \<open>diag_D\<close>,
  and U the unit upper triangular matrix whose strict upper part is read from \<open>matrix_U\<close>,
  columns from the last to the second and each from the bottom, the entry \<open>(i, j)\<close> of
  \<open>L \<cdot> D \<cdot> U\<close> is the matrix element of the row index of \<open>Recovery[i]\<close>, the normaliser
  \<open>OriginalCount\<close> and the erased column \<open>ErasuresIndices[j]\<close>.
\<close>

theorem ldu_factorisation:
  assumes "0 < sint (OriginalCount params)" and "0 < sint (RecoveryCount params)"
    and "sint (OriginalCount params) + sint (RecoveryCount params) \<le> 256"
    and "length blocks = nat (sint (OriginalCount params))"
    and "distinct (map Index blocks)"
    and "length (ErasuresIndices decoder) = 256"
    and "length (Recovery decoder) = 256"
    and "length (Original decoder) = 256"
    and "Initialize decoder params blocks = (0, d)"
    and "N = RecoveryCount' d" and "2 \<le> N"
    and "length g0 = 256" and "length b0 = 256" and "length rot0 = 256"
    and "N * N \<le> length matrix"
    and "i < N" and "j < N"
  shows "ldu_product
           (GenerateLDUDecomposition d blocks g0 b0 rot0 matrix
              (((N - 1) * N) div 2 + N) (((N - 1) * N) div 2) 0) N i j =
         GetMatrixElement (Index (blocks ! (Recovery d ! i))) (ucast (OriginalCount params))
           (ErasuresIndices d ! j)"
proof -
  have k255: "sint (OriginalCount params) \<le> 255" using assms(2,3) by simp
  note nodes = Initialize_nodes[OF assms(1) k255 assms(4-9)]
  have P: "Params d = params" by (rule nodes(4))
  have N0: "0 < N" using assms(11) by simp
  have "N \<le> nat (sint (OriginalCount params))" using nodes(2) assms(10) by simp
  then have N256: "N \<le> 256" using k255 by simp
  have lens: "N \<le> length g0" "N \<le> length b0" "N \<le> length rot0"
    using N256 assms(12-14) by simp_all
  note w = ldu_written[OF assms(10) N0 assms(15) lens, of blocks]
  have cn: "cauchy_nodes (rec_x d blocks) (era_y d) (norm_x0 d) N"
    using nodes(1) assms(10) by simp
  have "ldu_product
           (GenerateLDUDecomposition d blocks g0 b0 rot0 matrix
              (((N - 1) * N) div 2 + N) (((N - 1) * N) div 2) 0) N i j =
        GetMatrixElement (rec_x d blocks i) (norm_x0 d) (era_y d j)"
    by (rule ldu_product_cauchy[OF cn w(2) w(3) w(4) assms(16,17)])
  then show ?thesis by (simp add: rec_x_def era_y_def norm_x0_def P)
qed

theorem ldu_factorisation_witness:
  "\<exists>d. Initialize (uninit_decoder 0xFF) \<lparr>BlockBytes = 1, OriginalCount = 3, RecoveryCount = 2\<rparr>
          [\<lparr>Block = [1], Index = 4\<rparr>, \<lparr>Block = [2], Index = 1\<rparr>, \<lparr>Block = [3], Index = 3\<rparr>] = (0, d) \<and>
       RecoveryCount' d = 2 \<and>
       ldu_product
         (GenerateLDUDecomposition d
            [\<lparr>Block = [1], Index = 4\<rparr>, \<lparr>Block = [2], Index = 1\<rparr>, \<lparr>Block = [3], Index = 3\<rparr>]
            (replicate 256 0xFF) (replicate 256 0xFF) (replicate 256 0xFF) (replicate 2048 0xFF)
            3 1 0) 2 0 1 =
       GetMatrixElement
         (Index ([\<lparr>Block = [1], Index = 4\<rparr>, \<lparr>Block = [2], Index = 1\<rparr>, \<lparr>Block = [3], Index = 3\<rparr>]
                   ! (Recovery d ! 0)))
         3 (ErasuresIndices d ! 1)"
proof -
  let ?p = "\<lparr>BlockBytes = 1, OriginalCount = 3, RecoveryCount = 2\<rparr> :: cm256_encoder_params"
  let ?bl = "[\<lparr>Block = [1], Index = 4\<rparr>, \<lparr>Block = [2], Index = 1\<rparr>, \<lparr>Block = [3], Index = 3\<rparr>] :: cm256_block list"
  let ?v = "replicate 256 (0xFF :: byte)"
  have k: "nat (sint (OriginalCount ?p)) = 3" by simp
  have upt: "[0..<3] = [0, 1, 2::nat]" by code_simp
  have h0: "0 \<le> sint (OriginalCount ?p)" "sint (OriginalCount ?p) \<le> 256" by simp_all
  have h1: "0 < sint (OriginalCount ?p)" "0 < sint (RecoveryCount ?p)"
    "sint (OriginalCount ?p) + sint (RecoveryCount ?p) \<le> 256" by simp_all
  have h2: "length ?bl = nat (sint (OriginalCount ?p))" "distinct (map Index ?bl)"
    "length (ErasuresIndices (uninit_decoder 0xFF)) = 256"
    "length (Recovery (uninit_decoder 0xFF)) = 256"
    "length (Original (uninit_decoder 0xFF)) = 256"
    by (simp_all add: uninit_decoder_def)
  obtain d where d: "Initialize (uninit_decoder 0xFF) ?p ?bl = (0, d)"
    and "RecoveryCount' d = length (filter (\<lambda>p. \<not> is_original ?p ?bl p) [0..<nat (sint (OriginalCount ?p))])"
    using Initialize_distinct[OF h0 h2] by blast
  then have N: "RecoveryCount' d = 2" unfolding k upt by (simp add: is_original_def)
  have h3: "2 = RecoveryCount' d" "(2::nat) \<le> 2" "length ?v = 256"
    "2 * 2 \<le> length (replicate 2048 (0xFF :: byte))" "(0::nat) < 2" "(1::nat) < 2"
    using N by simp_all
  have e: "((2 - 1) * 2) div 2 = (1::nat)" "(1::nat) + 2 = 3"
    "ucast (OriginalCount ?p) = (3::byte)" by simp_all
  note c = ldu_factorisation[OF h1 h2 d h3(1,2) h3(3) h3(3) h3(3) h3(4,5,6), unfolded e]
  show ?thesis
  proof (intro exI[of _ d] conjI)
    show "Initialize (uninit_decoder 0xFF) ?p ?bl = (0, d)" by (rule d)
    show "RecoveryCount' d = 2" by (rule N)
    show "ldu_product (GenerateLDUDecomposition d ?bl ?v ?v ?v (replicate 2048 0xFF) 3 1 0) 2 0 1 =
          GetMatrixElement (Index (?bl ! (Recovery d ! 0))) 3 (ErasuresIndices d ! 1)"
      by (rule c)
  qed
qed

section \<open>Round trip\<close>

subsection \<open>The passes of the solver on the recovery rows\<close>

lemma set_row:
  assumes ok: "rec_places_ok d (length bl0)" and fr: "rows_frame d n bl0 bl"
    and i: "i < RecoveryCount' d" and buf: "length buf = n"
  shows "rows_frame d n bl0 (set_Block bl (Recovery d ! i) buf)"
    and "rec_row d (set_Block bl (Recovery d ! i) buf) i = buf"
    and "\<forall>i'<RecoveryCount' d. i' \<noteq> i \<longrightarrow>
           rec_row d (set_Block bl (Recovery d ! i) buf) i' = rec_row d bl i'"
proof -
  have len: "length bl = length bl0" using fr by (simp add: rows_frame_def)
  have pi: "Recovery d ! i < length bl" using ok i len by (simp add: rec_places_ok_def)
  show r: "rec_row d (set_Block bl (Recovery d ! i) buf) i = buf"
    using pi by (simp add: rec_row_def set_Block_def)
  show o: "\<forall>i'<RecoveryCount' d. i' \<noteq> i \<longrightarrow>
           rec_row d (set_Block bl (Recovery d ! i) buf) i' = rec_row d bl i'"
  proof (intro allI impI)
    fix i' assume "i' < RecoveryCount' d" "i' \<noteq> i"
    then have "Recovery d ! i' \<noteq> Recovery d ! i" using ok i by (simp add: rec_places_ok_def)
    then show "rec_row d (set_Block bl (Recovery d ! i) buf) i' = rec_row d bl i'"
      by (simp add: rec_row_def set_Block_def)
  qed
  show "rows_frame d n bl0 (set_Block bl (Recovery d ! i) buf)"
    unfolding rows_frame_def
  proof (intro conjI allI impI)
    show "length (set_Block bl (Recovery d ! i) buf) = length bl0" using len by simp
  next
    fix p assume p: "p < length bl0" "\<forall>i<RecoveryCount' d. p \<noteq> Recovery d ! i"
    then have "p \<noteq> Recovery d ! i" using i by simp
    then have "set_Block bl (Recovery d ! i) buf ! p = bl ! p" by (simp add: set_Block_def)
    then show "set_Block bl (Recovery d ! i) buf ! p = bl0 ! p"
      using fr p by (simp add: rows_frame_def)
  next
    fix i' assume i': "i' < RecoveryCount' d"
    show "length (rec_row d (set_Block bl (Recovery d ! i) buf) i') = n"
    proof (cases "i' = i")
      case True
      then show ?thesis using r buf by simp
    next
      case False
      then show ?thesis using o i' fr by (simp add: rows_frame_def)
    qed
  qed
qed

lemma length_set_Index [simp]: "length (set_Index blocks p v) = length blocks"
  by (simp add: set_Index_def)

lemma Block_set_Index [simp]: "Block (set_Index blocks p v ! q) = Block (blocks ! q)"
proof (cases "p < length blocks")
  case True
  then show ?thesis by (cases "q = p") (simp_all add: set_Index_def)
next
  case False
  then have "blocks[p := (blocks ! p)\<lparr>Index := v\<rparr>] = blocks"
    by (intro list_update_beyond) simp
  then show ?thesis by (simp add: set_Index_def)
qed

text \<open>One elimination step adds a multiple of row \<open>j\<close> to row \<open>i\<close>.\<close>

lemma elim_step:
  fixes matrix :: "byte list" and ptr :: nat
  assumes ok: "rec_places_ok d (length bl0)" and fr: "rows_frame d n bl0 bl"
    and n: "n = nat (sint (BlockBytes (Params d)))"
    and i: "i < RecoveryCount' d" and j: "j < RecoveryCount' d" and ij: "i \<noteq> j"
  defines "st \<equiv> Decode_elim_step d matrix j (bl, ptr) i"
  shows "rows_frame d n bl0 (fst st)" and "snd st = ptr + 1"
    and "\<forall>t<n. GF (rec_row d (fst st) i ! t) =
                 GF (rec_row d bl i ! t) + GF (matrix ! ptr) * GF (rec_row d bl j ! t)"
    and "\<forall>i'<RecoveryCount' d. i' \<noteq> i \<longrightarrow> rec_row d (fst st) i' = rec_row d bl i'"
proof -
  let ?buf = "gf256_muladd_mem (rec_row d bl i) (matrix ! ptr) (rec_row d bl j) n"
  have st: "st = (set_Block bl (Recovery d ! i) ?buf, ptr + 1)"
    by (simp add: st_def Decode_elim_step_def rec_row_def n)
  have li: "length (rec_row d bl i) = n" and lj: "length (rec_row d bl j) = n"
    using fr i j by (simp_all add: rows_frame_def)
  have lb: "length ?buf = n" using li by simp
  note sr = set_row[OF ok fr i lb]
  show "rows_frame d n bl0 (fst st)" using sr(1) by (simp add: st)
  show "snd st = ptr + 1" by (simp add: st)
  show "\<forall>i'<RecoveryCount' d. i' \<noteq> i \<longrightarrow> rec_row d (fst st) i' = rec_row d bl i'"
    using sr(3) by (simp add: st)
  show "\<forall>t<n. GF (rec_row d (fst st) i ! t) =
                 GF (rec_row d bl i ! t) + GF (matrix ! ptr) * GF (rec_row d bl j ! t)"
  proof (intro allI impI)
    fix t assume t: "t < n"
    have "rec_row d (fst st) i ! t = ?buf ! t" using sr(2) by (simp add: st)
    also have "\<dots> = rec_row d bl i ! t XOR gf256_mul (matrix ! ptr) (rec_row d bl j ! t)"
      using li lj t by (simp add: nth_gf256_muladd_mem)
    finally show "GF (rec_row d (fst st) i ! t) =
                 GF (rec_row d bl i ! t) + GF (matrix ! ptr) * GF (rec_row d bl j ! t)"
      by (simp add: GF_xor GF_mul)
  qed
qed

text \<open>
  The inner loop of an elimination pass over the rows \<open>is\<close>, none of them \<open>j\<close>: the row
  at position \<open>q\<close> of the list receives the multiple of row \<open>j\<close> by the \<open>q\<close>-th byte read.
\<close>

lemma elim_loop:
  fixes matrix :: "byte list" and ptr :: nat
  assumes ok: "rec_places_ok d (length bl0)" and fr: "rows_frame d n bl0 bl"
    and n: "n = nat (sint (BlockBytes (Params d)))"
    and j: "j < RecoveryCount' d"
    and "distinct is" and "\<forall>i\<in>set is. i < RecoveryCount' d \<and> i \<noteq> j"
  defines "st \<equiv> foldl (Decode_elim_step d matrix j) (bl, ptr) is"
  shows "rows_frame d n bl0 (fst st) \<and> snd st = ptr + length is \<and>
         (\<forall>q<length is. \<forall>t<n. GF (rec_row d (fst st) (is ! q) ! t) =
              GF (rec_row d bl (is ! q) ! t) + GF (matrix ! (ptr + q)) * GF (rec_row d bl j ! t)) \<and>
         (\<forall>i<RecoveryCount' d. i \<notin> set is \<longrightarrow> rec_row d (fst st) i = rec_row d bl i)"
  using assms(5,6) unfolding st_def
proof (induction "is" rule: rev_induct)
  case Nil
  then show ?case using fr by simp
next
  case (snoc i "is")
  let ?s = "foldl (Decode_elim_step d matrix j) (bl, ptr) is"
  have dis: "distinct is" and ni: "i \<notin> set is" using snoc.prems(1) by simp_all
  have all: "\<forall>i\<in>set is. i < RecoveryCount' d \<and> i \<noteq> j" using snoc.prems(2) by simp
  have i: "i < RecoveryCount' d" "i \<noteq> j" using snoc.prems(2) by simp_all
  note IH = snoc.IH[OF dis all]
  have fs: "rows_frame d n bl0 (fst ?s)" and ps: "snd ?s = ptr + length is" using IH by simp_all
  have s: "?s = (fst ?s, ptr + length is)" using ps by (simp add: prod_eq_iff)
  have fold: "foldl (Decode_elim_step d matrix j) (bl, ptr) (is @ [i]) =
              Decode_elim_step d matrix j (fst ?s, ptr + length is) i"
    using s by simp
  note es = elim_step[OF ok fs n i(1) j i(2), of matrix "ptr + length is"]
  have rowj: "rec_row d (fst ?s) j = rec_row d bl j"
    using IH j all by blast
  have rowi: "rec_row d (fst ?s) i = rec_row d bl i"
    using IH i(1) ni by blast
  show ?case unfolding fold
  proof (intro conjI allI impI)
    show "rows_frame d n bl0 (fst (Decode_elim_step d matrix j (fst ?s, ptr + length is) i))"
      by (rule es(1))
    show "snd (Decode_elim_step d matrix j (fst ?s, ptr + length is) i) = ptr + length (is @ [i])"
      using es(2) by simp
  next
    fix q t assume q: "q < length (is @ [i])" and t: "t < n"
    show "GF (rec_row d (fst (Decode_elim_step d matrix j (fst ?s, ptr + length is) i)) ((is @ [i]) ! q) ! t) =
          GF (rec_row d bl ((is @ [i]) ! q) ! t) + GF (matrix ! (ptr + q)) * GF (rec_row d bl j ! t)"
    proof (cases "q = length is")
      case True
      then show ?thesis using es(3) t rowj rowi by simp
    next
      case False
      then have ql: "q < length is" using q by simp
      then have "is ! q \<in> set is" by (rule nth_mem)
      then have ne: "is ! q \<noteq> i" and lt: "is ! q < RecoveryCount' d" using ni all by auto
      have "rec_row d (fst (Decode_elim_step d matrix j (fst ?s, ptr + length is) i)) (is ! q) =
            rec_row d (fst ?s) (is ! q)" using es(4) ne lt by blast
      then show ?thesis using IH ql t by (simp add: nth_append)
    qed
  next
    fix i' assume i': "i' < RecoveryCount' d" "i' \<notin> set (is @ [i])"
    then have "i' \<noteq> i" "i' \<notin> set is" by simp_all
    then show "rec_row d (fst (Decode_elim_step d matrix j (fst ?s, ptr + length is) i)) i' =
               rec_row d bl i'"
      using es(4) IH i'(1) by simp
  qed
qed

lemma gf_cancel_mid: "(x + (y + s)) + y = x + (s :: gf)"
proof -
  have "(x + (y + s)) + y = (x + s) + (y + y)" by (simp only: ac_simps)
  then show ?thesis by (simp only: gf_add_self add_0_right)
qed

lemma gf_cancel_end: "(x + (s + y)) + y = x + (s :: gf)"
proof -
  have "(x + (s + y)) + y = (x + s) + (y + y)" by (simp only: ac_simps)
  then show ?thesis by (simp only: gf_add_self add_0_right)
qed

lemma lower_pass:
  fixes matrix :: "byte list" and offL :: nat and Z :: "nat \<Rightarrow> gf" and Lc :: "nat \<Rightarrow> nat \<Rightarrow> gf"
    and d :: CM256Decoder
  assumes ok: "rec_places_ok d (length bl0)" and fr: "rows_frame d n bl0 bl"
    and n: "n = nat (sint (BlockBytes (Params d)))"
    and N: "N = RecoveryCount' d" "0 < N" and t: "t < n"
    and Lc: "\<forall>i c. c < i \<and> i < N \<longrightarrow> GF (matrix ! (offL + L_index N i c)) = Lc i c"
    and init: "\<forall>i<N. GF (rec_row d bl i ! t) = Z i + (\<Sum>c<i. Lc i c * Z c)"
    and J: "J \<le> N - 1"
  defines "st \<equiv> foldl (Decode_lower d matrix) (bl, offL) [0..<J]"
  shows "rows_frame d n bl0 (fst st) \<and> snd st = offL + L_col N J \<and>
         (\<forall>i<N. GF (rec_row d (fst st) i ! t) = Z i + (\<Sum>c\<in>{min J i..<i}. Lc i c * Z c))"
  using J unfolding st_def
proof (induction J)
  case 0
  show ?case using fr init by (simp add: atLeast0LessThan)
next
  case (Suc J)
  define s where "s = foldl (Decode_lower d matrix) (bl, offL) [0..<J]"
  define js where "js = [Suc J..<N]"
  have JN: "Suc J < N" "J < N" "J \<le> N - 1" using Suc.prems by simp_all
  note IH = Suc.IH[OF JN(3), folded s_def]
  have fs: "rows_frame d n bl0 (fst s)" and ps: "snd s = offL + L_col N J" using IH by simp_all
  have s: "s = (fst s, offL + L_col N J)" using ps by (simp add: prod_eq_iff)
  define st where "st = foldl (Decode_elim_step d matrix J) (fst s, offL + L_col N J) js"
  have "foldl (Decode_lower d matrix) (bl, offL) [0..<Suc J] = Decode_lower d matrix s J"
    by (simp add: s_def)
  also have "\<dots> = foldl (Decode_elim_step d matrix J) s js"
    by (simp add: Decode_lower_def js_def N(1))
  also have "\<dots> = st" unfolding st_def using s by simp
  finally have fold: "foldl (Decode_lower d matrix) (bl, offL) [0..<Suc J] = st" .
  have Jd: "J < RecoveryCount' d" using JN N by simp
  have dis: "distinct js" by (simp add: js_def)
  have all: "\<forall>i\<in>set js. i < RecoveryCount' d \<and> i \<noteq> J" using N by (simp add: js_def)
  note el = elim_loop[OF ok fs n Jd dis all, of matrix "offL + L_col N J", folded st_def]
  have el1: "rows_frame d n bl0 (fst st)" and el2: "snd st = offL + L_col N J + length js"
    and el3: "\<forall>q<length js. \<forall>t<n. GF (rec_row d (fst st) (js ! q) ! t) =
              GF (rec_row d (fst s) (js ! q) ! t) +
              GF (matrix ! (offL + L_col N J + q)) * GF (rec_row d (fst s) J ! t)"
    and el4: "\<forall>i<RecoveryCount' d. i \<notin> set js \<longrightarrow> rec_row d (fst st) i = rec_row d (fst s) i"
    using el by blast+
  have vJ: "GF (rec_row d (fst s) J ! t) = Z J" using IH JN by simp
  show ?case unfolding fold
  proof (intro conjI allI impI)
    show "rows_frame d n bl0 (fst st)" by (rule el1)
    show "snd st = offL + L_col N (Suc J)" using el2 JN by (simp add: js_def)
  next
    fix i assume i: "i < N"
    show "GF (rec_row d (fst st) i ! t) = Z i + (\<Sum>c\<in>{min (Suc J) i..<i}. Lc i c * Z c)"
    proof (cases "J < i")
      case True
      define q where "q = i - Suc J"
      have q: "q < length js" and qi: "js ! q = i" using True i by (simp_all add: q_def js_def)
      have a: "GF (rec_row d (fst st) i ! t) =
            GF (rec_row d (fst s) i ! t) +
            GF (matrix ! (offL + L_col N J + q)) * GF (rec_row d (fst s) J ! t)"
        using el3[rule_format, OF q t] unfolding qi .
      have e: "offL + L_col N J + q = offL + L_index N i J"
        by (simp add: L_index_def q_def)
      have "GF (matrix ! (offL + L_index N i J)) = Lc i J" using Lc True i by blast
      then have b: "GF (matrix ! (offL + L_col N J + q)) = Lc i J" by (simp only: e)
      have "GF (rec_row d (fst s) i ! t) = Z i + (\<Sum>c\<in>{min J i..<i}. Lc i c * Z c)"
        using IH i by blast
      moreover have "min J i = J" using True by simp
      moreover have "(\<Sum>c\<in>{J..<i}. Lc i c * Z c) =
                     Lc i J * Z J + (\<Sum>c\<in>{Suc J..<i}. Lc i c * Z c)"
        using True by (rule sum.atLeast_Suc_lessThan)
      ultimately have c: "GF (rec_row d (fst s) i ! t) =
                          Z i + (Lc i J * Z J + (\<Sum>c\<in>{Suc J..<i}. Lc i c * Z c))"
        by (simp only:)
      have m: "min (Suc J) i = Suc J" using True by simp
      show ?thesis unfolding a b c vJ m by (rule gf_cancel_mid)
    next
      case False
      then have "i \<notin> set js" by (simp add: js_def)
      then have "rec_row d (fst st) i = rec_row d (fst s) i" using el4 i N by blast
      moreover have "min (Suc J) i = min J i" using False by simp
      moreover have "GF (rec_row d (fst s) i ! t) = Z i + (\<Sum>c\<in>{min J i..<i}. Lc i c * Z c)"
        using IH i by blast
      ultimately show ?thesis by (simp only:)
    qed
  qed
qed

lemma upper_pass:
  fixes matrix :: "byte list" and E :: "nat \<Rightarrow> gf" and Uc :: "nat \<Rightarrow> nat \<Rightarrow> gf"
    and d :: CM256Decoder and bl :: "cm256_block list"
  assumes ok: "rec_places_ok d (length bl0)" and fr: "rows_frame d n bl0 bl"
    and n: "n = nat (sint (BlockBytes (Params d)))"
    and N: "N = RecoveryCount' d" "0 < N" and t: "t < n"
    and Uc: "\<forall>i c. i < c \<and> c < N \<longrightarrow> GF (matrix ! U_index N i c) = Uc i c"
    and init: "\<forall>i<N. GF (rec_row d bl i ! t) = E i + (\<Sum>c\<in>{Suc i..<N}. Uc i c * E c)"
    and J: "J \<le> N - 1"
  defines "st \<equiv> foldl (Decode_upper d matrix) (bl, 0) (rev [Suc J..<N])"
  shows "rows_frame d n bl0 (fst st) \<and> snd st = tri (N - 1) - tri J \<and>
         (\<forall>i<N. GF (rec_row d (fst st) i ! t) = E i + (\<Sum>c\<in>{Suc i..<Suc J}. Uc i c * E c))"
  using J unfolding st_def
proof (induction J rule: inc_induct)
  case base
  have "[Suc (N - 1)..<N] = []" by simp
  moreover have "Suc (N - 1) = N" using N by simp
  ultimately show ?case using fr init by simp
next
  case (step m)
  define T where "T = tri (N - 1)"
  define j where "j = Suc m"
  define s where "s = foldl (Decode_upper d matrix) (bl, 0) (rev [Suc j..<N])"
  define js where "js = rev [0..<j]"
  have jN: "j < N" using step.hyps by (simp add: j_def)
  note IH = step.IH[folded j_def, folded s_def T_def]
  have fs: "rows_frame d n bl0 (fst s)" and ps: "snd s = T - tri j" using IH by simp_all
  have s: "s = (fst s, T - tri j)" using ps by (simp add: prod_eq_iff)
  define st where "st = foldl (Decode_elim_step d matrix j) (fst s, T - tri j) js"
  have up: "[j..<N] = j # [Suc j..<N]" using jN by (simp add: upt_rec)
  have "foldl (Decode_upper d matrix) (bl, 0) (rev [j..<N]) = Decode_upper d matrix s j"
    by (subst up) (simp add: s_def)
  also have "\<dots> = foldl (Decode_elim_step d matrix j) s js"
    by (simp only: Decode_upper_def js_def)
  also have "\<dots> = st" unfolding st_def using s by simp
  finally have fold: "foldl (Decode_upper d matrix) (bl, 0) (rev [Suc m..<N]) = st"
    by (simp only: j_def)
  have jd: "j < RecoveryCount' d" using jN N by simp
  have dis: "distinct js" by (simp add: js_def)
  have all: "\<forall>i\<in>set js. i < RecoveryCount' d \<and> i \<noteq> j" using jN N by (auto simp: js_def)
  have ljs: "length js = j" by (simp add: js_def)
  note el = elim_loop[OF ok fs n jd dis all, of matrix "T - tri j", folded st_def]
  have el1: "rows_frame d n bl0 (fst st)" and el2: "snd st = T - tri j + length js"
    and el3: "\<forall>q<length js. \<forall>t<n. GF (rec_row d (fst st) (js ! q) ! t) =
              GF (rec_row d (fst s) (js ! q) ! t) +
              GF (matrix ! (T - tri j + q)) * GF (rec_row d (fst s) j ! t)"
    and el4: "\<forall>i<RecoveryCount' d. i \<notin> set js \<longrightarrow> rec_row d (fst st) i = rec_row d (fst s) i"
    using el by blast+
  have "{Suc j..<Suc j} = {}" by simp
  then have vj: "GF (rec_row d (fst s) j ! t) = E j" using IH jN by simp
  have tj: "tri j \<le> T" unfolding T_def using jN by (intro tri_mono) simp
  have tm: "tri j = tri m + j" by (simp add: j_def)
  show ?case unfolding fold T_def[symmetric]
  proof (intro conjI allI impI)
    show "rows_frame d n bl0 (fst st)" by (rule el1)
    show "snd st = T - tri m" using el2 tj tm ljs by simp
  next
    fix i assume i: "i < N"
    show "GF (rec_row d (fst st) i ! t) = E i + (\<Sum>c\<in>{Suc i..<Suc m}. Uc i c * E c)"
    proof (cases "i < j")
      case True
      define q where "q = m - i"
      have q: "q < length js" using True by (simp add: q_def ljs j_def)
      have "js ! q = [0..<j] ! (length [0..<j] - Suc q)"
        unfolding js_def using q ljs by (intro rev_nth) simp
      also have "\<dots> = i" using True by (simp add: q_def j_def del: upt_Suc)
      finally have qi: "js ! q = i" .
      have a: "GF (rec_row d (fst st) i ! t) =
            GF (rec_row d (fst s) i ! t) +
            GF (matrix ! (T - tri j + q)) * GF (rec_row d (fst s) j ! t)"
        using el3[rule_format, OF q t] unfolding qi .
      have e: "T - tri j + q = U_index N i j"
        using True by (simp add: U_index_def q_def j_def T_def)
      have "GF (matrix ! U_index N i j) = Uc i j" using Uc True jN by blast
      then have b: "GF (matrix ! (T - tri j + q)) = Uc i j" by (simp only: e)
      have "GF (rec_row d (fst s) i ! t) = E i + (\<Sum>c\<in>{Suc i..<Suc j}. Uc i c * E c)"
        using IH i by blast
      moreover have "(\<Sum>c\<in>{Suc i..<Suc j}. Uc i c * E c) =
                     (\<Sum>c\<in>{Suc i..<j}. Uc i c * E c) + Uc i j * E j"
        using True by simp
      ultimately have c: "GF (rec_row d (fst s) i ! t) =
                          E i + ((\<Sum>c\<in>{Suc i..<j}. Uc i c * E c) + Uc i j * E j)"
        by (simp only:)
      show ?thesis unfolding a b c vj j_def[symmetric] by (rule gf_cancel_end)
    next
      case False
      then have "i \<notin> set js" by (simp add: js_def)
      then have "rec_row d (fst st) i = rec_row d (fst s) i" using el4 i N by blast
      moreover have "{Suc i..<Suc j} = {}" "{Suc i..<Suc m} = {}" using False by (simp_all add: j_def)
      moreover have "GF (rec_row d (fst s) i ! t) = E i + (\<Sum>c\<in>{Suc i..<Suc j}. Uc i c * E c)"
        using IH i by blast
      ultimately show ?thesis by (simp only:)
    qed
  qed
qed

lemma elim_step_Index [simp]:
  "map Index (fst (Decode_elim_step d matrix j st i)) = map Index (fst st)"
  by (simp add: Decode_elim_step_def)

lemma elim_loop_Index [simp]:
  "map Index (fst (foldl (Decode_elim_step d matrix j) st is)) = map Index (fst st)"
  by (induction "is" arbitrary: st) simp_all

lemma Decode_lower_Index [simp]:
  "map Index (fst (foldl (Decode_lower d matrix) st js)) = map Index (fst st)"
  by (induction js arbitrary: st) (simp_all add: Decode_lower_def)

lemma Decode_upper_Index [simp]:
  "map Index (fst (foldl (Decode_upper d matrix) st js)) = map Index (fst st)"
  by (induction js arbitrary: st) (simp_all add: Decode_upper_def)

lemma rows_frame_set_Index:
  assumes ok: "rec_places_ok d (length bl0)" and fr: "rows_frame d n bl0 bl"
    and i: "i < RecoveryCount' d"
  shows "rows_frame d n bl0 (set_Index bl (Recovery d ! i) v)"
  unfolding rows_frame_def
proof (intro conjI allI impI)
  show "length (set_Index bl (Recovery d ! i) v) = length bl0"
    using fr by (simp add: rows_frame_def)
next
  fix p assume p: "p < length bl0" "\<forall>i<RecoveryCount' d. p \<noteq> Recovery d ! i"
  then have "p \<noteq> Recovery d ! i" using i by simp
  then have "set_Index bl (Recovery d ! i) v ! p = bl ! p" by (simp add: set_Index_def)
  then show "set_Index bl (Recovery d ! i) v ! p = bl0 ! p"
    using fr p by (simp add: rows_frame_def)
next
  fix i' assume "i' < RecoveryCount' d"
  then show "length (rec_row d (set_Index bl (Recovery d ! i) v) i') = n"
    using fr by (simp add: rows_frame_def rec_row_def)
qed

lemma diag_pass:
  fixes matrix :: "byte list" and diag_D :: nat and d :: CM256Decoder and bl :: "cm256_block list"
  assumes ok: "rec_places_ok d (length bl0)" and fr: "rows_frame d n bl0 bl"
    and n: "n = nat (sint (BlockBytes (Params d)))"
    and I: "I \<le> RecoveryCount' d"
  defines "bl' \<equiv> foldl (Decode_diag d matrix diag_D) bl [0..<I]"
  shows "rows_frame d n bl0 bl' \<and>
         (\<forall>i<RecoveryCount' d. \<forall>t<n. rec_row d bl' i ! t =
            (if i < I then gf256_div (rec_row d bl i ! t) (matrix ! (diag_D + i))
             else rec_row d bl i ! t)) \<and>
         (\<forall>i<I. Index (bl' ! (Recovery d ! i)) = ErasuresIndices d ! i)"
  using I unfolding bl'_def
proof (induction I)
  case 0
  then show ?case using fr by simp
next
  case (Suc I)
  define b where "b = foldl (Decode_diag d matrix diag_D) bl [0..<I]"
  have I: "I < RecoveryCount' d" "I \<le> RecoveryCount' d" using Suc.prems by simp_all
  note IH = Suc.IH[OF I(2), folded b_def]
  have fb: "rows_frame d n bl0 b" using IH by simp
  define b1 where "b1 = set_Index b (Recovery d ! I) (ErasuresIndices d ! I)"
  define buf where "buf = gf256_div_mem (rec_row d b I) (rec_row d b I) (matrix ! (diag_D + I)) n"
  define b2 where "b2 = set_Block b1 (Recovery d ! I) buf"
  have fold: "foldl (Decode_diag d matrix diag_D) bl [0..<Suc I] = b2"
    by (simp add: b_def[symmetric] Decode_diag_def b2_def b1_def buf_def rec_row_def n)
  have f1: "rows_frame d n bl0 b1" unfolding b1_def by (rule rows_frame_set_Index[OF ok fb I(1)])
  have r1: "\<And>i. rec_row d b1 i = rec_row d b i" by (simp add: rec_row_def b1_def)
  have lI: "length (rec_row d b I) = n" using fb I by (simp add: rows_frame_def)
  have lb: "length buf = n" using lI by (simp add: buf_def)
  note sr = set_row[OF ok f1 I(1) lb, folded b2_def]
  have pI: "Recovery d ! I < length b1"
    using ok I f1 by (simp add: rec_places_ok_def rows_frame_def)
  have len_b: "length b = length bl0" using fb by (simp add: rows_frame_def)
  show ?case unfolding fold
  proof (intro conjI allI impI)
    show "rows_frame d n bl0 b2" by (rule sr(1))
  next
    fix i t assume i: "i < RecoveryCount' d" and t: "t < n"
    show "rec_row d b2 i ! t =
            (if i < Suc I then gf256_div (rec_row d bl i ! t) (matrix ! (diag_D + i))
             else rec_row d bl i ! t)"
    proof (cases "i = I")
      case True
      have "rec_row d b2 I ! t = buf ! t" using sr(2) by simp
      also have "\<dots> = gf256_div (rec_row d b I ! t) (matrix ! (diag_D + I))"
        unfolding buf_def using lI t by (simp add: nth_gf256_div_mem)
      also have "rec_row d b I ! t = rec_row d bl I ! t" using IH I t by simp
      finally show ?thesis using True by simp
    next
      case False
      then have "rec_row d b2 i = rec_row d b i" using sr(3) i r1 by simp
      moreover have "rec_row d b i ! t =
            (if i < I then gf256_div (rec_row d bl i ! t) (matrix ! (diag_D + i))
             else rec_row d bl i ! t)" using IH i t by blast
      moreover have "i < Suc I \<longleftrightarrow> i < I" using False by auto
      ultimately show ?thesis by (simp only:)
    qed
  next
    fix i assume i: "i < Suc I"
    show "Index (b2 ! (Recovery d ! i)) = ErasuresIndices d ! i"
    proof (cases "i = I")
      case True
      have "Index (b2 ! (Recovery d ! I)) = Index (b1 ! (Recovery d ! I))"
        using pI by (simp add: b2_def set_Block_def)
      also have "\<dots> = ErasuresIndices d ! I"
        using pI by (simp add: b1_def set_Index_def)
      finally show ?thesis using True by simp
    next
      case False
      then have iI: "i < I" using i by simp
      then have "Recovery d ! i \<noteq> Recovery d ! I" using ok I by (simp add: rec_places_ok_def)
      then have "b2 ! (Recovery d ! i) = b ! (Recovery d ! i)"
        by (simp add: b2_def b1_def set_Block_def set_Index_def)
      then show ?thesis using IH iI by simp
    qed
  qed
qed

lemma cancel_loop:
  fixes d :: CM256Decoder and bl :: "cm256_block list" and inBlock :: nat and inRow :: byte
  assumes ok: "rec_places_ok d (length bl0)" and fr: "rows_frame d n bl0 bl"
    and idx: "map Index bl = map Index bl0"
    and n: "n = nat (sint (BlockBytes (Params d)))"
    and inb: "inBlock < length bl0" "\<forall>i<RecoveryCount' d. inBlock \<noteq> Recovery d ! i"
      "length (Block (bl0 ! inBlock)) = n"
    and I: "I \<le> RecoveryCount' d"
  defines "bl' \<equiv> foldl (Decode_cancel_step d inBlock inRow) bl [0..<I]"
  shows "rows_frame d n bl0 bl' \<and>
         (\<forall>i<RecoveryCount' d. \<forall>t<n. GF (rec_row d bl' i ! t) =
            (if i < I then GF (rec_row d bl i ! t) +
                 GF (GetMatrixElement (Index (bl0 ! (Recovery d ! i)))
                       (ucast (OriginalCount (Params d))) inRow) * GF (Block (bl0 ! inBlock) ! t)
             else GF (rec_row d bl i ! t)))"
  using I unfolding bl'_def
proof (induction I)
  case 0
  then show ?case using fr by simp
next
  case (Suc I)
  define b where "b = foldl (Decode_cancel_step d inBlock inRow) bl [0..<I]"
  have I: "I < RecoveryCount' d" "I \<le> RecoveryCount' d" using Suc.prems by simp_all
  note IH = Suc.IH[OF I(2), folded b_def]
  have fb: "rows_frame d n bl0 b" using IH by simp
  have ib: "map Index b = map Index bl0" unfolding b_def using idx by simp
  have pI: "Recovery d ! I < length bl0" using ok I by (simp add: rec_places_ok_def)
  have xI: "Index (b ! (Recovery d ! I)) = Index (bl0 ! (Recovery d ! I))"
    using ib pI by (rule Index_nth_cong)
  have inB: "Block (b ! inBlock) = Block (bl0 ! inBlock)"
    using fb inb by (simp add: rows_frame_def)
  define c where "c = GetMatrixElement (Index (bl0 ! (Recovery d ! I)))
                       (ucast (OriginalCount (Params d))) inRow"
  define buf where "buf = gf256_muladd_mem (rec_row d b I) c (Block (bl0 ! inBlock)) n"
  define b2 where "b2 = set_Block b (Recovery d ! I) buf"
  have fold: "foldl (Decode_cancel_step d inBlock inRow) bl [0..<Suc I] = b2"
    by (simp add: b_def[symmetric] Decode_cancel_step_def b2_def buf_def c_def rec_row_def n xI inB)
  have lI: "length (rec_row d b I) = n" using fb I by (simp add: rows_frame_def)
  have lb: "length buf = n" using lI by (simp add: buf_def)
  note sr = set_row[OF ok fb I(1) lb, folded b2_def]
  show ?case unfolding fold
  proof (intro conjI allI impI)
    show "rows_frame d n bl0 b2" by (rule sr(1))
  next
    fix i t assume i: "i < RecoveryCount' d" and t: "t < n"
    have old: "GF (rec_row d b i ! t) =
            (if i < I then GF (rec_row d bl i ! t) +
                 GF (GetMatrixElement (Index (bl0 ! (Recovery d ! i)))
                       (ucast (OriginalCount (Params d))) inRow) * GF (Block (bl0 ! inBlock) ! t)
             else GF (rec_row d bl i ! t))" using IH i t by blast
    show "GF (rec_row d b2 i ! t) =
            (if i < Suc I then GF (rec_row d bl i ! t) +
                 GF (GetMatrixElement (Index (bl0 ! (Recovery d ! i)))
                       (ucast (OriginalCount (Params d))) inRow) * GF (Block (bl0 ! inBlock) ! t)
             else GF (rec_row d bl i ! t))"
    proof (cases "i = I")
      case True
      have "rec_row d b2 I ! t = buf ! t" using sr(2) by simp
      also have "\<dots> = rec_row d b I ! t XOR gf256_mul c (Block (bl0 ! inBlock) ! t)"
        unfolding buf_def using lI inb(3) t by (simp add: nth_gf256_muladd_mem)
      finally have "GF (rec_row d b2 I ! t) =
                    GF (rec_row d b I ! t) + GF c * GF (Block (bl0 ! inBlock) ! t)"
        by (simp add: GF_xor GF_mul)
      then show ?thesis using True old by (simp add: c_def)
    next
      case False
      then have "rec_row d b2 i = rec_row d b i" using sr(3) i by simp
      moreover have "i < Suc I \<longleftrightarrow> i < I" using False by auto
      ultimately show ?thesis using old by (simp only:)
    qed
  qed
qed

lemma cancel_pass:
  fixes d :: CM256Decoder and bl :: "cm256_block list"
  assumes ok: "rec_places_ok d (length bl0)" and oo: "orig_places_ok d bl0 n"
    and fr: "rows_frame d n bl0 bl" and idx: "map Index bl = map Index bl0"
    and n: "n = nat (sint (BlockBytes (Params d)))"
    and OI: "OI \<le> OriginalCount' d"
  defines "bl' \<equiv> foldl (Decode_cancel d) bl [0..<OI]"
  shows "rows_frame d n bl0 bl' \<and>
         (\<forall>i<RecoveryCount' d. \<forall>t<n. GF (rec_row d bl' i ! t) =
            GF (rec_row d bl i ! t) +
            (\<Sum>oi<OI. GF (GetMatrixElement (Index (bl0 ! (Recovery d ! i)))
                           (ucast (OriginalCount (Params d)))
                           (Index (bl0 ! (Original d ! oi)))) *
                      GF (Block (bl0 ! (Original d ! oi)) ! t)))"
  using OI unfolding bl'_def
proof (induction OI)
  case 0
  then show ?case using fr by simp
next
  case (Suc OI)
  define b where "b = foldl (Decode_cancel d) bl [0..<OI]"
  have O: "OI < OriginalCount' d" "OI \<le> OriginalCount' d" using Suc.prems by simp_all
  note IH = Suc.IH[OF O(2), folded b_def]
  have fb: "rows_frame d n bl0 b" using IH by simp
  have ib: "map Index b = map Index bl0" unfolding b_def using idx by simp
  have q: "Original d ! OI < length bl0" "\<forall>i<RecoveryCount' d. Original d ! OI \<noteq> Recovery d ! i"
    "length (Block (bl0 ! (Original d ! OI))) = n"
    using oo O(1) unfolding orig_places_ok_def by blast+
  have inRow: "Index (b ! (Original d ! OI)) = Index (bl0 ! (Original d ! OI))"
    using ib q(1) by (rule Index_nth_cong)
  define b2 where "b2 = foldl (Decode_cancel_step d (Original d ! OI)
                                 (Index (bl0 ! (Original d ! OI)))) b [0..<RecoveryCount' d]"
  have fold: "foldl (Decode_cancel d) bl [0..<Suc OI] = b2"
    by (simp add: b_def[symmetric] Decode_cancel_def b2_def inRow)
  note cl = cancel_loop[OF ok fb ib n q order_refl,
      of "Index (bl0 ! (Original d ! OI))", folded b2_def]
  show ?case unfolding fold
  proof (intro conjI allI impI)
    show "rows_frame d n bl0 b2" using cl by blast
  next
    fix i t assume i: "i < RecoveryCount' d" and t: "t < n"
    have "GF (rec_row d b2 i ! t) =
          (if i < RecoveryCount' d then GF (rec_row d b i ! t) +
                 GF (GetMatrixElement (Index (bl0 ! (Recovery d ! i)))
                       (ucast (OriginalCount (Params d))) (Index (bl0 ! (Original d ! OI)))) *
                 GF (Block (bl0 ! (Original d ! OI)) ! t)
             else GF (rec_row d b i ! t))"
      using cl i t by blast
    moreover have "GF (rec_row d b i ! t) =
            GF (rec_row d bl i ! t) +
            (\<Sum>oi<OI. GF (GetMatrixElement (Index (bl0 ! (Recovery d ! i)))
                           (ucast (OriginalCount (Params d)))
                           (Index (bl0 ! (Original d ! oi)))) *
                      GF (Block (bl0 ! (Original d ! oi)) ! t))"
      using IH i t by blast
    ultimately show "GF (rec_row d b2 i ! t) =
            GF (rec_row d bl i ! t) +
            (\<Sum>oi<Suc OI. GF (GetMatrixElement (Index (bl0 ! (Recovery d ! i)))
                           (ucast (OriginalCount (Params d)))
                           (Index (bl0 ! (Original d ! oi)))) *
                      GF (Block (bl0 ! (Original d ! oi)) ! t))"
      using i by (simp add: add.assoc)
  qed
qed

text \<open>The rows of the encoder.\<close>

lemma encode_row_step_nth:
  "n \<le> length b \<Longrightarrow> n \<le> length (Block (os ! j)) \<Longrightarrow> t < n \<Longrightarrow>
   encode_row_step os n x_i x_0 b j ! t =
     b ! t XOR gf256_mul (GetMatrixElement x_i x_0 (of_nat j)) (Block (os ! j) ! t)"
  by (simp add: encode_row_step_def nth_gf256_muladd_mem)

lemma row_loop_gf:
  assumes "j \<le> length os" "\<forall>i<j. n \<le> length (Block (os ! i))" "n \<le> length d" "t < n"
  shows "GF (foldl (encode_row_step os n x_i x_0) d [1..<j] ! t) =
         GF (d ! t) + (\<Sum>i\<in>{1..<j}. GF (GetMatrixElement x_i x_0 (of_nat i)) * GF (Block (os ! i) ! t))"
  using assms
proof (induction j)
  case 0
  then show ?case by simp
next
  case (Suc j)
  show ?case
  proof (cases "1 \<le> j")
    case True
    let ?b = "foldl (encode_row_step os n x_i x_0) d [1..<j]"
    have IH: "GF (?b ! t) =
         GF (d ! t) + (\<Sum>i\<in>{1..<j}. GF (GetMatrixElement x_i x_0 (of_nat i)) * GF (Block (os ! i) ! t))"
      using Suc by simp
    have "foldl (encode_row_step os n x_i x_0) d [1..<Suc j] = encode_row_step os n x_i x_0 ?b j"
      using True by simp
    moreover have "encode_row_step os n x_i x_0 ?b j ! t =
          ?b ! t XOR gf256_mul (GetMatrixElement x_i x_0 (of_nat j)) (Block (os ! j) ! t)"
      using Suc.prems by (intro encode_row_step_nth) simp_all
    ultimately show ?thesis using IH True by (simp add: GF_xor GF_mul add.assoc)
  next
    case False
    then show ?thesis by simp
  qed
qed

lemma GetMatrixElement_same: "x \<noteq> y \<Longrightarrow> GetMatrixElement x x y = 1"
proof -
  assume "x \<noteq> y"
  then have "gf256_add x y \<noteq> 0" by (rule gf256_add_neq_0)
  moreover have "gf256_add y x = gf256_add x y" by (simp add: gf256_add_def ac_simps)
  ultimately show ?thesis by (simp add: GetMatrixElement_def gf256_div_self)
qed

lemma GF_xor_bytes_nth:
  "GF (xor_bytes (map f os)) = (\<Sum>j<length os. GF (f (os ! j)))"
proof -
  have "map f os = map (\<lambda>j. f (os ! j)) [0..<length os]"
    by (intro nth_equalityI) simp_all
  then show ?thesis by (simp only: GF_xor_bytes)
qed

lemma encode_block_row_gf:
  assumes k: "2 \<le> sint (OriginalCount params)" "length os = nat (sint (OriginalCount params))"
    and len: "\<forall>i<length os. length (Block (os ! i)) = nat (sint (BlockBytes params))"
    and d: "nat (sint (BlockBytes params)) \<le> length d" and t: "t < nat (sint (BlockBytes params))"
    and r: "r < m" and km: "sint (OriginalCount params) + int m \<le> 256"
  shows "GF (cm256_encode_block params os (OriginalCount params + of_nat r) d ! t) =
         (\<Sum>j<nat (sint (OriginalCount params)).
            GF (GetMatrixElement (ucast (OriginalCount params + of_nat r))
                  (ucast (OriginalCount params)) (of_nat j)) * GF (Block (os ! j) ! t))"
proof -
  define k where "k = nat (sint (OriginalCount params))"
  define n where "n = nat (sint (BlockBytes params))"
  define x where "x = (ucast (OriginalCount params + of_nat r) :: byte)"
  define x0 where "x0 = (ucast (OriginalCount params) :: byte)"
  have k2: "2 \<le> k" using k by (simp add: k_def)
  have ne1: "OriginalCount params \<noteq> 1" using k by auto
  have k1: "1 \<le> sint (OriginalCount params)" using k by simp
  show ?thesis
  proof (cases "r = 0")
    case True
    have "cm256_encode_block params os (OriginalCount params) d ! t =
          xor_bytes (map (\<lambda>blk. Block blk ! t) os)"
      by (rule encode_block_parity_nth[OF k len d t])
    then have "GF (cm256_encode_block params os (OriginalCount params) d ! t) =
               (\<Sum>j<k. GF (Block (os ! j) ! t))"
      by (simp only: GF_xor_bytes_nth k(2) k_def)
    moreover have "\<And>j. j < k \<Longrightarrow> GetMatrixElement x0 x0 (of_nat j) = 1"
    proof -
      fix j assume "j < k"
      then have "x0 \<noteq> of_nat j"
        using encoder_denominator[OF k1 km r, of j] True by (simp add: x0_def k_def)
      then show "GetMatrixElement x0 x0 (of_nat j) = 1" by (rule GetMatrixElement_same)
    qed
    ultimately show ?thesis using True
      by (simp add: x0_def[symmetric] k_def[symmetric] GF_1)
  next
    case False
    have r256: "r < 256" using r km k1 by linarith
    have "(of_nat r :: cint) \<noteq> 0"
    proof
      assume "(of_nat r :: cint) = 0"
      then have "unat (of_nat r :: cint) = 0" by simp
      moreover have "unat (of_nat r :: cint) = r" using r256 by (intro of_nat_inverse) simp_all
      ultimately show False using False by simp
    qed
    then have nK: "OriginalCount params + of_nat r \<noteq> OriginalCount params" by simp
    define d0 where "d0 = gf256_mul_mem d (Block (os ! 0)) (GetMatrixElement x x0 0) n"
    have blk: "cm256_encode_block params os (OriginalCount params + of_nat r) d =
               foldl (encode_row_step os n x x0) d0 [1..<k]"
      using ne1 nK by (simp add: cm256_encode_block_def d0_def x_def x0_def n_def k_def)
    have l0: "length (Block (os ! 0)) = n" using len k2 k(2) by (simp add: n_def k_def)
    have d00: "GF (d0 ! t) = GF (GetMatrixElement x x0 (of_nat 0)) * GF (Block (os ! 0) ! t)"
      unfolding d0_def using d t l0 by (simp add: nth_gf256_mul_mem n_def GF_mul)
    have "GF (foldl (encode_row_step os n x x0) d0 [1..<k] ! t) =
          GF (d0 ! t) +
          (\<Sum>i\<in>{1..<k}. GF (GetMatrixElement x x0 (of_nat i)) * GF (Block (os ! i) ! t))"
      using k(2) len d t by (intro row_loop_gf) (simp_all add: k_def n_def d0_def)
    also have "\<dots> = (\<Sum>i\<in>{0..<k}. GF (GetMatrixElement x x0 (of_nat i)) * GF (Block (os ! i) ! t))"
      using k2 by (simp only: d00 sum.atLeast_Suc_lessThan[of 0 k] One_nat_def)
    finally show ?thesis
      by (simp add: blk x_def x0_def k_def atLeast0LessThan)
  qed
qed

lemma encode_slice:
  fixes params :: cm256_encoder_params and os :: "cm256_block list"
  assumes len: "length rb = m * n" and r: "r < m" and n: "n = nat (sint (BlockBytes params))"
  defines "out \<equiv> foldl (cm256_encode_step params os) rb [0..<m]"
  shows "slice n r out =
           take n (cm256_encode_block params os (OriginalCount params + of_nat r) (drop (r * n) rb))"
    and "n \<le> length (drop (r * n) rb)"
    and "length (slice n r out) = n"
proof -
  have "Suc r * n \<le> m * n" using r by (intro mult_le_mono1) simp
  then have "r * n + n \<le> length rb" using len by simp
  then show ln: "n \<le> length (drop (r * n) rb)" by simp
  show s: "slice n r out =
           take n (cm256_encode_block params os (OriginalCount params + of_nat r) (drop (r * n) rb))"
    unfolding out_def using encode_loop_invariant[OF n, of os rb m] r by blast
  show "length (slice n r out) = n" unfolding s using ln by simp
qed

lemma DecodeM1_loop:
  fixes d :: CM256Decoder and bl :: "cm256_block list"
  assumes ok: "rec_places_ok d (length bl0)" and oo: "orig_places_ok d bl0 n"
    and fr: "rows_frame d n bl0 bl"
    and n: "n = nat (sint (BlockBytes (Params d)))"
    and N0: "0 < RecoveryCount' d" and I: "I \<le> OriginalCount' d"
  defines "st \<equiv> foldl (DecodeM1_step d) (None, bl) [0..<I]"
  shows "rows_frame d n bl0 (snd st) \<and>
         (\<forall>q. fst st = Some q \<longrightarrow> 0 < I \<and> q = Original d ! (I - 1)) \<and>
         (\<forall>t<n. GF (rec_row d (snd st) 0 ! t) +
                  (case fst st of None \<Rightarrow> 0 | Some q \<Rightarrow> GF (Block (bl0 ! q) ! t)) =
                GF (rec_row d bl 0 ! t) +
                (\<Sum>oi<I. GF (Block (bl0 ! (Original d ! oi)) ! t)))"
  using I unfolding st_def
proof (induction I)
  case 0
  then show ?case using fr by simp
next
  case (Suc I)
  define s where "s = foldl (DecodeM1_step d) (None, bl) [0..<I]"
  have I: "I < OriginalCount' d" "I \<le> OriginalCount' d" using Suc.prems by simp_all
  note IH = Suc.IH[OF I(2), folded s_def]
  have fs: "rows_frame d n bl0 (snd s)" using IH by simp
  have fold: "foldl (DecodeM1_step d) (None, bl) [0..<Suc I] = DecodeM1_step d s I"
    by (simp add: s_def)
  have qI: "Original d ! I < length bl0" "\<forall>i<RecoveryCount' d. Original d ! I \<noteq> Recovery d ! i"
    "length (Block (bl0 ! (Original d ! I))) = n"
    using oo I(1) unfolding orig_places_ok_def by blast+
  have BI: "Block (snd s ! (Original d ! I)) = Block (bl0 ! (Original d ! I))"
    using fs qI by (simp add: rows_frame_def)
  show ?case
  proof (cases "fst s")
    case None
    then have s: "s = (None, snd s)" by (simp add: prod_eq_iff)
    have step: "DecodeM1_step d s I = (Some (Original d ! I), snd s)"
      by (subst s) simp
    have "\<forall>t<n. GF (rec_row d (snd s) 0 ! t) =
                GF (rec_row d bl 0 ! t) + (\<Sum>oi<I. GF (Block (bl0 ! (Original d ! oi)) ! t))"
      using IH None by simp
    then show ?thesis unfolding fold step using fs by (simp add: add.assoc)
  next
    case (Some q)
    then have s: "s = (Some q, snd s)" by (simp add: prod_eq_iff)
    have q: "0 < I" "q = Original d ! (I - 1)" using IH Some by simp_all
    have I1: "I - 1 < OriginalCount' d" using I by simp
    have qq: "q < length bl0" "\<forall>i<RecoveryCount' d. q \<noteq> Recovery d ! i"
      "length (Block (bl0 ! q)) = n"
      using oo I1 unfolding orig_places_ok_def q(2) by blast+
    have Bq: "Block (snd s ! q) = Block (bl0 ! q)"
      using fs qq by (simp add: rows_frame_def)
    define buf where "buf = gf256_add2_mem (rec_row d (snd s) 0) (Block (bl0 ! q))
                              (Block (bl0 ! (Original d ! I))) n"
    define b2 where "b2 = set_Block (snd s) (Recovery d ! 0) buf"
    have step: "DecodeM1_step d s I = (None, b2)"
      by (subst s) (simp add: b2_def buf_def rec_row_def Bq BI n)
    have l0: "length (rec_row d (snd s) 0) = n" using fs N0 by (simp add: rows_frame_def)
    have lb: "length buf = n" using l0 by (simp add: buf_def)
    note sr = set_row[OF ok fs N0 lb, folded b2_def]
    have old: "\<forall>t<n. GF (rec_row d (snd s) 0 ! t) + GF (Block (bl0 ! q) ! t) =
                GF (rec_row d bl 0 ! t) + (\<Sum>oi<I. GF (Block (bl0 ! (Original d ! oi)) ! t))"
      using IH[THEN conjunct2, THEN conjunct2] by (simp only: Some option.case)
    have new: "\<forall>t<n. GF (rec_row d b2 0 ! t) =
                GF (rec_row d bl 0 ! t) + (\<Sum>oi<Suc I. GF (Block (bl0 ! (Original d ! oi)) ! t))"
    proof (intro allI impI)
      fix t assume t: "t < n"
      have "rec_row d b2 0 ! t = buf ! t" using sr(2) by simp
      also have "\<dots> = rec_row d (snd s) 0 ! t XOR
                        (Block (bl0 ! q) ! t XOR Block (bl0 ! (Original d ! I)) ! t)"
        unfolding buf_def using l0 qq(3) qI(3) t by (simp add: nth_gf256_add2_mem)
      finally have "GF (rec_row d b2 0 ! t) =
                    (GF (rec_row d (snd s) 0 ! t) + GF (Block (bl0 ! q) ! t)) +
                    GF (Block (bl0 ! (Original d ! I)) ! t)"
        by (simp add: GF_xor add.assoc)
      then show "GF (rec_row d b2 0 ! t) =
                GF (rec_row d bl 0 ! t) + (\<Sum>oi<Suc I. GF (Block (bl0 ! (Original d ! oi)) ! t))"
        using old t by (simp add: add.assoc)
    qed
    show ?thesis unfolding fold step using sr(1) new by simp
  qed
qed

lemma DecodeM1_rows:
  fixes d :: CM256Decoder and bl :: "cm256_block list"
  assumes ok: "rec_places_ok d (length bl0)" and oo: "orig_places_ok d bl0 n"
    and fr: "rows_frame d n bl0 bl"
    and n: "n = nat (sint (BlockBytes (Params d)))"
    and N0: "0 < RecoveryCount' d"
  shows "rows_frame d n bl0 (DecodeM1 d bl)"
    and "Index (DecodeM1 d bl ! (Recovery d ! 0)) = ErasuresIndices d ! 0"
    and "\<forall>t<n. GF (rec_row d (DecodeM1 d bl) 0 ! t) =
                GF (rec_row d bl 0 ! t) +
                (\<Sum>oi<OriginalCount' d. GF (Block (bl0 ! (Original d ! oi)) ! t))"
proof -
  define s where "s = foldl (DecodeM1_step d) (None, bl) [0..<OriginalCount' d]"
  define b where "b = DecodeM1_complete d s"
  note lp = DecodeM1_loop[OF ok oo fr n N0 order_refl, folded s_def]
  have fs: "rows_frame d n bl0 (snd s)" using lp by simp
  have res: "DecodeM1 d bl = set_Index b (Recovery d ! 0) (ErasuresIndices d ! 0)"
    by (simp add: DecodeM1_def b_def s_def)
  have b: "rows_frame d n bl0 b \<and>
           (\<forall>t<n. GF (rec_row d b 0 ! t) =
                GF (rec_row d bl 0 ! t) +
                (\<Sum>oi<OriginalCount' d. GF (Block (bl0 ! (Original d ! oi)) ! t)))"
  proof (cases "fst s")
    case None
    then have s: "s = (None, snd s)" by (simp add: prod_eq_iff)
    have "b = snd s" unfolding b_def by (subst s) simp
    then show ?thesis using lp None by simp
  next
    case (Some q)
    then have s: "s = (Some q, snd s)" by (simp add: prod_eq_iff)
    have q: "0 < OriginalCount' d" "q = Original d ! (OriginalCount' d - 1)"
      using lp Some by simp_all
    then have I1: "OriginalCount' d - 1 < OriginalCount' d" by simp
    have qq: "q < length bl0" "\<forall>i<RecoveryCount' d. q \<noteq> Recovery d ! i"
      "length (Block (bl0 ! q)) = n"
      using oo I1 unfolding orig_places_ok_def q(2) by blast+
    have Bq: "Block (snd s ! q) = Block (bl0 ! q)"
      using fs qq by (simp add: rows_frame_def)
    define buf where "buf = gf256_add_mem (rec_row d (snd s) 0) (Block (bl0 ! q)) n"
    have bb: "b = set_Block (snd s) (Recovery d ! 0) buf"
      unfolding b_def by (subst s) (simp add: buf_def rec_row_def Bq n)
    have l0: "length (rec_row d (snd s) 0) = n" using fs N0 by (simp add: rows_frame_def)
    have lb: "length buf = n" using l0 by (simp add: buf_def)
    note sr = set_row[OF ok fs N0 lb, folded bb]
    have old: "\<forall>t<n. GF (rec_row d (snd s) 0 ! t) + GF (Block (bl0 ! q) ! t) =
                GF (rec_row d bl 0 ! t) +
                (\<Sum>oi<OriginalCount' d. GF (Block (bl0 ! (Original d ! oi)) ! t))"
      using lp[THEN conjunct2, THEN conjunct2] by (simp only: Some option.case)
    have "\<forall>t<n. GF (rec_row d b 0 ! t) =
                GF (rec_row d bl 0 ! t) +
                (\<Sum>oi<OriginalCount' d. GF (Block (bl0 ! (Original d ! oi)) ! t))"
    proof (intro allI impI)
      fix t assume t: "t < n"
      have "rec_row d b 0 ! t = buf ! t" using sr(2) by simp
      also have "\<dots> = rec_row d (snd s) 0 ! t XOR Block (bl0 ! q) ! t"
        unfolding buf_def using l0 qq(3) t by (simp add: nth_gf256_add_mem)
      finally have "GF (rec_row d b 0 ! t) =
                    GF (rec_row d (snd s) 0 ! t) + GF (Block (bl0 ! q) ! t)"
        by (simp add: GF_xor)
      then show "GF (rec_row d b 0 ! t) =
                GF (rec_row d bl 0 ! t) +
                (\<Sum>oi<OriginalCount' d. GF (Block (bl0 ! (Original d ! oi)) ! t))"
        using old t by simp
    qed
    then show ?thesis using sr(1) by simp
  qed
  have fb: "rows_frame d n bl0 b" using b by simp
  show "rows_frame d n bl0 (DecodeM1 d bl)"
    unfolding res by (rule rows_frame_set_Index[OF ok fb N0])
  have "Recovery d ! 0 < length b"
    using ok N0 fb by (simp add: rec_places_ok_def rows_frame_def)
  then show "Index (DecodeM1 d bl ! (Recovery d ! 0)) = ErasuresIndices d ! 0"
    by (simp add: res set_Index_def)
  have "rec_row d (DecodeM1 d bl) 0 = rec_row d b 0" by (simp add: res rec_row_def)
  then show "\<forall>t<n. GF (rec_row d (DecodeM1 d bl) 0 ! t) =
                GF (rec_row d bl 0 ! t) +
                (\<Sum>oi<OriginalCount' d. GF (Block (bl0 ! (Original d ! oi)) ! t))"
    using b by simp
qed

lemma sum_from:
  fixes g :: "nat \<Rightarrow> gf"
  assumes "c < N" and "\<forall>j<c. g j = 0"
  shows "(\<Sum>j<N. g j) = g c + (\<Sum>j\<in>{Suc c..<N}. g j)"
proof -
  have "(\<Sum>j<N. g j) = (\<Sum>j\<in>{0..<c}. g j) + (\<Sum>j\<in>{c..<N}. g j)"
    using assms(1) by (simp add: atLeast0LessThan[symmetric] sum.atLeastLessThan_concat)
  also have "(\<Sum>j\<in>{0..<c}. g j) = 0" using assms(2) by simp
  also have "(\<Sum>j\<in>{c..<N}. g j) = g c + (\<Sum>j\<in>{Suc c..<N}. g j)"
    using assms(1) by (rule sum.atLeast_Suc_lessThan)
  finally show ?thesis by simp
qed

lemma sum_upto:
  fixes g :: "nat \<Rightarrow> gf"
  assumes "i < N" and "\<forall>c. i < c \<and> c < N \<longrightarrow> g c = 0"
  shows "(\<Sum>c<N. g c) = (\<Sum>c<i. g c) + g i"
proof -
  have "(\<Sum>c\<in>{0..<Suc i}. g c) + (\<Sum>c\<in>{Suc i..<N}. g c) = (\<Sum>c\<in>{0..<N}. g c)"
    using assms(1) by (intro sum.atLeastLessThan_concat) simp_all
  then have "(\<Sum>c<N. g c) = (\<Sum>c\<in>{0..<Suc i}. g c) + (\<Sum>c\<in>{Suc i..<N}. g c)"
    by (simp only: atLeast0LessThan)
  also have "(\<Sum>c\<in>{Suc i..<N}. g c) = 0" using assms(2) by simp
  finally show ?thesis by (simp add: atLeast0LessThan)
qed

lemma ldu_solve_setup:
  fixes Lf Uf G :: "nat \<Rightarrow> nat \<Rightarrow> gf" and D E :: "nat \<Rightarrow> gf"
  assumes G: "\<forall>i<N. \<forall>j<N. G i j = (\<Sum>c<N. Lf i c * D c * Uf c j)"
    and L1: "\<forall>i<N. Lf i i = 1" and L0: "\<forall>i c. i < c \<and> c < N \<longrightarrow> Lf i c = 0"
    and U1: "\<forall>c<N. Uf c c = 1" and U0: "\<forall>c j. j < c \<and> c < N \<longrightarrow> Uf c j = 0"
    and i: "i < N"
  defines "W \<equiv> \<lambda>c. E c + (\<Sum>j\<in>{Suc c..<N}. Uf c j * E j)"
  shows "(\<Sum>j<N. G i j * E j) = D i * W i + (\<Sum>c<i. Lf i c * (D c * W c))"
proof -
  have Wc: "(\<Sum>j<N. Uf c j * E j) = W c" if c: "c < N" for c
  proof -
    have "\<forall>j<c. Uf c j * E j = 0" using U0 c by simp
    from sum_from[OF c this] show ?thesis using U1 c by (simp add: W_def)
  qed
  have "(\<Sum>j<N. G i j * E j) = (\<Sum>j<N. (\<Sum>c<N. Lf i c * D c * Uf c j) * E j)"
    using G i by simp
  also have "\<dots> = (\<Sum>j<N. \<Sum>c<N. (Lf i c * D c) * (Uf c j * E j))"
    by (simp add: sum_distrib_right mult.assoc)
  also have "\<dots> = (\<Sum>c<N. \<Sum>j<N. (Lf i c * D c) * (Uf c j * E j))"
    by (rule sum.swap)
  also have "\<dots> = (\<Sum>c<N. (Lf i c * D c) * (\<Sum>j<N. Uf c j * E j))"
    by (simp add: sum_distrib_left)
  also have "\<dots> = (\<Sum>c<N. Lf i c * (D c * W c))"
    by (intro sum.cong) (simp_all add: Wc mult.assoc)
  also have "\<dots> = (\<Sum>c<i. Lf i c * (D c * W c)) + Lf i i * (D i * W i)"
  proof -
    have "\<forall>c. i < c \<and> c < N \<longrightarrow> Lf i c * (D c * W c) = 0" using L0 by simp
    from sum_upto[OF i this] show ?thesis .
  qed
  finally show ?thesis using L1 i by (simp add: add.commute)
qed

lemma schur_diag_nz:
  assumes cn: "cauchy_nodes xs ys x0 N" and c: "c < N"
  shows "val_D xs ys x0 N c \<noteq> 0"
proof -
  have ne: "xs c \<noteq> ys c" "x0 \<noteq> ys c" using cn c unfolding cauchy_nodes_def by blast+
  have "GF (gen_g_val xs ys c c) \<noteq> 0" using cn c by (intro gen_g_val_nz) simp_all
  moreover have "GF (gen_b_val xs ys c c) \<noteq> 0" using cn c by (intro gen_b_val_nz) simp_all
  moreover have "GF x0 + GF (ys c) \<noteq> 0" "GF (xs c) + GF (ys c) \<noteq> 0"
    using ne by (simp_all add: GF_add_neq_0)
  ultimately have "schur xs ys x0 c c c \<noteq> 0" by (simp add: schur_def)
  then have "GF (val_D xs ys x0 N c) \<noteq> 0" unfolding val_D_schur[OF cn c] .
  then show ?thesis by simp
qed

lemma Decode_rows:
  fixes d :: CM256Decoder and sc :: decode_scratch and E :: "nat \<Rightarrow> nat \<Rightarrow> gf"
  assumes ok: "rec_places_ok d (length bl0)" and oo: "orig_places_ok d bl0 n"
    and fr0: "rows_frame d n bl0 bl0"
    and n: "n = nat (sint (BlockBytes (Params d)))" "0 < n"
    and N: "N = RecoveryCount' d" "0 < N"
    and cn: "cauchy_nodes (rec_x d bl0) (era_y d) (norm_x0 d) N"
    and lens: "N \<le> length (g_local sc)" "N \<le> length (b_local sc)" "N \<le> length (rotated_local sc)"
    and Lm: "N * N \<le> length (if 2048 < N * N then dynamicMatrix sc else stackMatrix sc)"
    and enc: "\<forall>t<n. \<forall>i<N. GF (rec_row d bl0 i ! t) +
                (\<Sum>oi<OriginalCount' d.
                   GF (GetMatrixElement (Index (bl0 ! (Recovery d ! i)))
                         (ucast (OriginalCount (Params d))) (Index (bl0 ! (Original d ! oi)))) *
                   GF (Block (bl0 ! (Original d ! oi)) ! t)) =
              (\<Sum>c<N. GF (GetMatrixElement (rec_x d bl0 i) (norm_x0 d) (era_y d c)) * E c t)"
  shows "rows_frame d n bl0 (Decode d sc bl0)"
    and "\<forall>i<N. Index (Decode d sc bl0 ! (Recovery d ! i)) = era_y d i"
    and "\<forall>t<n. \<forall>i<N. GF (rec_row d (Decode d sc bl0) i ! t) = E i t"
proof -
  define T where "T = ((N - 1) * N) div 2"
  define b1 where "b1 = foldl (Decode_cancel d) bl0 [0..<OriginalCount' d]"
  define matrix0 where "matrix0 = (if 2048 < N * N then dynamicMatrix sc else stackMatrix sc)"
  define mem where "mem = GenerateLDUDecomposition d b1 (g_local sc) (b_local sc)
                     (rotated_local sc) matrix0 (T + N) T 0"
  define s2 where "s2 = foldl (Decode_lower d mem) (b1, T + N) [0..<N - 1]"
  define b3 where "b3 = foldl (Decode_diag d mem T) (fst s2) [0..<N]"
  define s4 where "s4 = foldl (Decode_upper d mem) (b3, 0) (rev [Suc 0..<N])"
  have res: "Decode d sc bl0 = fst s4"
    unfolding Decode_def Let_def N(1)[symmetric]
    by (simp add: s4_def b3_def s2_def mem_def matrix0_def b1_def T_def)
  note cp = cancel_pass[OF ok oo fr0 refl n(1) order_refl, folded b1_def]
  have f1: "rows_frame d n bl0 b1" using cp by simp
  have i1: "map Index b1 = map Index bl0" by (simp add: b1_def)
  have pl: "\<And>i. i < N \<Longrightarrow> Recovery d ! i < length bl0"
    using ok N by (simp add: rec_places_ok_def)
  have x1: "\<And>i. i < N \<Longrightarrow> rec_x d b1 i = rec_x d bl0 i"
    unfolding rec_x_def using i1 pl by (intro Index_nth_cong)
  have cn1: "cauchy_nodes (rec_x d b1) (era_y d) (norm_x0 d) N"
    using cn x1 unfolding cauchy_nodes_def by simp
  have Lm0: "N * N \<le> length matrix0" using Lm by (simp add: matrix0_def)
  note w = ldu_written[OF N(1) N(2) Lm0 lens, of b1, folded T_def, folded mem_def]
  define Lf where "Lf = (\<lambda>i c. GF (ldu_L mem N i c))"
  define Uf where "Uf = (\<lambda>c j. GF (ldu_U mem N c j))"
  define D where "D = (\<lambda>c. GF (ldu_D mem N c))"
  define G where "G = (\<lambda>i j. GF (GetMatrixElement (rec_x d bl0 i) (norm_x0 d) (era_y d j)))"
  have Gij: "\<forall>i<N. \<forall>j<N. G i j = (\<Sum>c<N. Lf i c * D c * Uf c j)"
  proof (intro allI impI)
    fix i j assume i: "i < N" and j: "j < N"
    have "ldu_product mem N i j = GetMatrixElement (rec_x d b1 i) (norm_x0 d) (era_y d j)"
      using w(2) w(3) w(4) unfolding T_def by (intro ldu_product_cauchy[OF cn1 _ _ _ i j])
    then have "GF (ldu_product mem N i j) = G i j" using x1[OF i] by (simp add: G_def)
    moreover have "GF (ldu_product mem N i j) = (\<Sum>c<N. GF (ldu_term mem N i j c))"
      unfolding ldu_product_def by (rule GF_xor_bytes)
    ultimately show "G i j = (\<Sum>c<N. Lf i c * D c * Uf c j)"
      by (simp add: ldu_term_def GF_mul Lf_def D_def Uf_def)
  qed
  have L1: "\<forall>i<N. Lf i i = 1" by (simp add: Lf_def ldu_L_def GF_1)
  have L0: "\<forall>i c. i < c \<and> c < N \<longrightarrow> Lf i c = 0" by (simp add: Lf_def ldu_L_def GF_0)
  have U1: "\<forall>c<N. Uf c c = 1" by (simp add: Uf_def ldu_U_def GF_1)
  have U0: "\<forall>c j. j < c \<and> c < N \<longrightarrow> Uf c j = 0" by (simp add: Uf_def ldu_U_def GF_0)
  have Lc: "\<forall>i c. c < i \<and> i < N \<longrightarrow> GF (mem ! (T + N + L_index N i c)) = Lf i c"
    by (simp add: Lf_def ldu_L_def T_def)
  have Uc: "\<forall>i c. i < c \<and> c < N \<longrightarrow> GF (mem ! U_index N i c) = Uf i c"
    by (simp add: Uf_def ldu_U_def)
  have Dc: "\<And>c. c < N \<Longrightarrow> GF (mem ! (T + c)) = D c \<and> D c \<noteq> 0"
  proof -
    fix c assume c: "c < N"
    have "mem ! (T + c) = val_D (rec_x d b1) (era_y d) (norm_x0 d) N c" using w(4) c by simp
    moreover have "val_D (rec_x d b1) (era_y d) (norm_x0 d) N c \<noteq> 0"
      by (rule schur_diag_nz[OF cn1 c])
    ultimately show "GF (mem ! (T + c)) = D c \<and> D c \<noteq> 0"
      by (simp add: D_def ldu_D_def T_def)
  qed
  have passes: "rows_frame d n bl0 (fst s2) \<and> rows_frame d n bl0 b3 \<and>
                rows_frame d n bl0 (fst s4) \<and>
                (\<forall>i<N. Index (b3 ! (Recovery d ! i)) = era_y d i) \<and>
                (\<forall>i<N. GF (rec_row d (fst s4) i ! t) = E i t)" if t: "t < n" for t
  proof -
    define W where "W = (\<lambda>c. E c t + (\<Sum>j\<in>{Suc c..<N}. Uf c j * E j t))"
    define Z where "Z = (\<lambda>c. D c * W c)"
    have init: "\<forall>i<N. GF (rec_row d b1 i ! t) = Z i + (\<Sum>c<i. Lf i c * Z c)"
    proof (intro allI impI)
      fix i assume i: "i < N"
      have "GF (rec_row d b1 i ! t) = GF (rec_row d bl0 i ! t) +
                (\<Sum>oi<OriginalCount' d.
                   GF (GetMatrixElement (Index (bl0 ! (Recovery d ! i)))
                         (ucast (OriginalCount (Params d))) (Index (bl0 ! (Original d ! oi)))) *
                   GF (Block (bl0 ! (Original d ! oi)) ! t))"
        using cp i t N by blast
      also have "\<dots> = (\<Sum>c<N. G i c * E c t)" using enc i t by (simp add: G_def)
      also have "\<dots> = D i * W i + (\<Sum>c<i. Lf i c * (D c * W c))"
        unfolding W_def by (rule ldu_solve_setup[OF Gij L1 L0 U1 U0 i])
      finally show "GF (rec_row d b1 i ! t) = Z i + (\<Sum>c<i. Lf i c * Z c)"
        by (simp add: Z_def)
    qed
    note lp = lower_pass[OF ok f1 n(1) N t Lc init order_refl, folded s2_def]
    have f2: "rows_frame d n bl0 (fst s2)" using lp by simp
    have v2: "\<forall>i<N. GF (rec_row d (fst s2) i ! t) = Z i"
    proof (intro allI impI)
      fix i assume i: "i < N"
      then have "min (N - 1) i = i" by simp
      then have "{min (N - 1) i..<i} = {}" by simp
      then show "GF (rec_row d (fst s2) i ! t) = Z i" using lp i by simp
    qed
    have NN: "N \<le> RecoveryCount' d" using N by simp
    note dp = diag_pass[OF ok f2 n(1) NN, of mem T, folded b3_def]
    have f3: "rows_frame d n bl0 b3" using dp by simp
    have i3: "\<forall>i<N. Index (b3 ! (Recovery d ! i)) = era_y d i"
      using dp by (simp add: era_y_def)
    have v3: "\<forall>i<N. GF (rec_row d b3 i ! t) = E i t + (\<Sum>c\<in>{Suc i..<N}. Uf i c * E c t)"
    proof (intro allI impI)
      fix i assume i: "i < N"
      have "rec_row d b3 i ! t = gf256_div (rec_row d (fst s2) i ! t) (mem ! (T + i))"
        using dp i t N by simp
      then have "GF (rec_row d b3 i ! t) = Z i / D i"
        using v2 i Dc[OF i] by (simp add: GF_div)
      then show "GF (rec_row d b3 i ! t) = E i t + (\<Sum>c\<in>{Suc i..<N}. Uf i c * E c t)"
        using Dc[OF i] by (simp add: Z_def W_def)
    qed
    have J0: "0 \<le> N - 1" by simp
    note up = upper_pass[OF ok f3 n(1) N t Uc v3 J0, folded s4_def]
    have f4: "rows_frame d n bl0 (fst s4)" using up by simp
    have v4: "\<forall>i<N. GF (rec_row d (fst s4) i ! t) = E i t"
    proof (intro allI impI)
      fix i assume i: "i < N"
      have "{Suc i..<Suc 0} = {}" by simp
      then show "GF (rec_row d (fst s4) i ! t) = E i t" using up i by simp
    qed
    show ?thesis using f2 f3 f4 i3 v4 by simp
  qed
  note p0 = passes[OF n(2)]
  show "rows_frame d n bl0 (Decode d sc bl0)" unfolding res using p0 by simp
  show "\<forall>i<N. Index (Decode d sc bl0 ! (Recovery d ! i)) = era_y d i"
  proof (intro allI impI)
    fix i assume i: "i < N"
    have "map Index (fst s4) = map Index b3" by (simp add: s4_def)
    moreover have "Recovery d ! i < length b3"
      using pl[OF i] p0 by (simp add: rows_frame_def)
    ultimately have "Index (fst s4 ! (Recovery d ! i)) = Index (b3 ! (Recovery d ! i))"
      by (rule Index_nth_cong)
    then show "Index (Decode d sc bl0 ! (Recovery d ! i)) = era_y d i"
      unfolding res using p0 i by simp
  qed
  show "\<forall>t<n. \<forall>i<N. GF (rec_row d (Decode d sc bl0) i ! t) = E i t"
    unfolding res using passes by blast
qed

lemma byte_of_unat: "(of_nat (unat (w :: byte)) :: byte) = w"
  by simp

lemma sum_nth_distinct:
  fixes f :: "nat \<Rightarrow> gf"
  assumes "distinct xs"
  shows "(\<Sum>c<length xs. f (xs ! c)) = sum f (set xs)"
proof -
  have "inj_on (\<lambda>c. xs ! c) {..<length xs}"
    using assms by (auto simp: inj_on_def nth_eq_iff_index_eq)
  then have "sum f ((\<lambda>c. xs ! c) ` {..<length xs}) = (\<Sum>c<length xs. f (xs ! c))"
    by (simp add: sum.reindex)
  moreover have "(\<lambda>c. xs ! c) ` {..<length xs} = set xs"
    by (auto simp: in_set_conv_nth)
  ultimately show ?thesis by simp
qed

lemma gf_sum_split:
  fixes f :: "nat \<Rightarrow> gf"
  assumes "finite A" "finite B" "A \<inter> B = {}"
  shows "sum f (A \<union> B) + sum f A = sum f B"
proof -
  have "sum f (A \<union> B) = sum f A + sum f B" using assms by (rule sum.union_disjoint)
  then show ?thesis by (simp add: add.commute add.left_commute)
qed

lemma decode_setup:
  fixes params :: cm256_encoder_params and os bl :: "cm256_block list" and rb out :: "byte list"
  assumes v: "2 \<le> sint (OriginalCount params)" "1 \<le> sint (RecoveryCount params)"
      "sint (OriginalCount params) + sint (RecoveryCount params) \<le> 256"
    and k: "k = nat (sint (OriginalCount params))" and m: "m = nat (sint (RecoveryCount params))"
    and n: "n = nat (sint (BlockBytes params))"
    and os: "length os = k" "\<forall>j<k. length (Block (os ! j)) = n"
    and rb: "length rb = m * n"
    and out: "out = foldl (cm256_encode_step params os) rb [0..<m]"
    and bl: "length bl = k" "distinct (map Index bl)"
      "\<forall>p<k. unat (Index (bl ! p)) < k + m \<and>
             Block (bl ! p) = shard_of params os out (Index (bl ! p))"
    and st: "length (ErasuresIndices state) = 256" "length (Recovery state) = 256"
      "length (Original state) = 256"
    and init: "Initialize state params bl = (0, d)"
  shows "Params d = params"
    and "rec_places_ok d (length bl)"
    and "orig_places_ok d bl n"
    and "rows_frame d n bl bl"
    and "cauchy_nodes (rec_x d bl) (era_y d) (norm_x0 d) (RecoveryCount' d)"
    and "RecoveryCount' d \<le> m"
    and "\<forall>c<RecoveryCount' d. unat (era_y d c) < k"
    and "\<forall>oi<OriginalCount' d. unat (Index (bl ! (Original d ! oi))) < k"
    and "\<forall>i<RecoveryCount' d. k \<le> unat (Index (bl ! (Recovery d ! i))) \<and>
                             unat (Index (bl ! (Recovery d ! i))) < k + m"
    and "\<forall>r<k. (\<exists>p<k. Index (bl ! p) = of_nat r \<and> Block (bl ! p) = Block (os ! r) \<and>
                      (\<forall>i<RecoveryCount' d. p \<noteq> Recovery d ! i)) \<or>
                (\<exists>c<RecoveryCount' d. era_y d c = of_nat r)"
    and "\<forall>t<n. \<forall>i<RecoveryCount' d. GF (rec_row d bl i ! t) +
                (\<Sum>oi<OriginalCount' d.
                   GF (GetMatrixElement (Index (bl ! (Recovery d ! i)))
                         (ucast (OriginalCount (Params d))) (Index (bl ! (Original d ! oi)))) *
                   GF (Block (bl ! (Original d ! oi)) ! t)) =
              (\<Sum>c<RecoveryCount' d.
                   GF (GetMatrixElement (rec_x d bl i) (norm_x0 d) (era_y d c)) *
                   GF (Block (os ! unat (era_y d c)) ! t))"
proof -
  define N where "N = RecoveryCount' d"
  define OC where "OC = OriginalCount' d"
  define origs where "origs = filter (is_original params bl) [0..<k]"
  define recs where "recs = filter (\<lambda>p. \<not> is_original params bl p) [0..<k]"
  define missing where "missing = filter (\<lambda>r. (of_nat r :: byte) \<notin> Index ` set bl) [0..<k]"
  define idx where "idx = (\<lambda>p. Index (bl ! p))"
  define \<rho> where "\<rho> = (\<lambda>p. unat (idx p))"
  have k0: "0 \<le> sint (OriginalCount params)" "sint (OriginalCount params) \<le> 256"
    and k1: "0 < sint (OriginalCount params)" "1 \<le> sint (OriginalCount params)"
    and k255: "sint (OriginalCount params) \<le> 255"
    using v by simp_all
  have kk: "2 \<le> k" "k \<le> 255" "k + m \<le> 256" "1 \<le> m" using v by (simp_all add: k m)
  have lenk: "length bl = nat (sint (OriginalCount params))" using bl(1) k by simp
  obtain d' where d': "Initialize state params bl = (0, d')" "Params d' = params"
    "OriginalCount' d' =
       length (filter (is_original params bl) [0..<nat (sint (OriginalCount params))])"
    "RecoveryCount' d' =
       length (filter (\<lambda>p. \<not> is_original params bl p) [0..<nat (sint (OriginalCount params))])"
    "take (OriginalCount' d') (Original d') =
       filter (is_original params bl) [0..<nat (sint (OriginalCount params))]"
    "take (RecoveryCount' d') (Recovery d') =
       filter (\<lambda>p. \<not> is_original params bl p) [0..<nat (sint (OriginalCount params))]"
    "take (RecoveryCount' d') (ErasuresIndices d') =
       map of_nat (filter (\<lambda>r. (of_nat r :: byte) \<notin> Index ` set bl)
                     [0..<nat (sint (OriginalCount params))])"
    "length (filter (\<lambda>r. (of_nat r :: byte) \<notin> Index ` set bl)
                     [0..<nat (sint (OriginalCount params))]) = RecoveryCount' d'"
    using Initialize_distinct[OF k0 lenk bl(2) st] by blast
  have dd: "d' = d" using d'(1) init by simp
  have P: "Params d = params" using d'(2) dd by simp
  have lO: "length origs = OC" and lR: "length recs = N" and lM: "length missing = N"
    and tO: "take OC (Original d) = origs" and tR: "take N (Recovery d) = recs"
    and tE: "take N (ErasuresIndices d) = map of_nat missing"
    using d'(3-8) unfolding dd k[symmetric] origs_def recs_def missing_def N_def OC_def
    by simp_all
  have Oi: "Original d ! oi = origs ! oi" if "oi < OC" for oi
  proof -
    have "take OC (Original d) ! oi = Original d ! oi" using that by simp
    then show ?thesis by (simp only: tO)
  qed
  have Ri: "Recovery d ! i = recs ! i" if "i < N" for i
  proof -
    have "take N (Recovery d) ! i = Recovery d ! i" using that by simp
    then show ?thesis by (simp only: tR)
  qed
  have Ei: "era_y d c = of_nat (missing ! c)" if "c < N" for c
  proof -
    have "take N (ErasuresIndices d) ! c = ErasuresIndices d ! c" using that by simp
    then have "ErasuresIndices d ! c = map of_nat missing ! c" by (simp only: tE)
    then show ?thesis using that lM by (simp add: era_y_def)
  qed
  have orig_iff: "is_original params bl p \<longleftrightarrow> \<rho> p < k" for p
    by (simp add: is_original_iff \<rho>_def idx_def k)
  have Om: "origs ! oi < k \<and> \<rho> (origs ! oi) < k" if "oi < OC" for oi
  proof -
    have "origs ! oi \<in> set origs" using that lO by (intro nth_mem) simp
    then show ?thesis by (simp add: origs_def orig_iff)
  qed
  have Rm: "recs ! i < k \<and> k \<le> \<rho> (recs ! i)" if "i < N" for i
  proof -
    have "recs ! i \<in> set recs" using that lR by (intro nth_mem) simp
    then show ?thesis by (auto simp: recs_def orig_iff)
  qed
  have Mm: "missing ! c < k \<and> (of_nat (missing ! c) :: byte) \<notin> Index ` set bl" if "c < N" for c
  proof -
    have "missing ! c \<in> set missing" using that lM by (intro nth_mem) simp
    then show ?thesis by (simp add: missing_def)
  qed
  have dO: "distinct origs" and dR: "distinct recs" and dM: "distinct missing"
    by (simp_all add: origs_def recs_def missing_def)
  have inj: "p = q" if "p < k" "q < k" "idx p = idx q" for p q
  proof -
    have "map Index bl ! p = map Index bl ! q" using that bl(1) by (simp add: idx_def)
    moreover have "p < length (map Index bl)" "q < length (map Index bl)"
      using that bl(1) by simp_all
    ultimately show ?thesis using bl(2) by (simp only: nth_eq_iff_index_eq)
  qed
  have shard: "unat (idx p) < k + m \<and> Block (bl ! p) = shard_of params os out (idx p)"
    if "p < k" for p using bl(3) that by (simp add: idx_def)
  have Bo: "Block (bl ! p) = Block (os ! \<rho> p)" if "p < k" "\<rho> p < k" for p
    using shard[OF that(1)] that(2) by (simp add: shard_of_def \<rho>_def k)
  have Br: "\<rho> p - k < m \<and> Block (bl ! p) = slice n (\<rho> p - k) out" if "p < k" "k \<le> \<rho> p" for p
    using shard[OF that(1)] that(2) by (auto simp: shard_of_def \<rho>_def k n)
  show "Params d = params" by (rule P)
  show ok: "rec_places_ok d (length bl)"
    unfolding rec_places_ok_def N_def[symmetric]
  proof (intro conjI allI impI)
    fix i assume "i < N"
    then show "Recovery d ! i < length bl" using Rm Ri bl(1) by simp
  next
    fix i j assume "i < N" "j < N" "i \<noteq> j"
    then show "Recovery d ! i \<noteq> Recovery d ! j"
      using dR lR Ri by (simp add: nth_eq_iff_index_eq)
  qed
  show "orig_places_ok d bl n"
    unfolding orig_places_ok_def N_def[symmetric] OC_def[symmetric]
  proof (intro allI impI conjI)
    fix oi assume oi: "oi < OC"
    show "Original d ! oi < length bl" using Om[OF oi] Oi[OF oi] bl(1) by simp
    show "length (Block (bl ! (Original d ! oi))) = n"
      using Bo Om[OF oi] Oi[OF oi] os(2) by simp
  next
    fix oi i assume oi: "oi < OC" and i: "i < N"
    have "\<rho> (origs ! oi) < k" "k \<le> \<rho> (recs ! i)" using Om[OF oi] Rm[OF i] by simp_all
    then have "origs ! oi \<noteq> recs ! i" by auto
    then show "Original d ! oi \<noteq> Recovery d ! i" using Oi[OF oi] Ri[OF i] by simp
  qed
  have rowlen: "length (rec_row d bl i) = n" if i: "i < N" for i
  proof -
    have "Block (bl ! (recs ! i)) = slice n (\<rho> (recs ! i) - k) out" "\<rho> (recs ! i) - k < m"
      using Br Rm[OF i] by simp_all
    then show ?thesis unfolding rec_row_def Ri[OF i] out
      using encode_slice(3)[OF rb _ n, of "\<rho> (recs ! i) - k" os] by simp
  qed
  show "rows_frame d n bl bl"
    unfolding rows_frame_def N_def[symmetric] using rowlen by simp
  note nodes = Initialize_nodes[OF k1(1) k255 lenk bl(2) st init]
  show "cauchy_nodes (rec_x d bl) (era_y d) (norm_x0 d) (RecoveryCount' d)" by (rule nodes(1))
  show "RecoveryCount' d \<le> m"
  proof -
    define h where "h = (\<lambda>i. \<rho> (recs ! i) - k)"
    have "inj_on h {..<N}"
    proof (rule inj_onI)
      fix i j assume ij: "i \<in> {..<N}" "j \<in> {..<N}" "h i = h j"
      then have i: "i < N" and j: "j < N" by simp_all
      have "\<rho> (recs ! i) = \<rho> (recs ! j)"
        using ij(3) Rm[OF i] Rm[OF j] unfolding h_def by linarith
      then have "idx (recs ! i) = idx (recs ! j)" by (simp add: \<rho>_def word_unat_eq_iff)
      then have "recs ! i = recs ! j" using Rm[OF i] Rm[OF j] by (intro inj) simp_all
      then show "i = j" using dR i j lR by (simp add: nth_eq_iff_index_eq)
    qed
    moreover have "h ` {..<N} \<subseteq> {..<m}" using Br Rm by (auto simp: h_def)
    ultimately have "card {..<N} \<le> card {..<m}" by (intro card_inj_on_le) simp_all
    then show ?thesis by (simp add: N_def)
  qed
  have uy: "unat (era_y d c) = missing ! c" if c: "c < N" for c
  proof -
    have "missing ! c < 256" using Mm[OF c] kk by simp
    then show ?thesis by (simp only: Ei[OF c] unat_byte_of_nat)
  qed
  show "\<forall>c<RecoveryCount' d. unat (era_y d c) < k"
    unfolding N_def[symmetric] using uy Mm by simp
  show "\<forall>oi<OriginalCount' d. unat (Index (bl ! (Original d ! oi))) < k"
    unfolding OC_def[symmetric] using Om Oi by (simp add: \<rho>_def idx_def)
  show "\<forall>i<RecoveryCount' d. k \<le> unat (Index (bl ! (Recovery d ! i))) \<and>
                             unat (Index (bl ! (Recovery d ! i))) < k + m"
    unfolding N_def[symmetric]
  proof (intro allI impI)
    fix i assume i: "i < N"
    have "recs ! i < k" "k \<le> \<rho> (recs ! i)" using Rm[OF i] by simp_all
    moreover from this have "unat (idx (recs ! i)) < k + m" using shard by blast
    ultimately show "k \<le> unat (Index (bl ! (Recovery d ! i))) \<and>
                     unat (Index (bl ! (Recovery d ! i))) < k + m"
      by (simp add: Ri[OF i] \<rho>_def idx_def)
  qed
  have present: "\<exists>p<k. idx p = of_nat r \<and> \<rho> p = r \<and> p \<in> set origs"
    if r: "r < k" and rin: "(of_nat r :: byte) \<in> Index ` set bl" for r
  proof -
    obtain blk where "blk \<in> set bl" "of_nat r = Index blk" using rin by auto
    then obtain p where p: "p < k" "of_nat r = idx p"
      using bl(1) by (auto simp: in_set_conv_nth idx_def)
    have "r < 256" using r kk by simp
    then have "\<rho> p = r" unfolding \<rho>_def p(2)[symmetric] by (rule unat_byte_of_nat)
    moreover from this have "p \<in> set origs" using p(1) r by (simp add: origs_def orig_iff)
    ultimately show ?thesis using p by auto
  qed
  show "\<forall>r<k. (\<exists>p<k. Index (bl ! p) = of_nat r \<and> Block (bl ! p) = Block (os ! r) \<and>
                      (\<forall>i<RecoveryCount' d. p \<noteq> Recovery d ! i)) \<or>
                (\<exists>c<RecoveryCount' d. era_y d c = of_nat r)"
    unfolding N_def[symmetric]
  proof (intro allI impI)
    fix r assume r: "r < k"
    show "(\<exists>p<k. Index (bl ! p) = of_nat r \<and> Block (bl ! p) = Block (os ! r) \<and>
                      (\<forall>i<N. p \<noteq> Recovery d ! i)) \<or>
                (\<exists>c<N. era_y d c = of_nat r)"
    proof (cases "(of_nat r :: byte) \<in> Index ` set bl")
      case True
      then obtain p where p: "p < k" "idx p = of_nat r" "\<rho> p = r" using present[OF r] by blast
      have "Block (bl ! p) = Block (os ! r)" using Bo[OF p(1)] p(3) r by simp
      moreover have "\<forall>i<N. p \<noteq> Recovery d ! i"
      proof (intro allI impI)
        fix i assume i: "i < N"
        have "k \<le> \<rho> (recs ! i)" using Rm[OF i] by simp
        then have "p \<noteq> recs ! i" using p(3) r by auto
        then show "p \<noteq> Recovery d ! i" using Ri[OF i] by simp
      qed
      ultimately show ?thesis using p by (auto simp: idx_def)
    next
      case False
      then have "r \<in> set missing" using r by (simp add: missing_def)
      then obtain c where "c < length missing" "missing ! c = r" by (auto simp: in_set_conv_nth)
      then have "c < N" "era_y d c = of_nat r" using lM Ei by simp_all
      then show ?thesis by blast
    qed
  qed
  show "\<forall>t<n. \<forall>i<RecoveryCount' d. GF (rec_row d bl i ! t) +
                (\<Sum>oi<OriginalCount' d.
                   GF (GetMatrixElement (Index (bl ! (Recovery d ! i)))
                         (ucast (OriginalCount (Params d))) (Index (bl ! (Original d ! oi)))) *
                   GF (Block (bl ! (Original d ! oi)) ! t)) =
              (\<Sum>c<RecoveryCount' d.
                   GF (GetMatrixElement (rec_x d bl i) (norm_x0 d) (era_y d c)) *
                   GF (Block (os ! unat (era_y d c)) ! t))"
    unfolding N_def[symmetric] OC_def[symmetric]
  proof (intro allI impI)
    fix t i assume t: "t < n" and i: "i < N"
    define p where "p = recs ! i"
    define x where "x = idx p"
    define r where "r = \<rho> p - k"
    define f where "f = (\<lambda>j. GF (GetMatrixElement x (ucast (OriginalCount params)) (of_nat j)) *
                              GF (Block (os ! j) ! t))"
    have pk: "p < k" "k \<le> \<rho> p" using Rm[OF i] by (simp_all add: p_def)
    have rm: "r < m" and Bp: "Block (bl ! p) = slice n r out" using Br[OF pk] by (simp_all add: r_def)
    have xr: "ucast (OriginalCount params + of_nat r) = x"
    proof -
      have "(ucast (OriginalCount params + of_nat r) :: byte) = of_nat (k + r)"
        unfolding k by (rule encoder_x_i[OF k0(1)])
      also have "k + r = unat x" using pk by (simp add: r_def \<rho>_def x_def)
      finally show ?thesis by simp
    qed
    have km: "sint (OriginalCount params) + int m \<le> 256" using v by (simp add: m)
    have leno: "\<forall>i<length os. length (Block (os ! i)) = nat (sint (BlockBytes params))"
      using os n by simp
    have lenk': "length os = nat (sint (OriginalCount params))" using os k by simp
    note sl1 = encode_slice(1)[OF rb rm n, of os, folded out]
    note sl2 = encode_slice(2)[OF rb rm n]
    have tn: "t < nat (sint (BlockBytes params))" using t n by simp
    have ld: "nat (sint (BlockBytes params)) \<le> length (drop (r * n) rb)" using sl2 n by simp
    have "rec_row d bl i ! t = slice n r out ! t"
      by (simp add: rec_row_def Ri[OF i] p_def[symmetric] Bp)
    also have "\<dots> = cm256_encode_block params os (OriginalCount params + of_nat r)
                       (drop (r * n) rb) ! t"
      unfolding sl1 using t by simp
    finally have "GF (rec_row d bl i ! t) =
                  GF (cm256_encode_block params os (OriginalCount params + of_nat r)
                       (drop (r * n) rb) ! t)" by simp
    also have "\<dots> = (\<Sum>j<nat (sint (OriginalCount params)).
            GF (GetMatrixElement (ucast (OriginalCount params + of_nat r))
                  (ucast (OriginalCount params)) (of_nat j)) * GF (Block (os ! j) ! t))"
      by (rule encode_block_row_gf[OF v(1) lenk' leno ld tn rm km])
    finally have row: "GF (rec_row d bl i ! t) = sum f {..<k}"
      by (simp add: xr f_def k)
    have xi: "Index (bl ! (Recovery d ! i)) = x" "rec_x d bl i = x"
      by (simp_all add: rec_x_def Ri[OF i] p_def x_def idx_def)
    have x0: "norm_x0 d = ucast (OriginalCount params)" by (simp add: norm_x0_def P)
    have "(\<Sum>oi<OC. GF (GetMatrixElement (Index (bl ! (Recovery d ! i)))
                         (ucast (OriginalCount (Params d))) (Index (bl ! (Original d ! oi)))) *
                   GF (Block (bl ! (Original d ! oi)) ! t)) =
          (\<Sum>oi<OC. f (\<rho> (origs ! oi)))"
    proof (intro sum.cong refl)
      fix oi assume "oi \<in> {..<OC}"
      then have oi: "oi < OC" by simp
      have "Index (bl ! (origs ! oi)) = of_nat (\<rho> (origs ! oi))"
        by (simp add: \<rho>_def idx_def)
      moreover have "Block (bl ! (origs ! oi)) = Block (os ! \<rho> (origs ! oi))"
        using Bo Om[OF oi] by simp
      ultimately show "GF (GetMatrixElement (Index (bl ! (Recovery d ! i)))
                         (ucast (OriginalCount (Params d))) (Index (bl ! (Original d ! oi)))) *
                   GF (Block (bl ! (Original d ! oi)) ! t) = f (\<rho> (origs ! oi))"
        by (simp only: xi P Oi[OF oi] f_def)
    qed
    also have "\<dots> = sum (\<lambda>q. f (\<rho> q)) (set origs)"
      using sum_nth_distinct[OF dO, of "\<lambda>q. f (\<rho> q)"] lO by simp
    also have "\<dots> = sum f (\<rho> ` set origs)"
    proof -
      have "inj_on \<rho> (set origs)"
      proof (rule inj_onI)
        fix a b assume ab: "a \<in> set origs" "b \<in> set origs" "\<rho> a = \<rho> b"
        then have "a < k" "b < k" by (simp_all add: origs_def)
        moreover have "idx a = idx b" using ab(3) by (simp add: \<rho>_def word_unat_eq_iff)
        ultimately show "a = b" by (rule inj)
      qed
      then show ?thesis by (simp add: sum.reindex)
    qed
    finally have lhs2: "(\<Sum>oi<OC. GF (GetMatrixElement (Index (bl ! (Recovery d ! i)))
                         (ucast (OriginalCount (Params d))) (Index (bl ! (Original d ! oi)))) *
                   GF (Block (bl ! (Original d ! oi)) ! t)) = sum f (\<rho> ` set origs)" .
    have "(\<Sum>c<N. GF (GetMatrixElement (rec_x d bl i) (norm_x0 d) (era_y d c)) *
                   GF (Block (os ! unat (era_y d c)) ! t)) = (\<Sum>c<N. f (missing ! c))"
    proof (intro sum.cong refl)
      fix c assume "c \<in> {..<N}"
      then have c: "c < N" by simp
      show "GF (GetMatrixElement (rec_x d bl i) (norm_x0 d) (era_y d c)) *
                   GF (Block (os ! unat (era_y d c)) ! t) = f (missing ! c)"
        by (simp only: xi x0 uy[OF c] f_def) (simp only: Ei[OF c])
    qed
    also have "\<dots> = sum f (set missing)"
      using sum_nth_distinct[OF dM, of f] lM by simp
    finally have rhs: "(\<Sum>c<N. GF (GetMatrixElement (rec_x d bl i) (norm_x0 d) (era_y d c)) *
                   GF (Block (os ! unat (era_y d c)) ! t)) = sum f (set missing)" .
    have disj: "\<rho> ` set origs \<inter> set missing = {}"
    proof -
      have "\<And>q. q \<in> set origs \<Longrightarrow> \<rho> q \<notin> set missing"
      proof -
        fix q assume "q \<in> set origs"
        then have q: "q < k" by (simp add: origs_def)
        then have "bl ! q \<in> set bl" using bl(1) by simp
        then have "idx q \<in> Index ` set bl" by (simp add: idx_def)
        moreover have "(of_nat (\<rho> q) :: byte) = idx q" by (simp add: \<rho>_def)
        ultimately show "\<rho> q \<notin> set missing" by (simp add: missing_def)
      qed
      then show ?thesis by auto
    qed
    have un: "\<rho> ` set origs \<union> set missing = {..<k}"
    proof (intro set_eqI iffI)
      fix j assume "j \<in> \<rho> ` set origs \<union> set missing"
      then show "j \<in> {..<k}" by (auto simp: origs_def missing_def orig_iff)
    next
      fix j assume "j \<in> {..<k}"
      then have j: "j < k" by simp
      show "j \<in> \<rho> ` set origs \<union> set missing"
      proof (cases "(of_nat j :: byte) \<in> Index ` set bl")
        case True
        then obtain q where "\<rho> q = j" "q \<in> set origs" using present[OF j] by blast
        then show ?thesis by blast
      next
        case False
        then show ?thesis using j by (simp add: missing_def)
      qed
    qed
    have "sum f (\<rho> ` set origs \<union> set missing) + sum f (\<rho> ` set origs) = sum f (set missing)"
      using disj by (intro gf_sum_split) simp_all
    then show "GF (rec_row d bl i ! t) +
                (\<Sum>oi<OC. GF (GetMatrixElement (Index (bl ! (Recovery d ! i)))
                         (ucast (OriginalCount (Params d))) (Index (bl ! (Original d ! oi)))) *
                   GF (Block (bl ! (Original d ! oi)) ! t)) =
              (\<Sum>c<N. GF (GetMatrixElement (rec_x d bl i) (norm_x0 d) (era_y d c)) *
                   GF (Block (os ! unat (era_y d c)) ! t))"
      unfolding row lhs2 rhs un .
  qed
qed

lemma row_eqI:
  assumes "length a = n" "length b = n" "\<forall>t<n. GF (a ! t) = GF (b ! t)"
  shows "a = b"
  using assms by (intro nth_equalityI) simp_all

lemma recovered_all:
  fixes d :: CM256Decoder and bl bl' os :: "cm256_block list"
  assumes ok: "rec_places_ok d (length bl)" and len: "length bl = k" and k: "k \<le> 256"
    and fr: "rows_frame d n bl bl'"
    and idx: "\<forall>i<RecoveryCount' d. Index (bl' ! (Recovery d ! i)) = era_y d i"
    and row: "\<forall>i<RecoveryCount' d. rec_row d bl' i = Block (os ! unat (era_y d i))"
    and all: "\<forall>r<k. (\<exists>p<k. Index (bl ! p) = of_nat r \<and> Block (bl ! p) = Block (os ! r) \<and>
                      (\<forall>i<RecoveryCount' d. p \<noteq> Recovery d ! i)) \<or>
                (\<exists>c<RecoveryCount' d. era_y d c = of_nat r)"
  shows "length bl' = k \<and>
         (\<forall>r<k. \<exists>p<k. Index (bl' ! p) = of_nat r \<and> Block (bl' ! p) = Block (os ! r))"
proof (intro conjI allI impI)
  show "length bl' = k" using fr len by (simp add: rows_frame_def)
next
  fix r assume r: "r < k"
  from all r consider
    (present) p where "p < k" "Index (bl ! p) = of_nat r" "Block (bl ! p) = Block (os ! r)"
      "\<forall>i<RecoveryCount' d. p \<noteq> Recovery d ! i"
    | (erased) c where "c < RecoveryCount' d" "era_y d c = of_nat r"
    by blast
  then show "\<exists>p<k. Index (bl' ! p) = of_nat r \<and> Block (bl' ! p) = Block (os ! r)"
  proof cases
    case present
    then have "bl' ! p = bl ! p" using fr len by (simp add: rows_frame_def)
    then show ?thesis using present by auto
  next
    case erased
    have p: "Recovery d ! c < k" using ok erased(1) len by (simp add: rec_places_ok_def)
    have "r < 256" using r k by simp
    then have "unat (of_nat r :: byte) = r" by (rule unat_byte_of_nat)
    then have "Block (bl' ! (Recovery d ! c)) = Block (os ! r)"
      using row erased by (simp add: rec_row_def)
    moreover have "Index (bl' ! (Recovery d ! c)) = of_nat r" using idx erased by simp
    ultimately show ?thesis using p by blast
  qed
qed

lemma encode_slice_single:
  fixes params :: cm256_encoder_params and os :: "cm256_block list"
  assumes k1: "OriginalCount params = 1" and n: "n = nat (sint (BlockBytes params))"
    and lo: "length (Block (os ! 0)) = n" and rb: "length rb = m * n" and r: "r < m"
  shows "slice n r (foldl (cm256_encode_step params os) rb [0..<m]) = Block (os ! 0)"
proof -
  note s1 = encode_slice(1)[OF rb r n, of os]
  note s2 = encode_slice(2)[OF rb r n]
  have "slice n r (foldl (cm256_encode_step params os) rb [0..<m]) =
        take n (memcpy (drop (r * n) rb) (Block (os ! 0)) n)"
    unfolding s1 using k1 by (simp add: cm256_encode_block_def n)
  also have "\<dots> = Block (os ! 0)"
    using s2 lo by (intro nth_equalityI) (simp_all add: nth_memcpy)
  finally show ?thesis .
qed

lemma cm256_decode_single:
  assumes "OriginalCount params = 1" "1 \<le> sint (RecoveryCount params)"
    "1 \<le> sint (BlockBytes params)" "sint (OriginalCount params) + sint (RecoveryCount params) \<le> 256"
  shows "cm256_decode params state scratch (Some bl) = (0, Some (set_Index bl 0 0))"
proof -
  have "sint (OriginalCount params + RecoveryCount params) =
        sint (OriginalCount params) + sint (RecoveryCount params)"
    using assms by (intro sint_add_small) auto
  then show ?thesis using assms by (simp add: cm256_decode_def)
qed

lemma cint_eq_1: "sint (K :: cint) = 1 \<Longrightarrow> K = 1"
proof -
  assume "sint K = 1"
  then have "sint K = sint (1 :: cint)" by simp
  then show "K = 1" by (rule signed_word_eqI)
qed

subsection \<open>Encoding, then decoding\<close>



end
